(* ===== verification/Prelude.thy ===== *)
theory Prelude
  imports Main "HOL-Library.Word"
begin

text \<open>
  Shared ground of the development: the machine integer types of an i686 kernel, the ways a
  kernel routine can fail, the collections of rewrite rules the component theories fill, and the
  list facts several components need.
\<close>

section \<open>Machine integers and failures\<close>

type_synonym u8 = "8 word"
type_synonym u16 = "16 word"
type_synonym u32 = "32 word"
type_synonym u64 = "64 word"

text \<open>
  The ways a routine of the kernel can end besides returning: it calls
  \<^verbatim>\<open>panic\<close>, it touches memory outside the object it works on, it waits for another
  thread, it executes an operation C leaves undefined, or it loops for ever (a loop that has
  used up the fuel given to it). \<open>'a kres\<close> is the result of a routine that may do so.
\<close>

datatype fault = Panic string | OutOfBounds | WouldBlock | Undefined | Diverges

type_synonym 'a kres = "fault + 'a"

definition kbind :: "'a kres \<Rightarrow> ('a \<Rightarrow> 'b kres) \<Rightarrow> 'b kres" where
  "kbind r f = (case r of Inl e \<Rightarrow> Inl e | Inr x \<Rightarrow> f x)"

lemma kbind_simps [simp]:
  "kbind (Inl e) f = Inl e"
  "kbind (Inr x) f = f x"
  by (simp_all add: kbind_def)

lemma kbind_Inr_iff: "kbind r f = Inr y \<longleftrightarrow> (\<exists>x. r = Inr x \<and> f x = Inr y)"
  by (cases r) auto

lemma kbind_InrE:
  assumes "kbind r f = Inr y"
  obtains x where "r = Inr x" and "f x = Inr y"
  using assms by (auto simp: kbind_Inr_iff)

section \<open>Collections\<close>

named_theorems live_simps \<open>effect of container operations on the elements they hold\<close>
named_theorems inv_intros \<open>preservation of component invariants\<close>

section \<open>Lists\<close>

lemma take_list_update_ge [simp]: "n \<le> i \<Longrightarrow> take n (xs[i := x]) = take n xs"
  by (simp add: take_update_cancel)

lemma take_Suc_update:
  assumes "n < length xs"
  shows "take (Suc n) (xs[n := x]) = take n xs @ [x]"
  using assms by (simp add: take_Suc_conv_app_nth)

lemma map_the_take_update:
  assumes "n < length xs"
  shows "map the (take (Suc n) (xs[n := Some x])) = map the (take n xs) @ [x]"
  using assms by (simp add: take_Suc_update)

lemma in_set_take_le: "x \<in> set (take s xs) \<Longrightarrow> s \<le> n \<Longrightarrow> x \<in> set (take n xs)"
  using set_take_subset_set_take [of s n xs] by blast

definition remove_nth :: "nat \<Rightarrow> 'a list \<Rightarrow> 'a list" where
  "remove_nth i xs = take i xs @ drop (Suc i) xs"

lemma length_remove_nth: "i < length xs \<Longrightarrow> length (remove_nth i xs) = length xs - 1"
  by (simp add: remove_nth_def)

lemma set_remove_nth: "set (remove_nth i xs) \<subseteq> set xs"
  by (auto simp: remove_nth_def dest: in_set_takeD in_set_dropD)

lemma map_remove_nth: "map f (remove_nth i xs) = remove_nth i (map f xs)"
  by (simp add: remove_nth_def take_map drop_map)

lemma distinct_remove_nth: "distinct xs \<Longrightarrow> distinct (remove_nth i xs)"
proof -
  assume d: "distinct xs"
  have "set (take i xs) \<inter> set (drop (Suc i) xs) = {}"
    by (rule set_take_disj_set_drop_if_distinct [OF d]) simp
  with d show ?thesis by (simp add: remove_nth_def)
qed

lemma remove_nth_Cons_Suc [simp]: "remove_nth (Suc i) (x # xs) = x # remove_nth i xs"
  by (simp add: remove_nth_def)

lemma remove_nth_Cons_0 [simp]: "remove_nth 0 (x # xs) = xs"
  by (simp add: remove_nth_def)

text \<open>The copying loop \<^verbatim>\<open>for(i = 0; i < n; ++i) dst[i] = src[i]\<close>.\<close>

definition copy_loop :: "nat \<Rightarrow> 'a list \<Rightarrow> 'a list \<Rightarrow> 'a list" where
  "copy_loop n src dst = fold (\<lambda>i d. d[i := src ! i]) [0..<n] dst"

lemma copy_loop_eq:
  assumes "n \<le> length src" and "n \<le> length dst"
  shows "copy_loop n src dst = take n src @ drop n dst"
  using assms
proof (induction n)
  case 0
  then show ?case by (simp add: copy_loop_def)
next
  case (Suc n)
  then have "copy_loop (Suc n) src dst = (take n src @ drop n dst)[n := src ! n]"
    by (simp add: copy_loop_def)
  also have "\<dots> = take (Suc n) src @ drop (Suc n) dst"
    using Suc.prems
    by (simp add: list_update_append take_Suc_conv_app_nth Cons_nth_drop_Suc [symmetric])
  finally show ?case .
qed

section \<open>Machine words\<close>

lemma sint_diff_small:
  fixes a b :: u32
  assumes "unat a < 2 ^ 31" and "unat b < 2 ^ 31"
  shows "sint (a - b) = int (unat a) - int (unat b)"
proof -
  have "a - b = word_of_int (int (unat a) - int (unat b))" by simp
  then have "sint (a - b) = (int (unat a) - int (unat b) + 2 ^ 31) mod (2 * 2 ^ 31) - 2 ^ 31"
    by (simp only: int_word_sint) simp
  moreover have "int (unat a) < 2 ^ 31" "int (unat b) < 2 ^ 31"
    using assms by (metis of_nat_less_iff of_nat_numeral of_nat_power)+
  then have "0 \<le> int (unat a) - int (unat b) + 2 ^ 31" "int (unat a) - int (unat b) + 2 ^ 31 < 2 * 2 ^ 31"
    by linarith+
  ultimately show ?thesis by (simp only: mod_pos_pos_trivial)
qed

lemma unat_add_one:
  fixes a :: "'a::len word"
  assumes "unat a < n" and "n < 2 ^ LENGTH('a)"
  shows "unat (a + 1) = Suc (unat a)"
proof -
  have "a + 1 = word_of_nat (Suc (unat a))" by (simp add: add.commute)
  then show ?thesis using assms by (simp only: unat_of_nat) simp
qed

lemma unat_word_of_nat:
  "n < 2 ^ LENGTH('a) \<Longrightarrow> unat (word_of_nat n :: 'a::len word) = n"
  by (simp add: unat_of_nat)

lemma unat_next: "(i :: 'a :: len word) < s \<Longrightarrow> unat (i + 1) = Suc (unat i)"
proof -
  assume a: "i < s"
  have "1 + i \<noteq> 0"
  proof
    assume "1 + i = 0"
    then have "i = - 1" by (simp add: add_eq_0_iff)
    then show False using a by simp
  qed
  then show ?thesis using unatSuc [of i] by (simp add: add.commute)
qed

end
