(* ===== verification/Ministl.thy ===== *)
theory Ministl
  imports Prelude "HOL-Library.AList"
begin

text \<open>
  The kernel's containers, \<^verbatim>\<open>include/util/ministl.hpp\<close>: the growable array
  \<^verbatim>\<open>vector<T>\<close> and the unordered dictionary \<^verbatim>\<open>map<K,V>\<close>, both kept in a
  \<^verbatim>\<open>malloc\<close>ed buffer of cells of which a prefix is constructed. A buffer is a list of
  cells, \<open>None\<close> for a cell that holds no object; every store to a cell checks that the cell
  lies inside the buffer, so an access past the allocation is the value \<open>Inl OutOfBounds\<close>.
  The second half gives the operations on the elements themselves, which the other components
  use, states the dictionary interface as a locale and interprets it for both levels.
\<close>

section \<open>The vector buffer\<close>

record 'a vec =
  dataSize :: nat
  reserved :: nat
  vcells :: "'a option list"

definition store_cell :: "nat \<Rightarrow> 'a \<Rightarrow> 'a option list \<Rightarrow> 'a option list kres" where
  "store_cell i x cs = (if i < length cs then Inr (cs[i := Some x]) else Inl OutOfBounds)"

text \<open>
  \<^verbatim>\<open>reserve\<close> allocates \<open>n\<close> cells, copy-constructs the live elements into
  them and frees the old buffer.
\<close>

definition vec_reserve :: "nat \<Rightarrow> 'a vec \<Rightarrow> 'a vec" where
  "vec_reserve n v =
     (if n < reserved v then v
      else v\<lparr>vcells := copy_loop (dataSize v) (vcells v) (replicate n None), reserved := n\<rparr>)"

definition vec_new :: "'a vec" where
  "vec_new = vec_reserve 10 \<lparr>dataSize = 0, reserved = 10, vcells = []\<rparr>"

definition vec_copy :: "'a vec \<Rightarrow> 'a vec" where
  "vec_copy other =
     (let v = vec_reserve (dataSize other)
                \<lparr>dataSize = 0, reserved = dataSize other, vcells = []\<rparr>
      in v\<lparr>dataSize := dataSize other,
           vcells := copy_loop (dataSize other) (vcells other) (vcells v)\<rparr>)"

definition vec_push_back :: "'a \<Rightarrow> 'a vec \<Rightarrow> 'a vec kres" where
  "vec_push_back x v =
     (let v' = (if dataSize v = reserved v then vec_reserve (reserved v * 2) v else v)
      in kbind (store_cell (dataSize v') x (vcells v'))
           (\<lambda>cs. Inr (v'\<lparr>vcells := cs, dataSize := Suc (dataSize v')\<rparr>)))"

text \<open>
  \<^verbatim>\<open>erase(start, end)\<close>: clamp the range, move the tail down, destroy the last
  \<^verbatim>\<open>end - start\<close> cells.
\<close>

definition vec_erase_range :: "nat \<Rightarrow> nat \<Rightarrow> 'a vec \<Rightarrow> 'a vec" where
  "vec_erase_range start0 end0 v =
     (let e = min end0 (dataSize v);
          s = min start0 e;
          moved = fold (\<lambda>j cs. cs[s + j := cs ! (e + j)]) [0..<dataSize v - e] (vcells v);
          n = dataSize v - (e - s)
      in v\<lparr>vcells := fold (\<lambda>i cs. cs[i := None]) (rev [n..<dataSize v]) moved, dataSize := n\<rparr>)"

definition vec_erase :: "nat \<Rightarrow> 'a vec \<Rightarrow> 'a vec" where
  "vec_erase i v = vec_erase_range i (Suc i) v"

definition vec_clear :: "'a vec \<Rightarrow> 'a vec" where
  "vec_clear v = vec_erase_range 0 (dataSize v) v"

text \<open>
  \<^verbatim>\<open>insert(pos, value)\<close> throws for a position outside the elements, otherwise it
  constructs a copy of the last element behind it, shifts the elements above \<open>pos\<close> up by
  one, and assigns.
\<close>

definition vec_insert :: "nat \<Rightarrow> 'a \<Rightarrow> 'a vec \<Rightarrow> 'a vec kres" where
  "vec_insert pos x v =
     (if dataSize v \<le> pos then Inl (Panic ''throw 1'')
      else
        let v' = (if dataSize v = reserved v then vec_reserve (reserved v * 2) v else v);
            n = dataSize v'
        in kbind (store_cell n (the (vcells v' ! (n - 1))) (vcells v'))
             (\<lambda>cs. let cs' = fold (\<lambda>i c. c[i := c ! (i - 1)]) (rev [Suc pos..<n]) cs
                   in Inr (v'\<lparr>vcells := cs'[pos := Some x], dataSize := Suc n\<rparr>)))"

definition vec_find :: "'a \<Rightarrow> 'a vec \<Rightarrow> nat option" where
  "vec_find x v = List.find (\<lambda>i. vcells v ! i = Some x) [0..<dataSize v]"

definition vec_inv :: "'a vec \<Rightarrow> bool" where
  "vec_inv v \<longleftrightarrow> length (vcells v) = reserved v \<and> dataSize v \<le> reserved v
     \<and> list_all (\<lambda>c. c \<noteq> None) (take (dataSize v) (vcells v))"

definition vec_elems :: "'a vec \<Rightarrow> 'a list" where
  "vec_elems v = map the (take (dataSize v) (vcells v))"

section \<open>The map buffer\<close>

definition map_growth_factor :: nat where
  "map_growth_factor = 64"

record ('k, 'v) mbuf =
  msize :: nat
  mcapacity :: nat
  mdata :: "('k \<times> 'v) option list"

definition mbuf_new :: "('k, 'v) mbuf" where
  "mbuf_new = \<lparr>msize = 0, mcapacity = map_growth_factor,
                mdata = replicate map_growth_factor None\<rparr>"

definition mbuf_reserve :: "nat \<Rightarrow> ('k, 'v) mbuf \<Rightarrow> ('k, 'v) mbuf" where
  "mbuf_reserve n m =
     (if n < mcapacity m then m
      else m\<lparr>mdata := copy_loop (msize m) (mdata m) (replicate n None), mcapacity := n\<rparr>)"

definition mbuf_insert :: "'k \<times> 'v \<Rightarrow> ('k, 'v) mbuf \<Rightarrow> ('k, 'v) mbuf kres" where
  "mbuf_insert kv m =
     (let m' = (if mcapacity m \<le> msize m + 1 then mbuf_reserve (mcapacity m + map_growth_factor) m
                else m)
      in kbind (store_cell (msize m') kv (mdata m'))
           (\<lambda>cs. Inr (m'\<lparr>mdata := cs, msize := Suc (msize m')\<rparr>)))"

text \<open>
  The scan every lookup performs: the index of the first live cell whose key is \<open>k\<close>.
\<close>

definition mbuf_scan :: "'k \<Rightarrow> ('k, 'v) mbuf \<Rightarrow> nat option" where
  "mbuf_scan k m =
     List.find (\<lambda>i. case mdata m ! i of Some (k', _) \<Rightarrow> k' = k | None \<Rightarrow> False) [0..<msize m]"

definition mbuf_has_key :: "'k \<Rightarrow> ('k, 'v) mbuf \<Rightarrow> bool" where
  "mbuf_has_key k m \<longleftrightarrow> mbuf_scan k m \<noteq> None"

text \<open>
  \<^verbatim>\<open>erase(iterator)\<close> destroys the cell and moves \<^verbatim>\<open>size_ - (i - begin())\<close>
  cells down, one more than the elements behind it.
\<close>

definition memmove_cells :: "nat \<Rightarrow> nat \<Rightarrow> nat \<Rightarrow> 'a list \<Rightarrow> 'a list kres" where
  "memmove_cells dst src n cs =
     (if src + n \<le> length cs \<and> dst + n \<le> length cs
      then Inr (take dst cs @ take n (drop src cs) @ drop (dst + n) cs)
      else Inl OutOfBounds)"

definition mbuf_erase_at :: "nat \<Rightarrow> ('k, 'v) mbuf \<Rightarrow> ('k, 'v) mbuf kres" where
  "mbuf_erase_at i m =
     kbind (memmove_cells i (i + 1) (msize m - i) ((mdata m)[i := None]))
       (\<lambda>cs. Inr (m\<lparr>mdata := cs, msize := msize m - 1\<rparr>))"

definition mbuf_erase :: "'k \<Rightarrow> ('k, 'v) mbuf \<Rightarrow> ('k, 'v) mbuf kres" where
  "mbuf_erase k m = (case mbuf_scan k m of None \<Rightarrow> Inr m | Some i \<Rightarrow> mbuf_erase_at i m)"

text \<open>
  \<^verbatim>\<open>operator[]\<close> returns a reference to the value, after appending a
  default-constructed one if the key is absent: the index of the cell and the map.
\<close>

definition mbuf_index :: "'v \<Rightarrow> 'k \<Rightarrow> ('k, 'v) mbuf \<Rightarrow> (nat \<times> ('k, 'v) mbuf) kres" where
  "mbuf_index dflt k m =
     (case mbuf_scan k m of
        Some i \<Rightarrow> Inr (i, m)
      | None \<Rightarrow> kbind (mbuf_insert (k, dflt) m) (\<lambda>m'. Inr (msize m, m')))"

text \<open>The assignment \<^verbatim>\<open>m[k] = v\<close> through that reference.\<close>

definition mbuf_put :: "'v \<Rightarrow> 'k \<Rightarrow> 'v \<Rightarrow> ('k, 'v) mbuf \<Rightarrow> ('k, 'v) mbuf kres" where
  "mbuf_put dflt k v m =
     kbind (mbuf_index dflt k m)
       (\<lambda>(i, m'). kbind (store_cell i (k, v) (mdata m')) (\<lambda>cs. Inr (m'\<lparr>mdata := cs\<rparr>)))"

text \<open>The copy constructor keeps the other map's capacity.\<close>

definition mbuf_copy :: "('k, 'v) mbuf \<Rightarrow> ('k, 'v) mbuf" where
  "mbuf_copy rhs = \<lparr>msize = msize rhs, mcapacity = mcapacity rhs,
     mdata = copy_loop (msize rhs) (mdata rhs) (replicate (mcapacity rhs) None)\<rparr>"

definition mbuf_inv :: "('k, 'v) mbuf \<Rightarrow> bool" where
  "mbuf_inv m \<longleftrightarrow> length (mdata m) = mcapacity m \<and> msize m < mcapacity m
     \<and> list_all (\<lambda>c. c \<noteq> None) (take (msize m) (mdata m))"

definition mbuf_entries :: "('k, 'v) mbuf \<Rightarrow> ('k \<times> 'v) list" where
  "mbuf_entries m = map the (take (msize m) (mdata m))"

section \<open>The same operations on the elements\<close>

text \<open>
  What the operations do to the list of elements, in iteration order. The other components hold
  their vectors as lists and their maps as association lists and call these.
\<close>

definition vec_erase_elem :: "nat \<Rightarrow> 'a list \<Rightarrow> 'a list" where
  "vec_erase_elem i xs = remove_nth i xs"

definition map_has_key :: "('k \<times> 'v) list \<Rightarrow> 'k \<Rightarrow> bool" where
  "map_has_key m k \<longleftrightarrow> list_ex (\<lambda>kv. fst kv = k) m"

primrec map_put :: "'k \<Rightarrow> 'v \<Rightarrow> ('k \<times> 'v) list \<Rightarrow> ('k \<times> 'v) list" where
  "map_put k v [] = [(k, v)]"
| "map_put k v (p # m) = (if fst p = k then (k, v) # m else p # map_put k v m)"

primrec map_erase :: "'k \<Rightarrow> ('k \<times> 'v) list \<Rightarrow> ('k \<times> 'v) list" where
  "map_erase k [] = []"
| "map_erase k (p # m) = (if fst p = k then m else p # map_erase k m)"

definition map_index :: "'v \<Rightarrow> 'k \<Rightarrow> ('k \<times> 'v) list \<Rightarrow> 'v \<times> ('k \<times> 'v) list" where
  "map_index dflt k m =
     (case map_of m k of Some v \<Rightarrow> (v, m) | None \<Rightarrow> (dflt, m @ [(k, dflt)]))"

abbreviation map_keys :: "('k \<times> 'v) list \<Rightarrow> 'k list" where
  "map_keys m \<equiv> map fst m"


section \<open>Correctness of the vector\<close>

lemma store_cell_Inr [simp]: "i < length cs \<Longrightarrow> store_cell i x cs = Inr (cs[i := Some x])"
  by (simp add: store_cell_def)

lemma vec_inv_length: "vec_inv v \<Longrightarrow> length (vec_elems v) = dataSize v"
  by (simp add: vec_inv_def vec_elems_def)

lemma vec_inv_new [inv_intros]: "vec_inv vec_new"
  by (simp add: vec_new_def vec_reserve_def vec_inv_def copy_loop_eq)

lemma vec_elems_new [live_simps]: "vec_elems vec_new = []"
  by (simp add: vec_new_def vec_reserve_def vec_elems_def)

lemma vec_inv_reserve [inv_intros]: "vec_inv v \<Longrightarrow> vec_inv (vec_reserve n v)"
  by (auto simp: vec_reserve_def vec_inv_def copy_loop_eq)

lemma vec_elems_reserve [live_simps]: "vec_inv v \<Longrightarrow> vec_elems (vec_reserve n v) = vec_elems v"
  by (auto simp: vec_reserve_def vec_inv_def vec_elems_def copy_loop_eq)

lemma vec_reserve_fields:
  "dataSize (vec_reserve n v) = dataSize v"
  "reserved (vec_reserve n v) = max n (reserved v)"
  by (auto simp: vec_reserve_def)

lemma vec_copy_props:
  assumes "vec_inv v"
  shows "vec_inv (vec_copy v)" and "vec_elems (vec_copy v) = vec_elems v"
    and "reserved (vec_copy v) = dataSize v" and "dataSize (vec_copy v) = dataSize v"
  using assms
  by (simp_all add: vec_copy_def vec_reserve_def vec_inv_def vec_elems_def copy_loop_eq)

lemma vec_push_back_room:
  assumes inv: "vec_inv v" and room: "dataSize v < reserved v"
  shows "\<exists>v'. vec_push_back x v = Inr v' \<and> vec_inv v' \<and> vec_elems v' = vec_elems v @ [x]
           \<and> 0 < reserved v'"
proof -
  have len: "dataSize v < length (vcells v)" using inv room by (simp add: vec_inv_def)
  let ?v = "v\<lparr>vcells := (vcells v)[dataSize v := Some x], dataSize := Suc (dataSize v)\<rparr>"
  have "vec_push_back x v = Inr ?v"
    using len room by (simp add: vec_push_back_def)
  moreover have "vec_inv ?v"
    using inv room len by (simp add: vec_inv_def take_Suc_update)
  moreover have "vec_elems ?v = vec_elems v @ [x]"
    using len by (simp add: vec_elems_def map_the_take_update)
  ultimately show ?thesis using room by auto
qed

lemma vec_push_back_grow:
  assumes "dataSize v = reserved v" and "0 < reserved v"
  shows "vec_push_back x v = vec_push_back x (vec_reserve (reserved v * 2) v)"
  using assms by (simp add: vec_push_back_def vec_reserve_fields Let_def)

lemma fold_clear_cells:
  assumes "\<forall>i \<in> set is. n \<le> i"
  shows "take n (fold (\<lambda>i cs. cs[i := None]) is cs) = take n cs"
    and "length (fold (\<lambda>i cs. cs[i := None]) is cs) = length cs"
  using assms by (induction "is" arbitrary: cs) auto

lemma fold_move_down:
  assumes "s \<le> e" and "e + k \<le> length cs"
  shows "fold (\<lambda>j cs. cs[s + j := cs ! (e + j)]) [0..<k] cs
           = take s cs @ take k (drop e cs) @ drop (s + k) cs"
  using assms
proof (induction k)
  case 0
  then show ?case by simp
next
  case (Suc k)
  let ?r = "take s cs @ take k (drop e cs) @ drop (s + k) cs"
  have nth: "?r ! (e + k) = cs ! (e + k)"
    using Suc.prems by (auto simp: nth_append add.commute)
  have "?r[s + k := cs ! (e + k)]
          = take s cs @ take k (drop e cs) @ (drop (s + k) cs)[0 := cs ! (e + k)]"
    using Suc.prems by (simp add: list_update_append)
  also have "\<dots> = take s cs @ take (Suc k) (drop e cs) @ drop (s + Suc k) cs"
  proof -
    have "take (Suc k) (drop e cs) = take k (drop e cs) @ [cs ! (e + k)]"
      using Suc.prems by (simp add: take_Suc_conv_app_nth)
    moreover have "drop (s + k) cs = cs ! (s + k) # drop (s + Suc k) cs"
      using Suc.prems by (simp add: Cons_nth_drop_Suc)
    ultimately show ?thesis by simp
  qed
  finally show ?case using Suc nth by simp
qed

lemma vec_erase_range_props:
  assumes inv: "vec_inv v" and se: "s \<le> e" "e \<le> dataSize v"
  shows "vec_inv (vec_erase_range s e v)"
    and "vec_elems (vec_erase_range s e v) = take s (vec_elems v) @ drop e (vec_elems v)"
    and "reserved (vec_erase_range s e v) = reserved v"
proof -
  let ?d = "dataSize v" and ?c = "vcells v"
  let ?m = "take s ?c @ take (?d - e) (drop e ?c) @ drop (s + (?d - e)) ?c"
  have len: "?d \<le> length ?c" using inv by (simp add: vec_inv_def)
  have d: "e + (?d - e) \<le> length ?c" using len se by simp
  have n: "?d - (e - s) = s + (?d - e)" using se by simp
  have eq: "vec_erase_range s e v =
      v\<lparr>vcells := fold (\<lambda>i cs. cs[i := None]) (rev [s + (?d - e)..<?d]) ?m,
        dataSize := s + (?d - e)\<rparr>"
    using fold_move_down [OF se(1) d] se n by (simp add: vec_erase_range_def Let_def min_def)
  have tk: "take (s + (?d - e)) (fold (\<lambda>i cs. cs[i := None]) (rev [s + (?d - e)..<?d]) ?m)
      = take s ?c @ take (?d - e) (drop e ?c)"
    using fold_clear_cells(1) [of "rev [s + (?d - e)..<?d]" "s + (?d - e)" ?m] len se by simp
  have ln: "length (fold (\<lambda>i cs. cs[i := None]) (rev [s + (?d - e)..<?d]) ?m) = length ?c"
    using fold_clear_cells(2) [of "rev [s + (?d - e)..<?d]" "s + (?d - e)" ?m] len se by simp
  have tsub: "take (?d - e) (drop e ?c) = drop e (take ?d ?c)"
    by (simp add: drop_take)
  have "list_all (\<lambda>c. c \<noteq> None) (take s ?c @ take (?d - e) (drop e ?c))"
    using inv se unfolding vec_inv_def tsub list_all_iff
    by (auto dest: in_set_dropD in_set_take_le [where n = "dataSize v"])
  then show "vec_inv (vec_erase_range s e v)"
    using inv tk ln se by (auto simp: eq vec_inv_def)
  show "vec_elems (vec_erase_range s e v) = take s (vec_elems v) @ drop e (vec_elems v)"
    using tk se by (simp add: eq vec_elems_def tsub take_map drop_map min_def)
  show "reserved (vec_erase_range s e v) = reserved v"
    by (simp add: vec_erase_range_def Let_def)
qed

lemma fold_shift_up:
  "length (fold (\<lambda>i c. c[i := c ! (i - Suc 0)]) (rev [Suc p..<n]) cs) = length cs"
  "n \<le> length cs \<Longrightarrow> j < length cs \<Longrightarrow>
     fold (\<lambda>i c. c[i := c ! (i - Suc 0)]) (rev [Suc p..<n]) cs ! j
       = (if p < j \<and> j < n then cs ! (j - Suc 0) else cs ! j)"
proof (induction n arbitrary: cs)
  case 0
  { case 1 show ?case by simp }
  { case 2 show ?case by simp }
next
  case (Suc n)
  { case 1 show ?case using Suc.IH(1) by simp }
  { case 2 
    show ?case
    proof (cases "Suc p \<le> n")
      case True
      with 2 Suc.IH(2) [of "cs[n := cs ! (n - 1)]"] show ?thesis
        by (auto simp: nth_list_update less_Suc_eq)
    next
      case False
      with 2 show ?thesis by auto
    qed }
qed

lemma vec_insert_props:
  assumes inv: "vec_inv v" and pos: "pos < dataSize v"
  shows "\<exists>v'. vec_insert pos x v = Inr v' \<and> vec_inv v'
           \<and> vec_elems v' = take pos (vec_elems v) @ x # drop pos (vec_elems v)"
proof -
  define w where "w = (if dataSize v = reserved v then vec_reserve (reserved v * 2) v else v)"
  let ?n = "dataSize v" and ?c = "vcells w"
  have w: "vec_inv w" "vec_elems w = vec_elems v" "dataSize w = ?n"
    using inv by (auto simp: w_def vec_inv_reserve vec_elems_reserve vec_reserve_fields)
  have room: "?n < length ?c"
    using w inv pos by (auto simp: w_def vec_inv_def vec_reserve_fields split: if_splits)
  define d where "d = ?c[?n := Some (the (?c ! (?n - 1)))]"
  define r where "r = (fold (\<lambda>i c. c[i := c ! (i - 1)]) (rev [Suc pos..<?n]) d)[pos := Some x]"
  have eq: "vec_insert pos x v = Inr (w\<lparr>vcells := r, dataSize := Suc ?n\<rparr>)"
    unfolding vec_insert_def w_def [symmetric] Let_def d_def r_def using pos room w by simp
  have some: "?c ! i \<noteq> None" if "i < ?n" for i
    using w that by (auto simp: vec_inv_def list_all_length)
  have len: "length r = length ?c" by (simp add: r_def d_def fold_shift_up)
  have nth: "r ! j = (if j < pos then ?c ! j else if j = pos then Some x else ?c ! (j - 1))"
    if "j \<le> ?n" for j
    using that pos room some [of "?n - 1"]
    by (auto simp: r_def nth_list_update fold_shift_up d_def)
  have "list_all (\<lambda>c. c \<noteq> None) (take (Suc ?n) r)"
    using some pos len room by (auto simp: list_all_length nth simp del: not_None_eq)
  moreover have "map the (take (Suc ?n) r)
      = take pos (vec_elems w) @ x # drop pos (vec_elems w)"
    using len room pos w(3)
    by (intro nth_equalityI)
      (auto simp: vec_elems_def nth nth_append nth_Cons' less_Suc_eq_le)
  ultimately show ?thesis
    using eq w len room by (auto simp: vec_inv_def vec_elems_def)
qed

lemma vec_erase_props:
  assumes "vec_inv v" and "i < dataSize v"
  shows "vec_inv (vec_erase i v)" and "vec_elems (vec_erase i v) = remove_nth i (vec_elems v)"
    and "reserved (vec_erase i v) = reserved v"
  using vec_erase_range_props [OF assms(1), of i "Suc i"] assms(2)
  by (simp_all add: vec_erase_def remove_nth_def)

section \<open>Correctness of the map\<close>

lemma mbuf_inv_new [inv_intros]: "mbuf_inv mbuf_new"
  by (simp add: mbuf_inv_def mbuf_new_def map_growth_factor_def)

lemma mbuf_entries_new [live_simps]: "mbuf_entries mbuf_new = []"
  by (simp add: mbuf_entries_def mbuf_new_def)

lemma mbuf_copy_props:
  assumes "mbuf_inv m"
  shows "mbuf_inv (mbuf_copy m)" and "mbuf_entries (mbuf_copy m) = mbuf_entries m"
  using assms by (auto simp: mbuf_inv_def mbuf_copy_def mbuf_entries_def copy_loop_eq)

lemma mbuf_entries_nth:
  assumes "mbuf_inv m" and "i < msize m"
  shows "mdata m ! i = Some (mbuf_entries m ! i)"
  using assms by (auto simp: mbuf_inv_def mbuf_entries_def list_all_length)

lemma mbuf_length: "mbuf_inv m \<Longrightarrow> length (mbuf_entries m) = msize m"
  by (simp add: mbuf_inv_def mbuf_entries_def)

lemma mbuf_insert_props:
  assumes inv: "mbuf_inv m"
  shows "\<exists>m'. mbuf_insert kv m = Inr m' \<and> mbuf_inv m' \<and> mbuf_entries m' = mbuf_entries m @ [kv]"
proof -
  define w where "w = (if mcapacity m \<le> msize m + 1
                       then mbuf_reserve (mcapacity m + map_growth_factor) m else m)"
  have w: "mbuf_inv w" "mbuf_entries w = mbuf_entries m" "msize w + 1 < mcapacity w"
    using inv
    by (auto simp: w_def mbuf_reserve_def mbuf_inv_def mbuf_entries_def copy_loop_eq
        map_growth_factor_def)
  let ?m = "w\<lparr>mdata := (mdata w)[msize w := Some kv], msize := Suc (msize w)\<rparr>"
  have len: "msize w < length (mdata w)" using w by (simp add: mbuf_inv_def)
  have "mbuf_insert kv m = Inr ?m"
    unfolding mbuf_insert_def w_def [symmetric] Let_def using len by simp
  moreover have "mbuf_inv ?m"
    using w len by (simp add: mbuf_inv_def take_Suc_update)
  moreover have "mbuf_entries ?m = mbuf_entries w @ [kv]"
    using len by (simp add: mbuf_entries_def map_the_take_update)
  ultimately show ?thesis using w by auto
qed

lemma mbuf_scan_eq:
  assumes "mbuf_inv m"
  shows "mbuf_scan k m = List.find (\<lambda>i. fst (mbuf_entries m ! i) = k) [0..<length (mbuf_entries m)]"
  unfolding mbuf_scan_def mbuf_length [OF assms]
  by (intro find_cong refl) (auto simp: mbuf_entries_nth [OF assms] split: prod.splits)

lemma mbuf_scan_Some:
  assumes "mbuf_inv m" and "mbuf_scan k m = Some i"
  shows "i < msize m" and "fst (mbuf_entries m ! i) = k"
    and "\<forall>j < i. fst (mbuf_entries m ! j) \<noteq> k"
  using assms by (auto simp: mbuf_scan_eq mbuf_length find_Some_iff)

lemma mbuf_scan_None:
  assumes "mbuf_inv m"
  shows "mbuf_scan k m = None \<longleftrightarrow> k \<notin> set (map_keys (mbuf_entries m))"
proof -
  let ?e = "mbuf_entries m"
  have "k \<in> set (map_keys ?e) \<longleftrightarrow> (\<exists>i < length ?e. fst (?e ! i) = k)"
    unfolding in_set_conv_nth by auto
  then show ?thesis using assms by (auto simp: mbuf_scan_eq find_None_iff)
qed

lemma mbuf_erase_at_props:
  assumes inv: "mbuf_inv m" and i: "i < msize m"
  shows "\<exists>m'. mbuf_erase_at i m = Inr m' \<and> mbuf_inv m'
           \<and> mbuf_entries m' = remove_nth i (mbuf_entries m)"
proof -
  let ?c = "(mdata m)[i := None]" and ?n = "msize m"
  define r where "r = take i ?c @ take (?n - i) (drop (i + 1) ?c) @ drop (i + (?n - i)) ?c"
  have len: "?n < length (mdata m)" "mcapacity m = length (mdata m)"
    using inv by (auto simp: mbuf_inv_def)
  have eq: "mbuf_erase_at i m = Inr (m\<lparr>mdata := r, msize := ?n - 1\<rparr>)"
    using len i by (simp add: mbuf_erase_at_def memmove_cells_def r_def)
  have l2: "length (take (?n - i) (drop (i + 1) ?c)) = ?n - i" using len i by simp
  have tk: "take (?n - 1) r = remove_nth i (take ?n (mdata m))"
    unfolding r_def take_append l2 remove_nth_def using len i
    by (simp add: drop_take min.absorb1 del: length_take length_drop) (simp add: min.absorb2)
  have lr: "length r = length (mdata m)" using len i by (simp add: r_def)
  have "list_all (\<lambda>c. c \<noteq> None) (remove_nth i (take ?n (mdata m)))"
    using inv set_remove_nth [of i "take ?n (mdata m)"]
    unfolding mbuf_inv_def list_all_iff by blast
  then have "mbuf_inv (m\<lparr>mdata := r, msize := ?n - 1\<rparr>)"
    using len lr tk by (simp add: mbuf_inv_def)
  moreover have "mbuf_entries (m\<lparr>mdata := r, msize := ?n - 1\<rparr>) = remove_nth i (mbuf_entries m)"
    using tk by (simp add: mbuf_entries_def map_remove_nth)
  ultimately show ?thesis using eq by blast
qed

lemma map_erase_first:
  assumes "i < length xs" and "fst (xs ! i) = k" and "\<forall>j < i. fst (xs ! j) \<noteq> k"
  shows "map_erase k xs = remove_nth i xs"
  using assms
proof (induction xs arbitrary: i)
  case (Cons p xs)
  show ?case
  proof (cases i)
    case (Suc i')
    with Cons.prems have "fst p \<noteq> k" "\<forall>j < i'. fst (xs ! j) \<noteq> k" by force+
    with Cons.prems Suc Cons.IH [of i'] show ?thesis by simp
  qed (use Cons.prems in simp)
qed simp

lemma map_put_first:
  assumes "i < length xs" and "fst (xs ! i) = k" and "\<forall>j < i. fst (xs ! j) \<noteq> k"
  shows "map_put k v xs = xs[i := (k, v)]"
  using assms
proof (induction xs arbitrary: i)
  case (Cons p xs)
  show ?case
  proof (cases i)
    case (Suc i')
    with Cons.prems have "fst p \<noteq> k" "\<forall>j < i'. fst (xs ! j) \<noteq> k" by force+
    with Cons.prems Suc Cons.IH [of i'] show ?thesis by simp
  qed (use Cons.prems in simp)
qed simp

lemma map_put_absent: "k \<notin> set (map_keys m) \<Longrightarrow> map_put k v m = m @ [(k, v)]"
  by (induction m) auto

lemma map_put_snoc:
  "k \<notin> set (map_keys m) \<Longrightarrow> map_put k v (m @ [(k, d)]) = m @ [(k, v)]"
  by (induction m) auto

lemma map_erase_absent: "k \<notin> set (map_keys m) \<Longrightarrow> map_erase k m = m"
  by (induction m) auto

lemma map_has_key_iff: "map_has_key m k \<longleftrightarrow> k \<in> set (map_keys m)"
  by (auto simp: map_has_key_def list_ex_iff)

lemma mbuf_has_key_eq: "mbuf_inv m \<Longrightarrow> mbuf_has_key k m = map_has_key (mbuf_entries m) k"
  by (simp add: mbuf_has_key_def mbuf_scan_None map_has_key_iff)

lemma mbuf_erase_props:
  assumes "mbuf_inv m"
  shows "\<exists>m'. mbuf_erase k m = Inr m' \<and> mbuf_inv m' \<and> mbuf_entries m' = map_erase k (mbuf_entries m)"
proof (cases "mbuf_scan k m")
  case None
  with assms have "k \<notin> set (map_keys (mbuf_entries m))" by (simp add: mbuf_scan_None)
  with assms None show ?thesis by (simp add: mbuf_erase_def map_erase_absent)
next
  case (Some i)
  note s = mbuf_scan_Some [OF assms Some]
  have "map_erase k (mbuf_entries m) = remove_nth i (mbuf_entries m)"
    using s assms by (intro map_erase_first) (auto simp: mbuf_length)
  then show ?thesis
    using mbuf_erase_at_props [OF assms s(1)] Some by (auto simp: mbuf_erase_def)
qed

lemma mbuf_index_props:
  assumes inv: "mbuf_inv m"
  shows "\<exists>i m'. mbuf_index d k m = Inr (i, m') \<and> mbuf_inv m' \<and> i < msize m'
           \<and> fst (mbuf_entries m' ! i) = k \<and> (\<forall>j < i. fst (mbuf_entries m' ! j) \<noteq> k)
           \<and> mbuf_entries m' = snd (map_index d k (mbuf_entries m))"
proof (cases "mbuf_scan k m")
  case None
  with inv have k: "k \<notin> set (map_keys (mbuf_entries m))" by (simp add: mbuf_scan_None)
  then have "map_of (mbuf_entries m) k = None" by (simp add: map_of_eq_None_iff)
  obtain m' where m': "mbuf_insert (k, d) m = Inr m'" "mbuf_inv m'"
    "mbuf_entries m' = mbuf_entries m @ [(k, d)]"
    using mbuf_insert_props [OF inv, of "(k, d)"] by blast
  have sz: "msize m' = Suc (msize m)"
    using mbuf_length [OF m'(2)] mbuf_length [OF inv] m'(3) by simp
  have "\<forall>j < msize m. fst (mbuf_entries m' ! j) \<noteq> k"
    using k mbuf_length [OF inv] m'(3) by (auto simp: nth_append)
  then show ?thesis
    using None m' sz mbuf_length [OF inv] \<open>map_of (mbuf_entries m) k = None\<close>
    by (simp add: mbuf_index_def map_index_def nth_append)
next
  case (Some i)
  note s = mbuf_scan_Some [OF inv Some]
  have "k \<in> set (map_keys (mbuf_entries m))"
    using Some mbuf_scan_None [OF inv, of k] by auto
  then obtain v where "map_of (mbuf_entries m) k = Some v"
    by (metis map_of_eq_None_iff not_None_eq list.set_map)
  with Some s inv show ?thesis by (simp add: mbuf_index_def map_index_def)
qed

lemma mbuf_put_props:
  assumes inv: "mbuf_inv m"
  shows "\<exists>m'. mbuf_put d k v m = Inr m' \<and> mbuf_inv m' \<and> mbuf_entries m' = map_put k v (mbuf_entries m)"
proof -
  obtain i w where w: "mbuf_index d k m = Inr (i, w)" "mbuf_inv w" "i < msize w"
    "fst (mbuf_entries w ! i) = k" "\<forall>j < i. fst (mbuf_entries w ! j) \<noteq> k"
    "mbuf_entries w = snd (map_index d k (mbuf_entries m))"
    using mbuf_index_props [OF inv, of d k] by blast
  have len: "i < length (mdata w)" using w by (simp add: mbuf_inv_def)
  let ?m = "w\<lparr>mdata := (mdata w)[i := Some (k, v)]\<rparr>"
  have eq: "mbuf_put d k v m = Inr ?m" using w len by (simp add: mbuf_put_def)
  have inv': "mbuf_inv ?m"
    using w len by (auto simp: mbuf_inv_def list_all_length nth_list_update)
  have "mbuf_entries ?m = (mbuf_entries w)[i := (k, v)]"
    using w by (simp add: mbuf_entries_def take_update_swap map_update)
  also have "\<dots> = map_put k v (mbuf_entries w)"
    using w mbuf_length [OF w(2)] by (intro map_put_first [symmetric]) auto
  also have "\<dots> = map_put k v (mbuf_entries m)"
  proof (cases "map_of (mbuf_entries m) k")
    case None
    then have "k \<notin> set (map_keys (mbuf_entries m))" by (simp add: map_of_eq_None_iff)
    then show ?thesis using None w(6) by (simp add: map_index_def map_put_absent map_put_snoc)
  qed (simp add: w(6) map_index_def)
  finally show ?thesis using eq inv' by blast
qed

section \<open>The dictionary interface\<close>

lemma map_of_put [live_simps]: "map_of (map_put k v m) = (map_of m)(k \<mapsto> v)"
  by (induction m) auto

lemma map_keys_put:
  "map_keys (map_put k v m) = (if k \<in> set (map_keys m) then map_keys m else map_keys m @ [k])"
  by (induction m) auto

lemma set_map_put: "set (map_put k v m) \<subseteq> insert (k, v) (set m)"
  by (induction m) auto

lemma set_map_erase: "set (map_erase k m) \<subseteq> set m"
  by (induction m) auto

lemma distinct_map_put [inv_intros]: "distinct (map_keys m) \<Longrightarrow> distinct (map_keys (map_put k v m))"
  by (simp add: map_keys_put del: set_map)

lemma distinct_map_erase [inv_intros]:
  "distinct (map_keys m) \<Longrightarrow> distinct (map_keys (map_erase k m))"
proof (induction m)
  case (Cons p m)
  moreover have "set (map_keys (map_erase k m)) \<subseteq> set (map_keys m)"
    using set_map_erase [of k m] by auto
  ultimately show ?case by auto
qed simp

lemma map_of_erase [live_simps]:
  "distinct (map_keys m) \<Longrightarrow> map_of (map_erase k m) = (map_of m)(k := None)"
  by (induction m) (auto simp: fun_eq_iff map_of_eq_None_iff)

lemma map_keys_erase:
  assumes "distinct (map_keys m)"
  shows "set (map_keys (map_erase k m)) = set (map_keys m) - {k}"
proof -
  have "set (map_keys xs) = dom (map_of xs)" for xs :: "('a \<times> 'b) list"
    by (simp add: dom_map_of_conv_image_fst)
  with map_of_erase [OF assms, of k] show ?thesis by simp
qed

lemma map_has_key_map_of: "map_has_key m k \<longleftrightarrow> map_of m k \<noteq> None"
  by (simp add: map_has_key_iff map_of_eq_None_iff)

lemma map_index_map_of [live_simps]:
  "fst (map_index d k m) = (case map_of m k of Some v \<Rightarrow> v | None \<Rightarrow> d)"
  "map_of m k = Some v \<Longrightarrow> map_index d k m = (v, m)"
  by (auto simp: map_index_def split: option.splits)

text \<open>
  What the kernel's components rely on when they keep a dictionary: a lookup after an update or
  an erasure, and an invariant that every operation keeps.
\<close>

locale keyed_map =
  fixes empty_map :: "'m"
    and has_key :: "'m \<Rightarrow> 'k \<Rightarrow> bool"
    and put :: "'k \<Rightarrow> 'v \<Rightarrow> 'm \<Rightarrow> 'm"
    and erase :: "'k \<Rightarrow> 'm \<Rightarrow> 'm"
    and lookup :: "'m \<Rightarrow> 'k \<Rightarrow> 'v option"
    and invar :: "'m \<Rightarrow> bool"
  assumes invar_empty: "invar empty_map"
    and invar_put: "invar m \<Longrightarrow> invar (put k v m)"
    and invar_erase: "invar m \<Longrightarrow> invar (erase k m)"
    and lookup_empty: "lookup empty_map = (\<lambda>_. None)"
    and lookup_put: "invar m \<Longrightarrow> lookup (put k v m) = (lookup m)(k \<mapsto> v)"
    and lookup_erase: "invar m \<Longrightarrow> lookup (erase k m) = (lookup m)(k := None)"
    and has_key_iff: "invar m \<Longrightarrow> has_key m k \<longleftrightarrow> lookup m k \<noteq> None"
begin

lemma has_put: "invar m \<Longrightarrow> has_key (put k v m) k' \<longleftrightarrow> k' = k \<or> has_key m k'"
  by (simp add: has_key_iff invar_put lookup_put)

lemma has_erase: "invar m \<Longrightarrow> has_key (erase k m) k' \<longleftrightarrow> k' \<noteq> k \<and> has_key m k'"
  by (simp add: has_key_iff invar_erase lookup_erase)

lemma erase_put: "invar m \<Longrightarrow> lookup (erase k (put k v m)) = (lookup m)(k := None)"
  by (simp add: invar_put lookup_put lookup_erase)

text \<open>
  Any sequence of assignments and erasures from the empty dictionary behaves as the same
  sequence on a partial function.
\<close>

lemma run_ops:
  assumes "invar m"
  shows "invar (fold (\<lambda>(k, w). case w of Some v \<Rightarrow> put k v | None \<Rightarrow> erase k) ops m)
    \<and> lookup (fold (\<lambda>(k, w). case w of Some v \<Rightarrow> put k v | None \<Rightarrow> erase k) ops m)
        = fold (\<lambda>(k, w) f. f(k := w)) ops (lookup m)"
  using assms
proof (induction ops arbitrary: m)
  case (Cons op ops)
  obtain k w where op: "op = (k, w)" by fastforce
  show ?case
  proof (cases w)
    case None
    with Cons op show ?thesis by (simp add: invar_erase lookup_erase)
  next
    case (Some v)
    with Cons op show ?thesis by (simp add: invar_put lookup_put)
  qed
qed simp

end

interpretation em: keyed_map "[]" map_has_key map_put map_erase map_of "\<lambda>m. distinct (map_keys m)"
  by unfold_locales
    (simp, rule distinct_map_put, assumption, rule distinct_map_erase, assumption,
      simp add: fun_eq_iff, rule map_of_put, rule map_of_erase, assumption, rule map_has_key_map_of)

definition mbuf_lookup :: "('k, 'v) mbuf \<Rightarrow> 'k \<Rightarrow> 'v option" where
  "mbuf_lookup m = map_of (mbuf_entries m)"

definition mbuf_wf :: "('k, 'v) mbuf \<Rightarrow> bool" where
  "mbuf_wf m \<longleftrightarrow> mbuf_inv m \<and> distinct (map_keys (mbuf_entries m))"

lemma mbuf_put_ok:
  assumes "mbuf_wf m"
  shows "mbuf_put d k v m = Inr (projr (mbuf_put d k v m))" and "mbuf_wf (projr (mbuf_put d k v m))"
    and "mbuf_lookup (projr (mbuf_put d k v m)) = (mbuf_lookup m)(k \<mapsto> v)"
  using assms mbuf_put_props [of m d k v]
  by (auto simp: mbuf_wf_def mbuf_lookup_def live_simps intro: distinct_map_put)

lemma mbuf_erase_ok:
  assumes "mbuf_wf m"
  shows "mbuf_erase k m = Inr (projr (mbuf_erase k m))" and "mbuf_wf (projr (mbuf_erase k m))"
    and "mbuf_lookup (projr (mbuf_erase k m)) = (mbuf_lookup m)(k := None)"
  using assms mbuf_erase_props [of m k]
  by (auto simp: mbuf_wf_def mbuf_lookup_def live_simps intro: distinct_map_erase)

interpretation bm: keyed_map mbuf_new "\<lambda>m k. mbuf_has_key k m" "\<lambda>k v m. projr (mbuf_put d k v m)"
  "\<lambda>k m. projr (mbuf_erase k m)" mbuf_lookup mbuf_wf
  for d
proof unfold_locales
  show "mbuf_wf mbuf_new"
    by (simp add: mbuf_wf_def mbuf_inv_new mbuf_entries_new)
  show "mbuf_lookup mbuf_new = (\<lambda>_. None)"
    by (simp add: mbuf_lookup_def mbuf_entries_new fun_eq_iff)
  show "mbuf_has_key k m \<longleftrightarrow> mbuf_lookup m k \<noteq> None" if "mbuf_wf m" for m :: "('a, 'b) mbuf" and k
    using that by (simp add: mbuf_wf_def mbuf_has_key_eq mbuf_lookup_def map_has_key_map_of)
qed (simp_all add: mbuf_put_ok(2,3) mbuf_erase_ok(2,3))


section \<open>Properties\<close>

text \<open>
  Appending to a vector whose buffer has at least one cell succeeds, whether there is room
  or the buffer has to be doubled first: no cell outside the buffer is written, the invariant
  holds again, the buffer is still non-empty, and the elements are the old ones followed by the
  new one.
\<close>

theorem vec_push_back_correct:
  assumes "vec_inv v" and "0 < reserved v"
  shows "\<exists>v'. vec_push_back x v = Inr v' \<and> vec_inv v' \<and> 0 < reserved v'
           \<and> vec_elems v' = vec_elems v @ [x]"
proof (cases "dataSize v < reserved v")
  case True
  then show ?thesis using vec_push_back_room [OF assms(1)] by metis
next
  case False
  then have full: "dataSize v = reserved v" using assms(1) by (simp add: vec_inv_def)
  let ?w = "vec_reserve (reserved v * 2) v"
  have "dataSize ?w < reserved ?w" using full assms(2) by (simp add: vec_reserve_def)
  from vec_push_back_room [OF vec_inv_reserve [OF assms(1)] this, of x] show ?thesis
    using vec_push_back_grow [OF full assms(2), of x] vec_elems_reserve [OF assms(1)] by metis
qed

theorem vec_push_back_correct_witness:
  "\<exists>v'. vec_push_back (7::nat) vec_new = Inr v' \<and> vec_inv v' \<and> 0 < reserved v'
     \<and> vec_elems v' = vec_elems vec_new @ [7]"
  by (rule vec_push_back_correct) (simp add: vec_inv_new, simp add: vec_new_def vec_reserve_def)


text \<open>
  (C15) The map is a dictionary. From any well-formed buffer, an assignment \<^verbatim>\<open>m[k] = v\<close>
  and an \<^verbatim>\<open>erase(k)\<close> run inside the buffer, keep it well formed, and change the
  finite map it stands for at \<open>k\<close> only; \<^verbatim>\<open>has_key\<close> is membership in its domain.
\<close>

theorem mbuf_is_dictionary:
  assumes "mbuf_wf m"
  shows "(\<exists>m'. mbuf_put d k v m = Inr m' \<and> mbuf_wf m' \<and> mbuf_lookup m' = (mbuf_lookup m)(k \<mapsto> v))
     \<and> (\<exists>m'. mbuf_erase k m = Inr m' \<and> mbuf_wf m' \<and> mbuf_lookup m' = (mbuf_lookup m)(k := None))
     \<and> (mbuf_has_key k m \<longleftrightarrow> k \<in> dom (mbuf_lookup m))"
  using mbuf_put_ok [OF assms, of d k v] mbuf_erase_ok [OF assms, of k] bm.has_key_iff [OF assms, of k]
  by (metis domIff)

theorem mbuf_is_dictionary_witness:
  "mbuf_wf (mbuf_new :: (nat, nat) mbuf)
   \<and> (\<exists>m'. mbuf_put 0 3 4 (mbuf_new :: (nat, nat) mbuf) = Inr m' \<and> mbuf_wf m'
         \<and> mbuf_lookup m' = (mbuf_lookup mbuf_new)(3 \<mapsto> 4))"
proof -
  have w: "mbuf_wf (mbuf_new :: (nat, nat) mbuf)" by (simp add: mbuf_wf_def mbuf_inv_new mbuf_entries_new)
  from mbuf_is_dictionary [OF this, of 0 3 4] w show ?thesis by blast
qed

end
