(* ===== verification/Memcpy.thy ===== *)
theory Memcpy
  imports Prelude
begin

text \<open>
  Block copies: the word-at-a-time \<^verbatim>\<open>memcpy\<close> of \<^verbatim>\<open>kernel/memcpy.c\<close> (compiled
  with \<^verbatim>\<open>LITTLE_ENDIAN\<close> and \<^verbatim>\<open>INDEXED_COPY\<close>, 32-bit words) and the
  \<^verbatim>\<open>memmove\<close> of \<^verbatim>\<open>kernel/util.cpp\<close>. Memory maps a byte address to a byte;
  addresses are natural numbers, so a block that wraps around the address space is outside the
  model. Both are shown equal to the mathematical block copy.
\<close>

unbundle bit_operations_syntax

section \<open>Byte and word access\<close>

type_synonym mem = "nat \<Rightarrow> u8"

definition rd32 :: "mem \<Rightarrow> nat \<Rightarrow> u32" where
  "rd32 m a = ucast (m a) OR push_bit 8 (ucast (m (a + 1)))
     OR push_bit 16 (ucast (m (a + 2))) OR push_bit 24 (ucast (m (a + 3)))"

definition wr32 :: "nat \<Rightarrow> u32 \<Rightarrow> mem \<Rightarrow> mem" where
  "wr32 a w m = m(a := ucast w, a + 1 := ucast (drop_bit 8 w),
     a + 2 := ucast (drop_bit 16 w), a + 3 := ucast (drop_bit 24 w))"

section \<open>The routines\<close>

text \<open>
  The pointers \<^verbatim>\<open>dst8\<close>, \<^verbatim>\<open>src8\<close> and the memory they walk over.
\<close>

record cpstate =
  dst8 :: nat
  src8 :: nat
  cmem :: mem

text \<open>\<^verbatim>\<open>INC_VAL(dst8) = INC_VAL(src8)\<close>\<close>

definition cp_byte :: "cpstate \<Rightarrow> cpstate" where
  "cp_byte s = \<lparr>dst8 = dst8 s + 1, src8 = src8 s + 1,
                 cmem = (cmem s)(dst8 s := cmem s (src8 s))\<rparr>"

text \<open>
  The fall-through switch: \<^verbatim>\<open>count\<close> bytes for a count up to seven, nothing otherwise.
\<close>

definition copy_remaining :: "nat \<Rightarrow> cpstate \<Rightarrow> cpstate" where
  "copy_remaining count s = (if count \<le> 7 then (cp_byte ^^ count) s else s)"

definition cp_incr :: "cpstate \<Rightarrow> cpstate" where
  "cp_incr s = \<lparr>dst8 = dst8 s + 4, src8 = src8 s + 4,
                 cmem = wr32 (dst8 s) (rd32 (cmem s) (src8 s)) (cmem s)\<rparr>"

definition cp_index :: "nat \<Rightarrow> cpstate \<Rightarrow> cpstate" where
  "cp_index idx s =
     s\<lparr>cmem := wr32 (dst8 s + 4 * idx) (rd32 (cmem s) (src8 s + 4 * idx)) (cmem s)\<rparr>"

definition inc_index :: "nat \<Rightarrow> cpstate \<Rightarrow> cpstate" where
  "inc_index o8 s = s\<lparr>dst8 := dst8 s + 4 * o8, src8 := src8 s + 4 * o8\<rparr>"

fun head_loop :: "('s \<Rightarrow> 's) \<Rightarrow> nat \<Rightarrow> 's \<Rightarrow> nat \<times> 's" where
  "head_loop step len s = (if len mod 8 \<noteq> 0 then head_loop step (len - 1) (step s) else (len, s))"

declare head_loop.simps [simp del]

definition copy_no_shift :: "nat \<Rightarrow> cpstate \<Rightarrow> cpstate" where
  "copy_no_shift count s =
     (let (len, s1) = head_loop cp_incr (count div 4) s;
          s2 = ((\<lambda>s. inc_index 8 (fold cp_index [0, 1, 2, 3, 4, 5, 6, 7] s)) ^^ (len div 8)) s1
      in copy_remaining (count mod 4) s2)"

text \<open>
  The misaligned copy keeps the last source word read and assembles each destination word from
  it and the next one; \<^verbatim>\<open>SHL\<close> is \<^verbatim>\<open>>>\<close> on a little-endian machine.
  Here \<open>src8\<close> holds \<^verbatim>\<open>srcN\<close>.
\<close>

record shstate = cpstate +
  srcWord :: u32

definition cp_index_sh :: "nat \<Rightarrow> nat \<Rightarrow> nat \<Rightarrow> shstate \<Rightarrow> shstate" where
  "cp_index_sh x shl shr s =
     (let w = rd32 (cmem s) (src8 s + 4 * x);
          dstWord = drop_bit shl (srcWord s) OR push_bit shr w
      in s\<lparr>srcWord := w, cmem := wr32 (dst8 s + 4 * x) dstWord (cmem s)\<rparr>)"

definition cp_incr_sh :: "nat \<Rightarrow> nat \<Rightarrow> shstate \<Rightarrow> shstate" where
  "cp_incr_sh shl shr s =
     (let s' = cp_index_sh 0 shl shr s in s'\<lparr>dst8 := dst8 s + 4, src8 := src8 s + 4\<rparr>)"

definition copy_shift :: "nat \<Rightarrow> nat \<Rightarrow> cpstate \<Rightarrow> cpstate" where
  "copy_shift shift count s =
     (let dstN = 4 * (dst8 s div 4);
          srcN = 4 * (src8 s div 4);
          s0 = \<lparr>dst8 = dstN, src8 = srcN + 4, cmem = cmem s, srcWord = rd32 (cmem s) srcN\<rparr>;
          shl = 8 * shift; shr = 8 * (4 - shift);
          (len, s1) = head_loop (cp_incr_sh shl shr) (count div 4) s0;
          s2 = ((\<lambda>s. let s' = fold (\<lambda>x. cp_index_sh x shl shr) [0, 1, 2, 3, 4, 5, 6, 7] s
                     in s'\<lparr>dst8 := dst8 s' + 32, src8 := src8 s' + 32\<rparr>) ^^ (len div 8)) s1
      in copy_remaining (count mod 4)
           \<lparr>dst8 = dst8 s2, src8 = src8 s2 + shift - 4, cmem = cmem s2\<rparr>)"

function align_loop :: "nat \<Rightarrow> cpstate \<Rightarrow> nat \<times> cpstate" where
  "align_loop count s =
     (if dst8 s mod 4 \<noteq> 0 then align_loop (count - 1) (cp_byte s) else (count, s))"
  by pat_completeness auto
termination
  by (relation "measure (\<lambda>(count, s). if dst8 s mod 4 = 0 then 0 else 4 - dst8 s mod 4)")
    (auto simp: cp_byte_def mod_Suc)

declare align_loop.simps [simp del]

definition memcpy :: "nat \<Rightarrow> nat \<Rightarrow> nat \<Rightarrow> mem \<Rightarrow> mem" where
  "memcpy dest src count m =
     (let s = \<lparr>dst8 = dest, src8 = src, cmem = m\<rparr>
      in if count < 8 then cmem (copy_remaining count s)
         else
           let (c, s1) = align_loop count s; sh = src8 s1 mod 4
           in if sh = 0 then cmem (copy_no_shift c s1) else cmem (copy_shift sh c s1))"

text \<open>
  \<^verbatim>\<open>memmove\<close> uses \<^verbatim>\<open>memcpy\<close> when the destination is not above the source and
  copies backwards otherwise.
\<close>

fun backward_loop :: "nat \<Rightarrow> nat \<Rightarrow> nat \<Rightarrow> mem \<Rightarrow> mem" where
  "backward_loop 0 dst src m = m"
| "backward_loop (Suc c) dst src m = backward_loop c (dst - 1) (src - 1) (m(dst - 1 := m (src - 1)))"

definition memmove :: "nat \<Rightarrow> nat \<Rightarrow> nat \<Rightarrow> mem \<Rightarrow> mem" where
  "memmove v_dst v_src c m =
     (if c = 0 then m
      else if v_dst \<le> v_src then memcpy v_dst v_src c m
      else backward_loop c (v_dst + c) (v_src + c) m)"

section \<open>Specification\<close>

definition block_copy :: "nat \<Rightarrow> nat \<Rightarrow> nat \<Rightarrow> mem \<Rightarrow> mem" where
  "block_copy d s n m = (\<lambda>a. if d \<le> a \<and> a < d + n then m (s + (a - d)) else m a)"

definition forward_ok :: "nat \<Rightarrow> nat \<Rightarrow> nat \<Rightarrow> bool" where
  "forward_ok d s n \<longleftrightarrow> d \<le> s \<or> s + n \<le> d"


section \<open>Bytes of words\<close>

definition byte :: "u32 \<Rightarrow> nat \<Rightarrow> u8" where
  "byte w k = ucast (drop_bit (8 * k) w)"

lemma bit_byte: "bit (byte w k) n \<longleftrightarrow> n < 8 \<and> bit w (8 * k + n)"
  by (auto simp: byte_def bit_simps)

lemma byte_rd32:
  assumes "k < 4"
  shows "byte (rd32 m a) k = m (a + k)"
proof (rule bit_word_eqI)
  fix n assume n: "n < LENGTH(8)"
  have "k = 0 \<or> k = 1 \<or> k = 2 \<or> k = 3" using assms by arith
  then show "bit (byte (rd32 m a) k) n \<longleftrightarrow> bit (m (a + k)) n"
    using n by (auto simp: bit_byte rd32_def bit_simps dest: bit_imp_le_length)
qed

lemma wr32_at:
  "wr32 a w m = (\<lambda>b. if a \<le> b \<and> b < a + 4 then byte w (b - a) else m b)"
proof
  fix b
  have "a \<le> b \<and> b < a + 4 \<longleftrightarrow> b = a \<or> b = a + 1 \<or> b = a + 2 \<or> b = a + 3" by arith
  then show "wr32 a w m b = (if a \<le> b \<and> b < a + 4 then byte w (b - a) else m b)"
    by (auto simp: wr32_def byte_def)
qed

lemma byte_shifted:
  assumes "0 < sh" and "sh < 4" and "k < 4"
  shows "byte (drop_bit (8 * sh) v OR push_bit (8 * (4 - sh)) w) k
           = (if k + sh < 4 then byte v (k + sh) else byte w (k + sh - 4))"
proof (rule bit_word_eqI)
  fix n assume "n < LENGTH(8)"
  then have n: "n < 8" by simp
  have sh: "sh = 1 \<or> sh = 2 \<or> sh = 3" and k: "k = 0 \<or> k = 1 \<or> k = 2 \<or> k = 3"
    using assms by arith+
  show "bit (byte (drop_bit (8 * sh) v OR push_bit (8 * (4 - sh)) w) k) n
    \<longleftrightarrow> bit (if k + sh < 4 then byte v (k + sh) else byte w (k + sh - 4)) n"
    using sh k n by (elim disjE) (auto simp: bit_byte bit_simps dest: bit_imp_le_length)
qed

section \<open>The word copy is a block copy\<close>

lemma block_copy_0 [simp]: "block_copy d s 0 m = m"
  by (auto simp: block_copy_def fun_eq_iff)

lemma block_copy_append:
  assumes "forward_ok d s (j + k)"
  shows "block_copy (d + j) (s + j) k (block_copy d s j m) = block_copy d s (j + k) m"
  using assms by (auto simp: block_copy_def forward_ok_def fun_eq_iff)

lemma wr32_rd32: "wr32 d (rd32 m s) m = block_copy d s 4 m"
  by (auto simp: wr32_at block_copy_def byte_rd32 fun_eq_iff)

text \<open>\<open>advanced n s s'\<close>: from \<open>s\<close>, \<open>n\<close> bytes have been copied and both pointers moved.\<close>

definition advanced :: "nat \<Rightarrow> cpstate \<Rightarrow> cpstate" where
  "advanced n s = \<lparr>dst8 = dst8 s + n, src8 = src8 s + n,
                    cmem = block_copy (dst8 s) (src8 s) n (cmem s)\<rparr>"

lemma advanced_0 [simp]: "advanced 0 s = s"
  by (simp add: advanced_def)

lemma advanced_advanced:
  assumes "forward_ok (dst8 s) (src8 s) (j + k)"
  shows "advanced k (advanced j s) = advanced (j + k) s"
  using block_copy_append [OF assms] by (simp add: advanced_def add.assoc)

lemma forward_ok_advanced:
  "forward_ok (dst8 s) (src8 s) (j + k) \<Longrightarrow> forward_ok (dst8 (advanced j s)) (src8 (advanced j s)) k"
  by (auto simp: forward_ok_def advanced_def)

lemma forward_ok_mono: "forward_ok d s n \<Longrightarrow> k \<le> n \<Longrightarrow> forward_ok d s k"
  by (auto simp: forward_ok_def)

lemma cp_byte_advanced: "cp_byte = advanced 1"
  by (auto simp: cp_byte_def advanced_def block_copy_def fun_eq_iff)

lemma cp_incr_advanced: "cp_incr = advanced 4"
  by (simp add: fun_eq_iff cp_incr_def advanced_def wr32_rd32)

lemma funpow_advanced:
  assumes "forward_ok (dst8 s) (src8 s) (w * n)"
  shows "(advanced w ^^ n) s = advanced (w * n) s"
  using assms
proof (induction n)
  case (Suc n)
  then have "(advanced w ^^ n) s = advanced (w * n) s"
    using forward_ok_mono [OF Suc.prems, of "w * n"] by simp
  moreover have "forward_ok (dst8 s) (src8 s) (w * n + w)"
    using Suc.prems by (simp add: add.commute)
  ultimately show ?case by (simp add: advanced_advanced add.commute)
qed simp

lemma copy_remaining_advanced:
  assumes "count \<le> 7" and "forward_ok (dst8 s) (src8 s) count"
  shows "copy_remaining count s = advanced count s"
  using funpow_advanced [of s 1 count] assms
  by (simp add: copy_remaining_def cp_byte_advanced)

lemma head_loop_eq: "head_loop step len s = (len - len mod 8, (step ^^ (len mod 8)) s)"
proof (induction step len s rule: head_loop.induct)
  case (1 step len s)
  show ?case
  proof (cases "len mod 8 = 0")
    case True
    then show ?thesis by (subst head_loop.simps) simp
  next
    case False
    then obtain l where l: "len = Suc l" by (cases len) auto
    with False have m: "len mod 8 = Suc (l mod 8)" by (simp add: mod_Suc split: if_splits)
    have "head_loop step len s = head_loop step l (step s)"
      using False l by (subst head_loop.simps) simp
    also have "\<dots> = (l - l mod 8, (step ^^ (l mod 8)) (step s))"
      using 1 [OF False] l by simp
    finally show ?thesis using l m by (simp add: funpow_swap1)
  qed
qed

lemma head_loop_div: "(len - len mod 8) div 8 = len div (8 :: nat)"
  by (simp add: minus_mod_eq_mult_div)

lemma cp_index_advanced:
  assumes "forward_ok (dst8 s) (src8 s) (4 * (i + 1))"
  shows "cmem (cp_index i (s\<lparr>cmem := block_copy (dst8 s) (src8 s) (4 * i) (cmem s)\<rparr>))
           = block_copy (dst8 s) (src8 s) (4 * (i + 1)) (cmem s)"
  using block_copy_append [of "dst8 s" "src8 s" "4 * i" 4 "cmem s"] assms
  by (simp add: cp_index_def wr32_rd32 algebra_simps)

lemma cp_index_block:
  assumes "forward_ok (dst8 s) (src8 s) (4 * n)"
  shows "fold cp_index [0..<n] s = s\<lparr>cmem := block_copy (dst8 s) (src8 s) (4 * n) (cmem s)\<rparr>"
  using assms
proof (induction n)
  case (Suc n)
  have ok: "forward_ok (dst8 s) (src8 s) (4 * n)"
    using forward_ok_mono [OF Suc.prems] by simp
  let ?s = "s\<lparr>cmem := block_copy (dst8 s) (src8 s) (4 * n) (cmem s)\<rparr>"
  have "fold cp_index [0..<Suc n] s = cp_index n ?s"
    using Suc.IH [OF ok] by simp
  also have "\<dots> = ?s\<lparr>cmem := cmem (cp_index n ?s)\<rparr>" by (simp add: cp_index_def)
  finally show ?case using cp_index_advanced [of s n] Suc.prems by simp
qed simp

lemma upto_8: "[0, 1, 2, 3, 4, 5, 6, 7] = [0..<8 :: nat]"
  by (simp add: upt_conv_Cons)

lemma unrolled_advanced:
  assumes "forward_ok (dst8 s) (src8 s) 32"
  shows "inc_index 8 (fold cp_index [0, 1, 2, 3, 4, 5, 6, 7] s) = advanced 32 s"
  unfolding upto_8 using cp_index_block [of s 8] assms
  by (simp add: inc_index_def advanced_def)

lemma funpow_advanced_cond:
  assumes step: "\<And>s. forward_ok (dst8 s) (src8 s) w \<Longrightarrow> step s = advanced w s"
    and ok: "forward_ok (dst8 s) (src8 s) (w * n)"
  shows "(step ^^ n) s = advanced (w * n) s"
  using ok
proof (induction n)
  case (Suc n)
  have s: "(step ^^ n) s = advanced (w * n) s"
    using Suc.IH forward_ok_mono [OF Suc.prems, of "w * n"] by simp
  have ok: "forward_ok (dst8 s) (src8 s) (w * n + w)"
    using Suc.prems by (simp add: add.commute)
  show ?case
    using s step [OF forward_ok_advanced [OF ok]] advanced_advanced [OF ok]
    by (simp add: add.commute)
qed simp

lemma split_count: "count = 4 * (count div 4 mod 8) + (32 * (count div 4 div 8) + count mod (4 :: nat))"
proof -
  have "n = 4 * r + (32 * q + c)" if "n = a * 4 + c" and "a = q * 8 + r" for n a c q r :: nat
    using that by simp
  from this [OF div_mult_mod_eq [symmetric] div_mult_mod_eq [symmetric]] show ?thesis .
qed

lemma copy_no_shift_advanced:
  assumes ok: "forward_ok (dst8 s) (src8 s) count"
  shows "copy_no_shift count s = advanced count s"
proof -
  let ?l = "count div 4"
  let ?a = "4 * (?l mod 8)" and ?b = "32 * (?l div 8)" and ?c = "count mod 4"
  have sum: "count = ?a + (?b + ?c)" by (rule split_count)
  have ok1: "forward_ok (dst8 s) (src8 s) (?a + (?b + ?c))" using ok sum by simp
  have s1: "(cp_incr ^^ (?l mod 8)) s = advanced ?a s"
    unfolding cp_incr_advanced
    by (rule funpow_advanced) (rule forward_ok_mono [OF ok1], simp)
  let ?s1 = "advanced ?a s"
  note ok2 = forward_ok_advanced [OF ok1]
  have s2: "((\<lambda>s. inc_index 8 (fold cp_index [0, 1, 2, 3, 4, 5, 6, 7] s)) ^^ (?l div 8)) ?s1
      = advanced ?b ?s1"
    by (rule funpow_advanced_cond [OF unrolled_advanced]) (simp, rule forward_ok_mono [OF ok2], simp)
  note ok3 = forward_ok_advanced [OF ok2]
  have "copy_no_shift count s = advanced ?c (advanced ?b ?s1)"
    unfolding copy_no_shift_def head_loop_eq Let_def prod.case head_loop_div s1 s2
    by (rule copy_remaining_advanced) (simp, rule ok3)
  also have "\<dots> = advanced count s"
    using advanced_advanced [OF ok2] advanced_advanced [OF ok1] sum by simp
  finally show ?thesis .
qed

section \<open>The shifted copy\<close>

definition at_index :: "nat \<Rightarrow> shstate \<Rightarrow> shstate" where
  "at_index x s = s\<lparr>dst8 := dst8 s + 4 * x, src8 := src8 s + 4 * x\<rparr>"

lemma at_index_step:
  "at_index (Suc x) (cp_index_sh x a b s) = cp_incr_sh a b (at_index x s)"
  by (simp add: at_index_def cp_index_sh_def cp_incr_sh_def Let_def)

lemma unrolled_shift:
  "at_index n (fold (\<lambda>x. cp_index_sh x a b) [0..<n] s) = (cp_incr_sh a b ^^ n) s"
  by (induction n) (simp_all add: at_index_step, simp add: at_index_def)

lemma unrolled_shift_8:
  "(let s' = fold (\<lambda>x. cp_index_sh x a b) [0, 1, 2, 3, 4, 5, 6, 7] s
    in s'\<lparr>dst8 := dst8 s' + 32, src8 := src8 s' + 32\<rparr>) = (cp_incr_sh a b ^^ 8) s"
  unfolding upto_8 unrolled_shift [of 8, symmetric] by (simp add: at_index_def Let_def)

lemma loops_funpow: "((f ^^ 8) ^^ (l div 8)) ((f ^^ (l mod 8)) s) = (f ^^ l) s"
proof -
  have "(f ^^ l) s = (f ^^ (8 * (l div 8) + l mod 8)) s" by simp
  also have "\<dots> = (f ^^ (8 * (l div 8))) ((f ^^ (l mod 8)) s)"
    unfolding funpow_add by simp
  also have "f ^^ (8 * (l div 8)) = (f ^^ 8) ^^ (l div 8)"
    by (rule funpow_mult [symmetric, THEN trans]) (simp add: mult.commute)
  finally show ?thesis by simp
qed

text \<open>
  What the loop keeps: the pointers are aligned and the bytes of \<^verbatim>\<open>srcWord\<close> from the shift
  on are the next source bytes, as far as they belong to the block that ends at \<open>e\<close>.
\<close>

definition sh_inv :: "nat \<Rightarrow> nat \<Rightarrow> shstate \<Rightarrow> bool" where
  "sh_inv sh e s \<longleftrightarrow> dst8 s mod 4 = 0 \<and> src8 s mod 4 = 0 \<and> 4 \<le> src8 s
     \<and> (\<forall>k < 4. sh \<le> k \<longrightarrow> src8 s - 4 + k < e \<longrightarrow> byte (srcWord s) k = cmem s (src8 s - 4 + k))"

lemma cp_incr_sh_step:
  assumes inv: "sh_inv sh e s" and sh: "0 < sh" "sh < 4"
    and ok: "forward_ok (dst8 s) (src8 s - 4 + sh) r" and r: "4 \<le> r"
    and e: "e = src8 s - 4 + sh + r"
  shows "cmem (cp_incr_sh (8 * sh) (8 * (4 - sh)) s)
           = block_copy (dst8 s) (src8 s - 4 + sh) 4 (cmem s)"
    and "sh_inv sh e (cp_incr_sh (8 * sh) (8 * (4 - sh)) s)"
proof -
  define p where "p = src8 s - 4"
  have p: "src8 s = p + 4" using inv by (simp add: sh_inv_def p_def)
  let ?m = "cmem s" and ?d = "dst8 s" and ?w = "rd32 (cmem s) (p + 4)"
  let ?v = "drop_bit (8 * sh) (srcWord s) OR push_bit (8 * (4 - sh)) ?w"
  have eq: "cp_incr_sh (8 * sh) (8 * (4 - sh)) s
      = s\<lparr>srcWord := ?w, cmem := wr32 ?d ?v ?m, dst8 := ?d + 4, src8 := p + 8\<rparr>"
    by (simp add: cp_incr_sh_def cp_index_sh_def Let_def p)
  have byte: "byte ?v k = ?m (p + sh + k)" if k: "k < 4" for k
  proof (cases "k + sh < 4")
    case True
    with inv p e r k have "byte (srcWord s) (k + sh) = ?m (p + (k + sh))"
      by (simp add: sh_inv_def)
    with True sh k show ?thesis by (simp only: byte_shifted if_True) (simp add: ac_simps)
  next
    case False
    then have "byte ?w (k + sh - 4) = ?m (p + sh + k)"
      using sh k by (simp add: byte_rd32 ac_simps)
    with False sh k show ?thesis by (simp only: byte_shifted if_False)
  qed
  have mem: "wr32 ?d ?v ?m = block_copy ?d (p + sh) 4 ?m"
  proof
    fix b
    show "wr32 ?d ?v ?m b = block_copy ?d (p + sh) 4 ?m b"
      using byte [of "b - ?d"] by (cases "?d \<le> b \<and> b < ?d + 4") (auto simp: wr32_at block_copy_def)
  qed
  then show "cmem (cp_incr_sh (8 * sh) (8 * (4 - sh)) s)
      = block_copy ?d (src8 s - 4 + sh) 4 ?m"
    unfolding eq by (simp add: p)
  have al: "?d mod 4 = 0" "p mod 4 = 0" using inv p by (simp_all add: sh_inv_def)
  have p8: "(p + 8) mod 4 = 0" using al(2) by presburger
  have apart: "p + 4 + k < ?d \<or> ?d + 4 \<le> p + 4 + k" if "p + 4 + k < e" for k
  proof (cases "?d \<le> p + sh")
    case True
    obtain i j where "?d = 4 * i" and "p = 4 * j"
      using al by (auto simp: mod_eq_0_iff_dvd elim!: dvdE)
    with True sh have "?d \<le> p" by arith
    then show ?thesis by simp
  next
    case False
    with ok p e that show ?thesis by (auto simp: forward_ok_def)
  qed
  have "\<forall>k < 4. p + 4 + k < e \<longrightarrow> byte ?w k = block_copy ?d (p + sh) 4 ?m (p + 4 + k)"
  proof (intro allI impI)
    fix k :: nat assume "k < 4" and "p + 4 + k < e"
    moreover from this apart [of k] have "\<not> (?d \<le> p + 4 + k \<and> p + 4 + k < ?d + 4)" by auto
    ultimately show "byte ?w k = block_copy ?d (p + sh) 4 ?m (p + 4 + k)"
      by (simp only: byte_rd32 block_copy_def if_False)
  qed
  then show "sh_inv sh e (cp_incr_sh (8 * sh) (8 * (4 - sh)) s)"
    unfolding eq sh_inv_def using al mem p8 by (simp add: ac_simps)
qed

lemma cp_incr_sh_fields:
  "dst8 (cp_incr_sh a b s) = dst8 s + 4" "src8 (cp_incr_sh a b s) = src8 s + 4"
  by (simp_all add: cp_incr_sh_def Let_def)

lemma cp_incr_sh_funpow:
  assumes inv: "sh_inv sh (src8 s - 4 + sh + r) s" and sh: "0 < sh" "sh < 4"
    and ok: "forward_ok (dst8 s) (src8 s - 4 + sh) r" and n: "4 * n \<le> r"
  shows "let t = (cp_incr_sh (8 * sh) (8 * (4 - sh)) ^^ n) s
         in dst8 t = dst8 s + 4 * n \<and> src8 t = src8 s + 4 * n
          \<and> cmem t = block_copy (dst8 s) (src8 s - 4 + sh) (4 * n) (cmem s)
          \<and> sh_inv sh (src8 s - 4 + sh + r) t"
  using n
proof (induction n)
  case 0
  then show ?case using inv by simp
next
  case (Suc n)
  let ?q = "src8 s - 4 + sh"
  let ?t = "(cp_incr_sh (8 * sh) (8 * (4 - sh)) ^^ n) s"
  have t: "dst8 ?t = dst8 s + 4 * n" "src8 ?t = src8 s + 4 * n"
      "cmem ?t = block_copy (dst8 s) ?q (4 * n) (cmem s)" "sh_inv sh (?q + r) ?t"
    using Suc.IH Suc.prems by (simp_all add: Let_def)
  have s4: "4 \<le> src8 s" using inv by (simp add: sh_inv_def)
  then have q: "src8 ?t - 4 + sh = ?q + 4 * n" using t by simp
  have ok': "forward_ok (dst8 ?t) (src8 ?t - 4 + sh) (r - 4 * n)"
    using ok Suc.prems unfolding q t(1) by (auto simp: forward_ok_def)
  have e: "?q + r = src8 ?t - 4 + sh + (r - 4 * n)" unfolding q using Suc.prems by simp
  note step = cp_incr_sh_step [OF t(4) sh ok' _ e]
  have "block_copy (dst8 s + 4 * n) (?q + 4 * n) 4 (block_copy (dst8 s) ?q (4 * n) (cmem s))
      = block_copy (dst8 s) ?q (4 * n + 4) (cmem s)"
    by (rule block_copy_append) (rule forward_ok_mono [OF ok], use Suc.prems in simp)
  then show ?case
    using step Suc.prems t q by (simp add: Let_def cp_incr_sh_fields ac_simps)
qed

lemma copy_shift_advanced:
  assumes al: "dst8 s mod 4 = 0" and sh: "src8 s mod 4 = sh" "0 < sh"
    and ok: "forward_ok (dst8 s) (src8 s) count"
  shows "copy_shift sh count s = advanced count s"
proof -
  let ?l = "count div 4" and ?n = "4 * (src8 s div 4)"
  let ?f = "cp_incr_sh (8 * sh) (8 * (4 - sh))"
  let ?s0 = "\<lparr>dst8 = 4 * (dst8 s div 4), src8 = ?n + 4, cmem = cmem s, srcWord = rd32 (cmem s) ?n\<rparr>"
  have sh4: "sh < 4" using sh by auto
  have d: "4 * (dst8 s div 4) = dst8 s" using al by auto
  have n: "?n + sh = src8 s" unfolding sh(1) [symmetric] by (rule mult_div_mod_eq)
  have inv: "sh_inv sh (src8 ?s0 - 4 + sh + count) ?s0"
    by (simp add: sh_inv_def byte_rd32)
  have l: "4 * ?l \<le> count" by simp
  let ?t = "(?f ^^ ?l) ?s0"
  have t: "dst8 ?t = dst8 s + 4 * ?l" "src8 ?t = ?n + 4 + 4 * ?l"
      "cmem ?t = block_copy (dst8 s) (src8 s) (4 * ?l) (cmem s)"
    using cp_incr_sh_funpow [OF inv sh(2) sh4 _ l] ok by (simp_all add: Let_def d n)
  have st: "\<lparr>dst8 = dst8 ?t, src8 = src8 ?t + sh - 4, cmem = cmem ?t\<rparr> = advanced (4 * ?l) s"
    using t n sh4 by (simp add: advanced_def)
  have ok1: "forward_ok (dst8 s) (src8 s) (4 * ?l + count mod 4)" using ok by simp
  have "copy_shift sh count s = copy_remaining (count mod 4) (advanced (4 * ?l) s)"
    unfolding copy_shift_def Let_def head_loop_eq prod.case head_loop_div
    unfolding unrolled_shift_8 [unfolded Let_def] loops_funpow st ..
  also have "\<dots> = advanced (count mod 4) (advanced (4 * ?l) s)"
    by (rule copy_remaining_advanced) (simp, rule forward_ok_advanced [OF ok1])
  also have "\<dots> = advanced count s"
    using advanced_advanced [OF ok1] by simp
  finally show ?thesis .
qed

section \<open>\<^verbatim>\<open>memcpy\<close> and \<^verbatim>\<open>memmove\<close>\<close>

definition to_align :: "nat \<Rightarrow> nat" where
  "to_align d = (if d mod 4 = 0 then 0 else 4 - d mod 4)"

lemma to_align_props: "to_align d < 4" "(d + to_align d) mod 4 = 0"
proof -
  consider "d mod 4 = 0" | "d mod 4 = 1" | "d mod 4 = 2" | "d mod 4 = 3" by linarith
  then show "to_align d < 4" "(d + to_align d) mod 4 = 0"
    by (cases, auto simp: to_align_def mod_add_left_eq [of d, symmetric])+
qed

lemma to_align_Suc:
  assumes "d mod 4 \<noteq> 0"
  shows "to_align d = Suc (to_align (Suc d))"
proof -
  consider "d mod 4 = 1" | "d mod 4 = 2" | "d mod 4 = 3" using assms by linarith
  then show ?thesis by cases (auto simp: to_align_def mod_Suc)
qed

lemma align_loop_eq: "align_loop c s = (c - to_align (dst8 s), (cp_byte ^^ to_align (dst8 s)) s)"
proof (induction c s rule: align_loop.induct)
  case (1 c s)
  show ?case
  proof (cases "dst8 s mod 4 = 0")
    case True
    then show ?thesis by (subst align_loop.simps) (simp add: to_align_def)
  next
    case False
    have d: "dst8 (cp_byte s) = Suc (dst8 s)" by (simp add: cp_byte_def)
    have "align_loop c s = align_loop (c - 1) (cp_byte s)"
      using False by (subst align_loop.simps) simp
    also have "\<dots> = (c - 1 - to_align (Suc (dst8 s)), (cp_byte ^^ to_align (Suc (dst8 s))) (cp_byte s))"
      using 1 [OF False] d by simp
    finally show ?thesis
      unfolding to_align_Suc [OF False] by (simp add: funpow_swap1)
  qed
qed

lemma memcpy_block_copy:
  assumes ok: "forward_ok d s n"
  shows "memcpy d s n m = block_copy d s n m"
proof (cases "n < 8")
  case True
  then show ?thesis
    using ok copy_remaining_advanced [of n "\<lparr>dst8 = d, src8 = s, cmem = m\<rparr>"]
    by (simp add: memcpy_def advanced_def)
next
  case False
  let ?s = "\<lparr>dst8 = d, src8 = s, cmem = m\<rparr>"
  define k where "k = to_align d"
  have k: "k \<le> n" "(d + k) mod 4 = 0"
    using False to_align_props [of d] by (auto simp: k_def)
  have ok1: "forward_ok (dst8 ?s) (src8 ?s) (k + (n - k))" using ok k by simp
  have "(cp_byte ^^ k) ?s = advanced k ?s"
    unfolding cp_byte_advanced using funpow_advanced [of ?s 1 k] forward_ok_mono [OF ok1, of k]
    by simp
  then have al: "align_loop n ?s = (n - k, advanced k ?s)"
    by (simp add: align_loop_eq k_def)
  let ?t = "advanced k ?s"
  have ok2: "forward_ok (dst8 ?t) (src8 ?t) (n - k)" by (rule forward_ok_advanced [OF ok1])
  have dt: "dst8 ?t mod 4 = 0" using k by (simp add: advanced_def)
  have "memcpy d s n m = cmem (advanced (n - k) ?t)"
    using False al copy_no_shift_advanced [OF ok2] copy_shift_advanced [OF dt refl _ ok2]
    by (simp add: memcpy_def Let_def)
  also have "\<dots> = block_copy d s n m"
    using advanced_advanced [OF ok1] k by (simp add: advanced_def)
  finally show ?thesis .
qed

lemma backward_loop_block_copy:
  assumes "s < d"
  shows "backward_loop c (d + c) (s + c) m = block_copy d s c m"
  using assms
proof (induction c arbitrary: m)
  case (Suc c)
  have "backward_loop (Suc c) (d + Suc c) (s + Suc c) m = block_copy d s c (m(d + c := m (s + c)))"
    using Suc by simp
  also have "\<dots> = block_copy d s (Suc c) m"
    using Suc.prems by (auto simp: block_copy_def fun_eq_iff less_Suc_eq)
  finally show ?case .
qed simp

section \<open>Properties\<close>

text \<open>
  (C13) \<^verbatim>\<open>memcpy\<close> of \<^verbatim>\<open>kernel/memcpy.c\<close>, which aligns the destination, copies
  words in an eightfold unrolled loop and reassembles misaligned source words by shifting, has
  exactly the effect of copying the block byte by byte from the original contents, for disjoint
  blocks and for overlapping ones whose destination is not above the source.
\<close>

theorem memcpy_copies_block:
  assumes "forward_ok dest src count"
  shows "memcpy dest src count m = block_copy dest src count m"
  using assms by (rule memcpy_block_copy)

theorem memcpy_copies_block_witness:
  "forward_ok 1 7 21 \<and> memcpy 1 7 21 of_nat = block_copy 1 7 21 (of_nat :: mem)
     \<and> block_copy 1 7 21 of_nat 20 = (26 :: u8)"
  using memcpy_copies_block [of 1 7 21 of_nat] by (simp add: forward_ok_def block_copy_def)

text \<open>
  (C28) \<^verbatim>\<open>memmove\<close> of \<^verbatim>\<open>kernel/util.cpp\<close> copies the original contents of the source
  block to the destination block and leaves every other byte alone, for every two blocks,
  overlapping or not.
\<close>

theorem memmove_copies_block: "memmove v_dst v_src c m = block_copy v_dst v_src c m"
proof (cases "v_dst \<le> v_src")
  case True
  then have "forward_ok v_dst v_src c" by (simp add: forward_ok_def)
  with True show ?thesis by (simp add: memmove_def memcpy_block_copy)
next
  case False
  then show ?thesis using backward_loop_block_copy [of v_src v_dst c m] by (auto simp: memmove_def)
qed

end
