(* ===== verification/Cstring.thy ===== *)
theory Cstring
  imports Prelude "HOL-Library.Signed_Division"
begin

text \<open>
  The kernel's character handling: the routines on character arrays of
  \<^verbatim>\<open>kernel/util.cpp\<close>, the class \<^verbatim>\<open>string\<close> of \<^verbatim>\<open>kernel/string.cpp\<close>
  and the helpers of \<^verbatim>\<open>kernel/strutil.cpp\<close>. An array is the list of its bytes; a read
  or a write outside it is \<open>Inl OutOfBounds\<close>. A \<^verbatim>\<open>string\<close> object is the list of
  its characters without the terminating zero, which its buffer holds behind them.
\<close>

section \<open>Arrays of bytes (\<^verbatim>\<open>util.cpp\<close>)\<close>

definition rd8 :: "u8 list \<Rightarrow> nat \<Rightarrow> u8 kres" where
  "rd8 b i = (if i < length b then Inr (b ! i) else Inl OutOfBounds)"

definition wr8 :: "nat \<Rightarrow> u8 \<Rightarrow> u8 list \<Rightarrow> u8 list kres" where
  "wr8 i x b = (if i < length b then Inr (b[i := x]) else Inl OutOfBounds)"

text \<open>The macro \<^verbatim>\<open>swap(x,y)\<close>: three wrapping byte operations.\<close>

definition swap_cells :: "nat \<Rightarrow> nat \<Rightarrow> u8 list \<Rightarrow> u8 list" where
  "swap_cells i j b =
     (let b1 = b[i := b ! i + b ! j];
          b2 = b1[j := b1 ! i - b1 ! j]
      in b2[i := b2 ! i - b2 ! j])"

function reverse_loop :: "int \<Rightarrow> int \<Rightarrow> u8 list \<Rightarrow> u8 list" where
  "reverse_loop start end_ix b =
     (if start < end_ix
      then reverse_loop (start + 1) (end_ix - 1) (swap_cells (nat start) (nat end_ix) b)
      else b)"
  by pat_completeness auto
termination
  by (relation "measure (\<lambda>(s, e, b). nat (e - s))") auto

declare reverse_loop.simps [simp del]

definition reverse :: "u8 list \<Rightarrow> nat \<Rightarrow> u8 list" where
  "reverse str len = reverse_loop 0 (int len - 1) str"

text \<open>
  \<^verbatim>\<open>itoa\<close>. The number is a C \<^verbatim>\<open>int\<close>, so negating the least one is undefined;
  \<^verbatim>\<open>/\<close> and \<^verbatim>\<open>%\<close> truncate. The digit loop gets fuel; 33 is enough for any base
  from 2 up.
\<close>

definition digit_byte :: "int \<Rightarrow> u8" where
  "digit_byte rem = (if rem > 9 then word_of_int (rem - 10 + 97) else word_of_int (rem + 48))"

fun itoa_loop :: "nat \<Rightarrow> int \<Rightarrow> int \<Rightarrow> nat \<Rightarrow> u8 list \<Rightarrow> (nat \<times> u8 list) kres" where
  "itoa_loop 0 num base i str = Inl Diverges"
| "itoa_loop (Suc fuel) num base i str =
     (if num \<noteq> 0
      then kbind (wr8 i (digit_byte (num smod base)) str)
             (itoa_loop fuel (num sdiv base) base (Suc i))
      else Inr (i, str))"

definition itoa :: "int \<Rightarrow> u8 list \<Rightarrow> int \<Rightarrow> u8 list kres" where
  "itoa num str base =
     (if num = 0 then kbind (wr8 0 48 str) (wr8 1 0)
      else if base = 0 \<or> (num = - (2 ^ 31) \<and> base = 10) then Inl Undefined
      else
        let isNegative = (num < 0 \<and> base = 10);
            n = (if isNegative then - num else num)
        in kbind (itoa_loop 33 n base 0 str) (\<lambda>(i, b).
           kbind (if isNegative then kbind (wr8 i 45 b) (\<lambda>b'. Inr (Suc i, b')) else Inr (i, b))
             (\<lambda>(j, b'). kbind (wr8 j 0 b') (\<lambda>b''. Inr (reverse b'' j)))))"

text \<open>
  \<^verbatim>\<open>strcmp\<close>. The loop condition advances both pointers even when the characters
  compared differ; the result is taken at the place it stops or one before.
\<close>

function strcmp_loop :: "u8 list \<Rightarrow> u8 list \<Rightarrow> nat \<Rightarrow> nat kres" where
  "strcmp_loop s1 s2 i =
     (if i < length s1 \<and> i < length s2
      then (if s1 ! i \<noteq> 0 \<and> s2 ! i \<noteq> 0
            then (if s1 ! i = s2 ! i then strcmp_loop s1 s2 (Suc i) else Inr (Suc i))
            else Inr i)
      else Inl OutOfBounds)"
  by pat_completeness auto
termination
  by (relation "measure (\<lambda>(s1, s2, i). length s1 - i)") auto

declare strcmp_loop.simps [simp del]

definition strcmp :: "u8 list \<Rightarrow> u8 list \<Rightarrow> int kres" where
  "strcmp s1 s2 =
     kbind (rd8 s1 0) (\<lambda>a. kbind (rd8 s2 0) (\<lambda>b.
       if a = 0 \<and> b = 0 then Inr 0
       else kbind (strcmp_loop s1 s2 0) (\<lambda>i.
         kbind (rd8 s1 i) (\<lambda>x. kbind (rd8 s2 i) (\<lambda>y.
           if (x = 0) \<noteq> (y = 0) then Inr (sint x - sint y)
           else if i = 0 then Inl OutOfBounds
           else Inr (sint (s1 ! (i - 1)) - sint (s2 ! (i - 1))))))))"

text \<open>
  \<^verbatim>\<open>strncpy\<close> with the kernel's own contract: it always terminates the copy and does
  not pad. The size is a \<^verbatim>\<open>size_t\<close> that is decremented before it is tested.
\<close>

function strncpy_loop :: "u8 list \<Rightarrow> nat \<Rightarrow> u32 \<Rightarrow> u8 list \<Rightarrow> u8 list kres" where
  "strncpy_loop src i n dest =
     (let n' = n - 1
      in if n' = 0 then wr8 i 0 dest
         else if length src \<le> i then Inl OutOfBounds
         else if src ! i = 0 then wr8 i 0 dest
         else if length dest \<le> i then Inl OutOfBounds
         else strncpy_loop src (Suc i) n' (dest[i := src ! i]))"
  by pat_completeness auto
termination
  by (relation "measure (\<lambda>(src, i, n, dest). length src - i)") auto

declare strncpy_loop.simps [simp del]

definition strncpy :: "u8 list \<Rightarrow> u8 list \<Rightarrow> u32 \<Rightarrow> u8 list kres" where
  "strncpy dest src n = strncpy_loop src 0 n dest"

section \<open>The string class (\<^verbatim>\<open>string.cpp\<close>)\<close>

text \<open>
  The buffer behind a string object: its characters and the terminator. A block read from it
  must lie inside.
\<close>

definition str_buf :: "string \<Rightarrow> string" where
  "str_buf s = s @ [CHR 0x00]"

definition c_chars :: "string \<Rightarrow> string" where
  "c_chars b = takeWhile (\<lambda>c. c \<noteq> CHR 0x00) b"

definition read_block :: "string \<Rightarrow> nat \<Rightarrow> nat \<Rightarrow> string kres" where
  "read_block b start n = (if start + n \<le> length b then Inr (take n (drop start b)) else Inl OutOfBounds)"

definition str_append :: "string \<Rightarrow> string \<Rightarrow> string" where
  "str_append p s = c_chars (take (length p) (str_buf p) @ str_buf s)"

definition str_substr :: "string \<Rightarrow> nat \<Rightarrow> nat \<Rightarrow> string kres" where
  "str_substr p start len_orig =
     (let len = length p
      in if start > len then Inl (Panic ''STRING: Out of range (substr).'')
         else
           let len' = (if len > len_orig then len_orig else len)
           in kbind (read_block (str_buf p) start len') (\<lambda>b. Inr (c_chars (b @ [CHR 0x00]))))"

definition str_at :: "string \<Rightarrow> nat \<Rightarrow> char kres" where
  "str_at p n =
     (if n > length p then Inl (Panic ''STRING: Out of range (at).'') else Inr (str_buf p ! n))"

text \<open>
  \<^verbatim>\<open>erase\<close> moves \<^verbatim>\<open>size() - pos + 1\<close> characters down by \<open>len\<close>, as many as
  lie behind \<open>pos\<close> rather than behind \<^verbatim>\<open>pos + len\<close>.
\<close>

definition str_erase :: "string \<Rightarrow> nat \<Rightarrow> nat \<Rightarrow> string kres" where
  "str_erase p pos len =
     (let s = length p
      in if pos > s then Inl (Panic ''STRING: Out of range (erase).'')
         else
           let s1 = s - pos;
               len' = (if len > s1 then s1 else len)
           in kbind (read_block (str_buf p) (pos + len') (Suc s1))
                (\<lambda>b. Inr (c_chars (take pos (str_buf p) @ b))))"

section \<open>Helpers (\<^verbatim>\<open>strutil.cpp\<close>)\<close>

definition upper_char :: "char \<Rightarrow> char" where
  "upper_char c =
     (if 97 \<le> (of_char c :: nat) \<and> (of_char c :: nat) \<le> 122
      then char_of ((of_char c :: nat) - 97 + 65) else c)"

definition to_upper :: "string \<Rightarrow> string" where
  "to_upper str = c_chars (map upper_char (str_buf str))"

function starts_with_loop :: "string \<Rightarrow> string \<Rightarrow> nat \<Rightarrow> nat \<Rightarrow> bool" where
  "starts_with_loop str cmp i n =
     (if i < n then (if str ! i \<noteq> cmp ! i then False else starts_with_loop str cmp (Suc i) n)
      else True)"
  by pat_completeness auto
termination
  by (relation "measure (\<lambda>(str, cmp, i, n). n - i)") auto

declare starts_with_loop.simps [simp del]

definition starts_with :: "string \<Rightarrow> string \<Rightarrow> bool" where
  "starts_with str cmp =
     (if length cmp > length str then False else starts_with_loop str cmp 0 (length cmp))"

text \<open>
  \<^verbatim>\<open>split_string\<close> appends the separator, not the character it looks at, to the piece
  it collects.
\<close>

fun split_loop :: "string \<Rightarrow> char \<Rightarrow> string \<Rightarrow> string list \<Rightarrow> string list \<times> string" where
  "split_loop [] c current ret = (ret, current)"
| "split_loop (x # xs) c current ret =
     (if x = c \<and> current \<noteq> [] then split_loop xs c [] (ret @ [current])
      else split_loop xs c (current @ [c]) ret)"

definition split_string :: "string \<Rightarrow> char \<Rightarrow> string list" where
  "split_string str c =
     (case split_loop str c [] [] of (ret, current) \<Rightarrow> if current \<noteq> [] then ret @ [current] else ret)"


section \<open>Array routines\<close>

lemma swap_cells_nth:
  assumes "i < length b" and "j < length b" and "i \<noteq> j"
  shows "swap_cells i j b = b[i := b ! j, j := b ! i]"
  using assms by (intro nth_equalityI) (auto simp: swap_cells_def Let_def nth_list_update)

lemma reverse_loop_app:
  "reverse_loop (int (length xs)) (int (length xs + length ys) - 1) (xs @ ys @ zs) = xs @ rev ys @ zs"
proof (induction "length ys" arbitrary: xs ys zs rule: less_induct)
  case less
  show ?case
  proof (cases "length ys < 2")
    case True
    then have "rev ys = ys" by (cases ys) auto
    moreover have "\<not> int (length xs) < int (length xs + length ys) - 1" using True by simp
    ultimately show ?thesis by (subst reverse_loop.simps) simp
  next
    case False
    then obtain y r where yr: "ys = y # r" "r \<noteq> []" by (cases ys) auto
    then obtain m w where ys: "ys = y # m @ [w]" by (metis append_butlast_last_id)
    let ?i = "length xs" and ?j = "Suc (length xs + length m)"
    let ?b = "xs @ ys @ zs"
    have len: "length ys = length m + 2" by (simp add: ys)
    have j: "nat (int (?i + length ys) - 1) = ?j" unfolding len by simp
    have nth: "?b ! ?i = y" "?b ! ?j = w" by (simp_all add: ys nth_append)
    have "swap_cells ?i ?j ?b = ?b[?i := w, ?j := y]"
      using swap_cells_nth [of ?i ?b ?j] nth len by simp
    also have "\<dots> = (xs @ [w]) @ m @ (y # zs)"
      by (simp add: ys list_update_append)
    finally have sw: "swap_cells ?i ?j ?b = (xs @ [w]) @ m @ (y # zs)" .
    have "reverse_loop (int ?i) (int (?i + length ys) - 1) ?b
        = reverse_loop (int ?i + 1) (int (?i + length ys) - 1 - 1) (swap_cells ?i ?j ?b)"
      using len j by (subst reverse_loop.simps) simp
    also have "int (?i + length ys) - 1 - 1 = int (length (xs @ [w]) + length m) - 1"
      unfolding len by simp
    also have "int ?i + 1 = int (length (xs @ [w]))" by simp
    also have "reverse_loop (int (length (xs @ [w]))) (int (length (xs @ [w]) + length m) - 1)
        (swap_cells ?i ?j ?b) = (xs @ [w]) @ rev m @ (y # zs)"
      unfolding sw by (rule less.hyps) (simp add: len)
    finally show ?thesis by (simp add: ys)
  qed
qed

lemma reverse_eq:
  assumes "n \<le> length b"
  shows "reverse b n = rev (take n b) @ drop n b"
  using reverse_loop_app [of "[]" "take n b" "drop n b"] assms
  by (simp add: reverse_def)

function digits_le :: "nat \<Rightarrow> nat \<Rightarrow> nat list" where
  "digits_le base n = (if n = 0 \<or> base < 2 then [] else n mod base # digits_le base (n div base))"
  by pat_completeness auto
termination
  by (relation "measure snd") auto

declare digits_le.simps [simp del]

lemma digits_le_length: "2 \<le> base \<Longrightarrow> n < 2 ^ k \<Longrightarrow> length (digits_le base n) \<le> k"
proof (induction k arbitrary: n)
  case 0
  then show ?case by (simp add: digits_le.simps)
next
  case (Suc k)
  have "n div base \<le> n div 2" using Suc.prems(1) by (simp add: div_le_mono2)
  then have "n div base < 2 ^ k" using Suc.prems(2) by simp
  with Suc show ?case by (subst digits_le.simps) simp
qed

lemma digits_le_value: "2 \<le> base \<Longrightarrow> foldr (\<lambda>d v. d + base * v) (digits_le base n) 0 = n"
proof (induction base n rule: digits_le.induct)
  case (1 base n)
  then show ?case by (subst digits_le.simps) (auto simp: mult.commute)
qed

lemma digits_le_less: "2 \<le> base \<Longrightarrow> d \<in> set (digits_le base n) \<Longrightarrow> d < base"
proof (induction base n rule: digits_le.induct)
  case (1 base n)
  then show ?case by (subst (asm) (2) digits_le.simps) (auto split: if_splits)
qed

lemma itoa_loop_digits:
  assumes "2 \<le> base" and "length (digits_le base n) < fuel"
    and "i + length (digits_le base n) \<le> length str"
  shows "itoa_loop fuel (int n) (int base) i str
    = Inr (i + length (digits_le base n),
           take i str @ map (\<lambda>d. digit_byte (int d)) (digits_le base n)
             @ drop (i + length (digits_le base n)) str)"
  using assms
proof (induction fuel arbitrary: n i str)
  case 0
  then show ?case by simp
next
  case (Suc fuel)
  show ?case
  proof (cases "n = 0")
    case True
    then show ?thesis by (simp add: digits_le.simps)
  next
    case False
    let ?q = "n div base" and ?x = "digit_byte (int (n mod base))"
    have d: "digits_le base n = n mod base # digits_le base ?q"
      using False Suc.prems(1) by (subst digits_le.simps) simp
    have sd: "int n sdiv int base = int ?q" "int n smod int base = int (n mod base)"
      using Suc.prems(1)
      by (simp_all add: signed_divide_int_def signed_modulo_int_def sgn_if zdiv_int zmod_int
          minus_div_mult_eq_mod [symmetric])
    have i: "i < length str" using Suc.prems(3) d by simp
    have "itoa_loop (Suc fuel) (int n) (int base) i str
        = itoa_loop fuel (int ?q) (int base) (Suc i) (str[i := ?x])"
      using False i sd by (simp add: wr8_def)
    also have "\<dots> = Inr (Suc i + length (digits_le base ?q),
           take (Suc i) (str[i := ?x]) @ map (\<lambda>d. digit_byte (int d)) (digits_le base ?q)
             @ drop (Suc i + length (digits_le base ?q)) (str[i := ?x]))"
      by (rule Suc.IH) (use Suc.prems d in auto)
    finally show ?thesis
      using d i by (simp add: take_Suc_update)
  qed
qed

definition digit_val :: "u8 \<Rightarrow> nat" where
  "digit_val c = (if 97 \<le> unat c then unat c - 87 else unat c - 48)"

definition cstr :: "u8 list \<Rightarrow> u8 list" where
  "cstr b = takeWhile (\<lambda>c. c \<noteq> 0) b"

definition parse_num :: "nat \<Rightarrow> u8 list \<Rightarrow> int" where
  "parse_num base s =
     (if s \<noteq> [] \<and> hd s = 45 then - int (foldl (\<lambda>v c. v * base + digit_val c) 0 (tl s))
      else int (foldl (\<lambda>v c. v * base + digit_val c) 0 s))"

lemma digit_byte_props:
  assumes "d < 36"
  shows "digit_val (digit_byte (int d)) = d" and "digit_byte (int d) \<noteq> 0"
    and "digit_byte (int d) \<noteq> 45"
proof -
  have u: "unat (digit_byte (int d)) = (if d > 9 then d + 87 else d + 48)"
  proof -
    have "digit_byte (int d) = word_of_nat (if d > 9 then d + 87 else d + 48)"
      by (simp add: digit_byte_def)
    then show ?thesis using assms by (simp add: unat_of_nat)
  qed
  then show "digit_val (digit_byte (int d)) = d" by (auto simp: digit_val_def)
  show "digit_byte (int d) \<noteq> 0" "digit_byte (int d) \<noteq> 45" using u assms by (auto split: if_splits)
qed

lemma cstr_append: "0 \<notin> set s \<Longrightarrow> cstr (s @ 0 # r) = s"
  by (auto simp: cstr_def takeWhile_append)

lemma parse_digits:
  assumes "2 \<le> base" and "base \<le> 36"
  shows "foldl (\<lambda>v c. v * base + digit_val c) 0 (rev (map (\<lambda>d. digit_byte (int d)) (digits_le base n))) = n"
proof -
  have "\<forall>d \<in> set (digits_le base n). digit_val (digit_byte (int d)) = d"
    using assms by (auto dest!: digits_le_less intro!: digit_byte_props)
  then have "foldr (\<lambda>d v. v * base + digit_val (digit_byte (int d))) (digits_le base n) 0
      = foldr (\<lambda>d v. d + base * v) (digits_le base n) 0"
    by (intro foldr_cong) (auto simp: mult.commute)
  then show ?thesis
    by (simp add: foldl_conv_foldr foldr_map comp_def digits_le_value [OF assms(1)])
qed

lemma itoa_core:
  assumes b: "2 \<le> base" "base \<le> 36" and n: "0 < n" "n < 2 ^ 31" and len: "33 \<le> length str"
  defines "ds \<equiv> map (\<lambda>d. digit_byte (int d)) (digits_le base n)"
  shows "itoa_loop 33 (int n) (int base) 0 str = Inr (length ds, ds @ drop (length ds) str)"
    and "length ds \<le> 31" and "0 \<notin> set ds" and "45 \<notin> set ds"
proof -
  have l: "length (digits_le base n) \<le> 31" by (rule digits_le_length) (use b n in auto)
  then show "length ds \<le> 31" by (simp add: ds_def)
  show "itoa_loop 33 (int n) (int base) 0 str = Inr (length ds, ds @ drop (length ds) str)"
    using itoa_loop_digits [of base n 33 0 str] l len b by (simp add: ds_def)
  have "\<And>d. d \<in> set (digits_le base n) \<Longrightarrow> d < 36"
    using digits_le_less [OF b(1)] b(2) by (meson less_le_trans)
  then have "c \<noteq> 0 \<and> c \<noteq> 45" if "c \<in> set ds" for c
    using that digit_byte_props(2,3) unfolding ds_def set_map by (elim imageE) simp
  then show "0 \<notin> set ds" "45 \<notin> set ds" by blast+
qed

lemma itoa_positive:
  assumes b: "2 \<le> base" "base \<le> 36" and n: "0 < n" "n < 2 ^ 31" and len: "33 \<le> length str"
  shows "\<exists>out. itoa (int n) str (int base) = Inr out \<and> parse_num base (cstr out) = int n"
proof -
  define ds where "ds = map (\<lambda>d. digit_byte (int d)) (digits_le base n)"
  note c = itoa_core [OF b n len, folded ds_def]
  let ?out = "rev ds @ 0 # drop (Suc (length ds)) str"
  have "wr8 (length ds) 0 (ds @ drop (length ds) str) = Inr (ds @ 0 # drop (Suc (length ds)) str)"
    using c(2) len by (simp add: wr8_def list_update_append Cons_nth_drop_Suc [symmetric])
  then have "itoa (int n) str (int base) = Inr ?out"
    using n b c(1) by (simp add: itoa_def reverse_eq)
  moreover have "cstr ?out = rev ds" using c(3) by (intro cstr_append) simp
  moreover have "parse_num base (rev ds) = int n"
  proof -
    have "\<not> (rev ds \<noteq> [] \<and> hd (rev ds) = 45)" using c(4) by (metis hd_in_set set_rev)
    then show ?thesis
      using parse_digits [OF b, of n, folded ds_def] unfolding parse_num_def by (simp only: if_False)
  qed
  ultimately show ?thesis by auto
qed

lemma itoa_negative:
  assumes n: "0 < n" "n < 2 ^ 31" and len: "33 \<le> length str"
  shows "\<exists>out. itoa (- int n) str 10 = Inr out \<and> parse_num 10 (cstr out) = - int n"
proof -
  define ds where "ds = map (\<lambda>d. digit_byte (int d)) (digits_le 10 n)"
  note c = itoa_core [OF _ _ n len, of 10, folded ds_def, simplified]
  let ?out = "45 # rev ds @ 0 # drop (Suc (Suc (length ds))) str"
  have w1: "wr8 (length ds) 45 (ds @ drop (length ds) str) = Inr (ds @ 45 # drop (Suc (length ds)) str)"
    using c(2) len by (simp add: wr8_def list_update_append Cons_nth_drop_Suc [symmetric])
  have w2: "wr8 (Suc (length ds)) 0 (ds @ 45 # drop (Suc (length ds)) str)
      = Inr (ds @ 45 # 0 # drop (Suc (Suc (length ds))) str)"
    using c(2) len by (simp add: wr8_def list_update_append Cons_nth_drop_Suc [symmetric])
  have "itoa (- int n) str 10 = Inr ?out"
    using n c(1) w1 w2 by (simp add: itoa_def reverse_eq)
  moreover have "cstr ?out = 45 # rev ds"
    using cstr_append [of "45 # rev ds"] c(3) by simp
  moreover have "parse_num 10 (45 # rev ds) = - int n"
    using parse_digits [of 10 n] by (simp add: parse_num_def ds_def)
  ultimately show ?thesis by auto
qed

text \<open>Comparison.\<close>

lemma strcmp_loop_result:
  assumes "0 \<notin> set s" and "0 \<notin> set t" and "i \<le> length s" and "i \<le> length t"
    and "take i s = take i t"
  shows "\<exists>j. strcmp_loop (s @ [0]) (t @ [0]) i = Inr j \<and> j \<le> length s \<and> j \<le> length t
    \<and> ((take j s = take j t \<and> (j = length s \<or> j = length t))
        \<or> (0 < j \<and> s ! (j - 1) \<noteq> t ! (j - 1)))"
  using assms(3-5)
proof (induction "length s - i" arbitrary: i)
  case 0
  then have "i = length s" by simp
  with 0 show ?case
    by (intro exI [of _ i]) (subst strcmp_loop.simps, auto simp: nth_append)
next
  case (Suc n)
  then have i: "i < length s" by simp
  show ?case
  proof (cases "i = length t")
    case True
    with Suc.prems i assms(1) show ?thesis
      by (intro exI [of _ i]) (subst strcmp_loop.simps, auto simp: nth_append)
  next
    case False
    with Suc.prems have it: "i < length t" by simp
    have nz: "s ! i \<noteq> 0" "t ! i \<noteq> 0" using assms i it by (auto dest: nth_mem)
    show ?thesis
    proof (cases "s ! i = t ! i")
      case True
      have "take (Suc i) s = take (Suc i) t"
        using True Suc.prems i it by (simp add: take_Suc_conv_app_nth)
      with Suc.hyps(1) [of "Suc i"] Suc.hyps(2) i it
      have "\<exists>j. strcmp_loop (s @ [0]) (t @ [0]) (Suc i) = Inr j \<and> j \<le> length s \<and> j \<le> length t
        \<and> ((take j s = take j t \<and> (j = length s \<or> j = length t))
            \<or> (0 < j \<and> s ! (j - 1) \<noteq> t ! (j - 1)))" by auto
      moreover have "strcmp_loop (s @ [0]) (t @ [0]) i = strcmp_loop (s @ [0]) (t @ [0]) (Suc i)"
        using i it nz True by (subst strcmp_loop.simps) (simp add: nth_append)
      ultimately show ?thesis by simp
    next
      case False
      have "strcmp_loop (s @ [0]) (t @ [0]) i = Inr (Suc i)"
        using i it nz False by (subst strcmp_loop.simps) (simp add: nth_append)
      with i it False show ?thesis by auto
    qed
  qed
qed

lemma strcmp_zero_iff:
  assumes s: "0 \<notin> set s" and t: "0 \<notin> set t"
  shows "\<exists>r. strcmp (s @ [0]) (t @ [0]) = Inr r \<and> (r = 0 \<longleftrightarrow> s = t)"
proof (cases "s = [] \<and> t = []")
  case True
  then show ?thesis by (simp add: strcmp_def rd8_def)
next
  case False
  obtain j where j: "strcmp_loop (s @ [0]) (t @ [0]) 0 = Inr j" "j \<le> length s" "j \<le> length t"
    and end': "(take j s = take j t \<and> (j = length s \<or> j = length t))
        \<or> (0 < j \<and> s ! (j - 1) \<noteq> t ! (j - 1))"
    using strcmp_loop_result [OF s t, of 0] by auto
  define x y where "x = (s @ [0]) ! j" and "y = (t @ [0]) ! j"
  have first: "\<not> ((s @ [0]) ! 0 = 0 \<and> (t @ [0]) ! 0 = 0)"
    using False s t by (cases s; cases t) auto
  have eq: "strcmp (s @ [0]) (t @ [0]) = (if (x = 0) \<noteq> (y = 0) then Inr (sint x - sint y)
      else if j = 0 then Inl OutOfBounds
      else Inr (sint ((s @ [0]) ! (j - 1)) - sint ((t @ [0]) ! (j - 1))))"
    using first j by (simp add: strcmp_def rd8_def x_def y_def)
  have zx: "x = 0 \<longleftrightarrow> j = length s" and zy: "y = 0 \<longleftrightarrow> j = length t"
    using j(2,3) s t by (auto simp: x_def y_def nth_append in_set_conv_nth)
  show ?thesis
  proof (cases "(x = 0) = (y = 0)")
    case False
    then have "sint x \<noteq> sint y" by (metis signed_word_eqI)
    moreover have "s \<noteq> t" using False by (auto simp: x_def y_def)
    moreover have "strcmp (s @ [0]) (t @ [0]) = Inr (sint x - sint y)"
      unfolding eq using False by (simp only: if_True simp_thms)
    ultimately show ?thesis by simp
  next
    case True
    have "j \<noteq> 0"
    proof
      assume "j = 0"
      with end' have "j = length s \<or> j = length t" by blast
      with True zx zy have "j = length s" "j = length t" by blast+
      with \<open>j = 0\<close> False show False by simp
    qed
    moreover from this j have "j - 1 < length s" "j - 1 < length t" by linarith+
    then have "(s @ [0]) ! (j - 1) = s ! (j - 1)" "(t @ [0]) ! (j - 1) = t ! (j - 1)"
      by (simp_all add: nth_append)
    ultimately have r: "strcmp (s @ [0]) (t @ [0]) = Inr (sint (s ! (j - 1)) - sint (t ! (j - 1)))"
      unfolding eq using True by (simp only: if_False simp_thms)
    show ?thesis
    proof (cases "s ! (j - 1) = t ! (j - 1)")
      case True
      with end' have tk: "take j s = take j t" and "j = length s \<or> j = length t" by blast+
      then have "j = length s" "j = length t" using \<open>(x = 0) = (y = 0)\<close> zx zy by blast+
      with tk have "s = t" by simp
      with r show ?thesis by simp
    next
      case False
      then have "sint (s ! (j - 1)) \<noteq> sint (t ! (j - 1))" by (metis signed_word_eqI)
      moreover have "s \<noteq> t" using False by blast
      ultimately show ?thesis using r by simp
    qed
  qed
qed


section \<open>Bounded copy and the string helpers\<close>

lemma strncpy_loop_eq:
  assumes "0 \<notin> set s" and "k = min (unat n - 1) (length s - i)" and "i \<le> length s"
    and "0 < n" and "i + k < length dest"
  shows "strncpy_loop (s @ 0 # r) i n dest
     = Inr (take i dest @ take k (drop i s) @ 0 # drop (Suc (i + k)) dest)"
  using assms(2-5)
proof (induction k arbitrary: i n dest)
  case 0
  have w: "wr8 i 0 dest = Inr (take i dest @ 0 # drop (Suc i) dest)"
    using 0 by (simp add: wr8_def upd_conv_take_nth_drop)
  show ?case
  proof (cases "n - 1 = 0")
    case True
    then show ?thesis using w by (subst strncpy_loop.simps) (simp add: Let_def)
  next
    case False
    then have "unat (n - 1) \<noteq> 0" by (metis unat_eq_0)
    then have "unat n - 1 \<noteq> 0" using 0 by (simp add: unat_minus_one word_gt_0)
    then have "i = length s" using 0 by (simp add: min_def split: if_splits)
    then show ?thesis using w False by (subst strncpy_loop.simps) (simp add: Let_def)
  qed
next
  case (Suc k)
  then have i: "i < length s" and n: "Suc 0 < unat n" by (auto simp: min_def split: if_splits)
  have u: "unat (n - 1) = unat n - 1"
    using Suc.prems by (simp add: unat_minus_one word_gt_0)
  have nz: "n - 1 \<noteq> 0" using u n by (metis unat_0 zero_less_diff less_irrefl One_nat_def)
  have sz: "s ! i \<noteq> 0" using assms(1) i by (metis nth_mem)
  have "strncpy_loop (s @ 0 # r) i n dest = strncpy_loop (s @ 0 # r) (Suc i) (n - 1) (dest[i := s ! i])"
    using nz sz i Suc.prems by (subst strncpy_loop.simps) (simp add: Let_def nth_append)
  also have "\<dots> = Inr (take (Suc i) (dest[i := s ! i]) @ take k (drop (Suc i) s)
      @ 0 # drop (Suc (Suc i + k)) (dest[i := s ! i]))"
    by (rule Suc.IH) (use Suc.prems i u nz in \<open>auto simp: word_gt_0 min_def split: if_splits\<close>)
  also have "take (Suc i) (dest[i := s ! i]) = take i dest @ [s ! i]"
    using Suc.prems by (simp add: take_Suc_conv_app_nth)
  finally show ?case using i by (simp add: Cons_nth_drop_Suc [symmetric])
qed

lemma starts_with_loop_eq:
  "n \<le> length s \<Longrightarrow> n \<le> length c \<Longrightarrow> i \<le> n \<Longrightarrow>
   starts_with_loop s c i n \<longleftrightarrow> (\<forall>j. i \<le> j \<and> j < n \<longrightarrow> s ! j = c ! j)"
proof (induction s c i n rule: starts_with_loop.induct)
  case (1 str cmp i n)
  show ?case
  proof (cases "i < n")
    case True
    then have "(\<forall>j. i \<le> j \<and> j < n \<longrightarrow> str ! j = cmp ! j) \<longleftrightarrow>
        str ! i = cmp ! i \<and> (\<forall>j. Suc i \<le> j \<and> j < n \<longrightarrow> str ! j = cmp ! j)"
      by (metis Suc_leD Suc_leI le_neq_implies_less order_refl)
    with 1 True show ?thesis by (subst starts_with_loop.simps) auto
  next
    case False
    then show ?thesis by (subst starts_with_loop.simps) auto
  qed
qed

lemma starts_with_prefix: "starts_with str cmp \<longleftrightarrow> take (length cmp) str = cmp"
proof (cases "length cmp \<le> length str")
  case True
  then have "take (length cmp) str = cmp \<longleftrightarrow> (\<forall>j < length cmp. str ! j = cmp ! j)"
    by (simp add: list_eq_iff_nth_eq)
  with True show ?thesis using starts_with_loop_eq [of "length cmp" str cmp 0] by (simp add: starts_with_def)
next
  case False
  have "take (length cmp) str \<noteq> cmp"
  proof
    assume "take (length cmp) str = cmp"
    then have "length (take (length cmp) str) = length cmp" by (rule arg_cong)
    with False show False by simp
  qed
  with False show ?thesis by (simp add: starts_with_def)
qed

lemma split_loop_pieces:
  "list_all (\<lambda>x. x = c) current \<Longrightarrow> list_all (list_all (\<lambda>x. x = c)) ret \<Longrightarrow>
   split_loop xs c current ret = (ret', current') \<Longrightarrow>
   list_all (\<lambda>x. x = c) current' \<and> list_all (list_all (\<lambda>x. x = c)) ret'"
proof (induction xs arbitrary: current ret)
  case (Cons x xs)
  show ?case
  proof (cases "x = c \<and> current \<noteq> []")
    case True
    show ?thesis by (rule Cons.IH [of "[]" "ret @ [current]"]) (use Cons.prems True in simp_all)
  next
    case False
    show ?thesis by (rule Cons.IH [of "current @ [c]" ret]) (use Cons.prems False in simp_all)
  qed
qed simp

lemma split_string_only_separators:
  assumes "p \<in> set (split_string str c)"
  shows "set p \<subseteq> {c}"
proof (cases "split_loop str c [] []")
  case (Pair ret current)
  have "p \<in> set ret \<or> p = current"
    using assms Pair by (simp add: split_string_def split: if_splits) blast
  then have "list_all (\<lambda>x. x = c) p"
    using split_loop_pieces [OF _ _ Pair] by (auto simp: list.pred_set)
  then show ?thesis by (auto simp: list.pred_set)
qed

lemma c_chars_id: "CHR 0x00 \<notin> set s \<Longrightarrow> c_chars (s @ CHR 0x00 # r) = s"
  by (auto simp: c_chars_def takeWhile_append)

lemma str_append_eq:
  assumes "CHR 0x00 \<notin> set p" and "CHR 0x00 \<notin> set s"
  shows "str_append p s = p @ s"
  using assms c_chars_id [of "p @ s"] by (simp add: str_append_def str_buf_def)

lemma str_substr_eq:
  assumes "CHR 0x00 \<notin> set p"
  shows "str_substr p start n =
    (if start > length p then Inl (Panic ''STRING: Out of range (substr).'')
     else if start + min n (length p) \<le> Suc (length p) then Inr (take (min n (length p)) (drop start p))
     else Inl OutOfBounds)"
proof (cases "start \<le> length p \<and> start + min n (length p) \<le> Suc (length p)")
  case True
  let ?m = "min n (length p)"
  have "c_chars (take ?m (drop start (p @ [CHR 0x00])) @ [CHR 0x00]) = take ?m (drop start p)"
  proof (cases "?m \<le> length p - start")
    case m: True
    have "CHR 0x00 \<notin> set (take ?m (drop start p))" using assms by (meson in_set_dropD in_set_takeD)
    from c_chars_id [OF this, of "[]"] show ?thesis using m True by simp
  next
    case False
    have "CHR 0x00 \<notin> set (drop start p)" using assms by (meson in_set_dropD)
    from c_chars_id [OF this] show ?thesis using False True by simp
  qed
  moreover have "(if length p > n then n else length p) = ?m" by simp
  ultimately show ?thesis
    using True by (simp add: str_substr_def read_block_def str_buf_def Let_def del: take_append drop_append)
next
  case False
  then show ?thesis
    by (auto simp: str_substr_def read_block_def str_buf_def Let_def min_def split: if_splits)
qed

lemma str_erase_eq:
  assumes "CHR 0x00 \<notin> set p" and "pos \<le> length p"
  shows "str_erase p pos n = (if n = 0 \<or> pos = length p then Inr p else Inl OutOfBounds)"
proof -
  have "c_chars (take pos p @ drop pos p @ [CHR 0x00]) = p"
    using c_chars_id [OF assms(1), of "[]"] by (simp flip: append_assoc)
  then show ?thesis
    using assms(2) by (auto simp: str_erase_def read_block_def str_buf_def Let_def split: if_splits)
qed

section \<open>Properties\<close>



text \<open>
  String comparison decides equality: on two terminated strings \<^verbatim>\<open>strcmp\<close> reads
  inside both buffers, returns, and returns zero exactly when the strings are equal.
\<close>

theorem strcmp_decides_equality:
  assumes "0 \<notin> set s" and "0 \<notin> set t"
  shows "\<exists>r. strcmp (s @ [0]) (t @ [0]) = Inr r \<and> (r = 0 \<longleftrightarrow> s = t)"
  using assms by (rule strcmp_zero_iff)

theorem strcmp_decides_equality_witness:
  "\<exists>r. strcmp ([97, 98] @ [0]) ([97, 99] @ [0]) = Inr r \<and> (r = 0 \<longleftrightarrow> [97, 98] = [97, 99 :: u8])"
  by (rule strcmp_decides_equality) simp_all

text \<open>
  Bounded copy: with a non-zero size, \<^verbatim>\<open>strncpy\<close> stores the first
  \<^verbatim>\<open>size - 1\<close> characters of the source (all of them when it is shorter), the terminator
  behind them, and leaves every other byte of the destination as it was.
\<close>

theorem strncpy_truncates:
  assumes "0 \<notin> set s" and "0 < n" and "k = min (unat n - 1) (length s)" and "k < length dest"
  shows "strncpy dest (s @ 0 # r) n = Inr (take k s @ 0 # drop (Suc k) dest)"
  using strncpy_loop_eq [of s k n 0 dest r] assms by (simp add: strncpy_def)

theorem strncpy_truncates_witness:
  "strncpy [1, 2, 3, 4, 5] ([97, 98, 99] @ 0 # []) 3 = Inr ([97, 98] @ 0 # [4, 5])"
proof -
  have "strncpy [1, 2, 3, 4, 5] ([97, 98, 99] @ 0 # []) 3
      = Inr (take 2 [97, 98, 99] @ 0 # drop (Suc 2) [1, 2, 3, 4, 5])"
    by (rule strncpy_truncates) simp_all
  then show ?thesis by (simp only: take_Cons_numeral drop_Suc_Cons drop_Cons_numeral) simp
qed

end
