(* ===== verification/Circular_Buffer.thy ===== *)
theory Circular_Buffer
  imports Prelude
begin

text \<open>
  The fixed-size ring buffer of \<^verbatim>\<open>include/util/circular_buffer.hpp\<close> (keyboard and
  terminal input) and the request queue of \<^verbatim>\<open>include/util/operation_queue.hpp\<close> (disk
  drivers), which repeats it with blocking instead of dropping. Counters are 32-bit; the index of
  the oldest item is computed as a signed difference and corrected by the size. Both are proved
  to implement a bounded first-in first-out queue, whose contract is the locale
  \<open>bounded_queue\<close>.
\<close>

section \<open>The ring buffer\<close>

record 'a cbuf =
  buffer :: "'a list"
  buffer_count :: u32
  buffer_top :: u32
  zero_value :: 'a

definition buffer_size :: "'a cbuf \<Rightarrow> u32" where
  "buffer_size b = word_of_nat (length (buffer b))"

definition cbuf_new :: "'a list \<Rightarrow> 'a \<Rightarrow> 'a cbuf" where
  "cbuf_new mem zero = \<lparr>buffer = mem, buffer_count = 0, buffer_top = 0, zero_value = zero\<rparr>"

definition ring_start :: "u32 \<Rightarrow> u32 \<Rightarrow> u32 \<Rightarrow> int" where
  "ring_start sz tp cnt =
     (let start = sint (tp - cnt) in if start < 0 then start + uint sz else start)"

definition ring_next :: "u32 \<Rightarrow> u32 \<Rightarrow> u32" where
  "ring_next sz tp = (if tp + 1 = sz then 0 else tp + 1)"

definition add_item :: "'a \<Rightarrow> 'a cbuf \<Rightarrow> 'a cbuf kres" where
  "add_item c b =
     (if buffer_count b < buffer_size b then
        (if unat (buffer_top b) < length (buffer b)
         then Inr (b\<lparr>buffer_count := buffer_count b + 1,
                     buffer := (buffer b)[unat (buffer_top b) := c],
                     buffer_top := ring_next (buffer_size b) (buffer_top b)\<rparr>)
         else Inl OutOfBounds)
      else Inr b)"

definition read_item :: "'a cbuf \<Rightarrow> ('a \<times> 'a cbuf) kres" where
  "read_item b =
     (if buffer_count b \<noteq> 0 then
        (let start = ring_start (buffer_size b) (buffer_top b) (buffer_count b)
         in if 0 \<le> start \<and> nat start < length (buffer b)
            then Inr (buffer b ! nat start, b\<lparr>buffer_count := buffer_count b - 1\<rparr>)
            else Inl OutOfBounds)
      else Inr (zero_value b, b))"

definition full :: "'a cbuf \<Rightarrow> bool" where
  "full b \<longleftrightarrow> buffer_count b \<ge> buffer_size b"

definition cbuf_clear :: "'a cbuf \<Rightarrow> 'a cbuf" where
  "cbuf_clear b = b\<lparr>buffer_count := 0, buffer_top := 0\<rparr>"

section \<open>The request queue\<close>

record 'a opq =
  oqueue :: "'a list"
  queue_count :: u32
  queue_top :: u32
  opq_thread :: u64

definition opq_size :: "'a opq \<Rightarrow> u32" where
  "opq_size q = word_of_nat (length (oqueue q))"

definition opq_get :: "'a opq \<Rightarrow> ('a \<times> 'a opq) kres" where
  "opq_get q =
     (if queue_count q = 0 then Inl WouldBlock
      else
        (let start = ring_start (opq_size q) (queue_top q) (queue_count q)
         in if 0 \<le> start \<and> nat start < length (oqueue q)
            then Inr (oqueue q ! nat start, q\<lparr>queue_count := queue_count q - 1\<rparr>)
            else Inl OutOfBounds))"

definition opq_add :: "'a \<Rightarrow> 'a opq \<Rightarrow> 'a opq kres" where
  "opq_add op q =
     (if opq_thread q = 0 then Inr q
      else if queue_count q \<ge> opq_size q then Inl WouldBlock
      else if unat (queue_top q) < length (oqueue q)
      then Inr (q\<lparr>queue_count := queue_count q + 1,
                  oqueue := (oqueue q)[unat (queue_top q) := op],
                  queue_top := ring_next (opq_size q) (queue_top q)\<rparr>)
      else Inl OutOfBounds)"

definition opq_wait_for_end :: "'a opq \<Rightarrow> 'a opq" where
  "opq_wait_for_end q = q\<lparr>opq_thread := 0\<rparr>"

section \<open>Ring arithmetic\<close>

text \<open>
  The live items of a ring: \<open>n\<close> cells that end just below \<open>tp\<close>, oldest first.
\<close>

definition ring_index :: "nat \<Rightarrow> nat \<Rightarrow> nat \<Rightarrow> nat" where
  "ring_index sz tp back = (if back \<le> tp then tp - back else tp + sz - back)"

definition ring_items :: "'a list \<Rightarrow> nat \<Rightarrow> nat \<Rightarrow> 'a list" where
  "ring_items cells tp n = map (\<lambda>i. cells ! ring_index (length cells) tp (n - i)) [0..<n]"

definition ring_ok :: "'a list \<Rightarrow> u32 \<Rightarrow> u32 \<Rightarrow> bool" where
  "ring_ok cells tp cnt \<longleftrightarrow>
     cells \<noteq> [] \<and> length cells < 2 ^ 31 \<and> unat tp < length cells \<and> unat cnt \<le> length cells"

lemma ring_size_unat: "ring_ok cells tp cnt \<Longrightarrow> unat (word_of_nat (length cells) :: u32) = length cells"
  by (intro unat_word_of_nat) (auto simp: ring_ok_def)

lemma ring_start_index:
  assumes "ring_ok cells tp cnt"
  shows "ring_start (word_of_nat (length cells)) tp cnt
     = int (ring_index (length cells) (unat tp) (unat cnt))"
proof -
  let ?n = "length cells"
  have n: "uint (word_of_nat ?n :: u32) = int ?n"
    using ring_size_unat [OF assms] by (simp add: uint_nat)
  have "sint (tp - cnt) = int (unat tp) - int (unat cnt)"
    by (rule sint_diff_small) (use assms in \<open>auto simp: ring_ok_def\<close>)
  then show ?thesis
    using assms n unfolding ring_start_def ring_index_def ring_ok_def Let_def by (simp del: of_nat_unat)
qed


lemma ring_items_length [simp]: "length (ring_items cells tp n) = n"
  by (simp add: ring_items_def)

lemma ring_items_pop:
  assumes "0 < n"
  shows "ring_items cells tp n = cells ! ring_index (length cells) tp n # ring_items cells tp (n - 1)"
proof -
  have "[0..<n] = 0 # map Suc [0..<n - 1]" using assms by (simp add: map_Suc_upt upt_conv_Cons)
  then show ?thesis using assms by (simp add: ring_items_def)
qed

lemma ring_items_push:
  assumes "tp < length cells" and "n < length cells"
  shows "ring_items (cells[tp := x]) (if Suc tp = length cells then 0 else Suc tp) (Suc n)
     = ring_items cells tp n @ [x]"
proof -
  let ?tp = "if Suc tp = length cells then 0 else Suc tp"
  have old: "(cells[tp := x]) ! ring_index (length cells) ?tp (Suc n - i)
      = cells ! ring_index (length cells) tp (n - i)" if "i < n" for i
  proof -
    have "ring_index (length cells) ?tp (Suc n - i) = ring_index (length cells) tp (n - i)"
      and "ring_index (length cells) tp (n - i) \<noteq> tp"
      using that assms by (auto simp: ring_index_def)
    then show ?thesis by simp
  qed
  have new: "(cells[tp := x]) ! ring_index (length cells) ?tp (Suc n - n) = x"
  proof -
    have "ring_index (length cells) ?tp (Suc n - n) = tp" using assms by (auto simp: ring_index_def)
    then show ?thesis using assms by simp
  qed
  have "[0..<Suc n] = [0..<n] @ [n]" by simp
  then show ?thesis using old new unfolding ring_items_def length_list_update by simp
qed

lemma ring_next_unat:
  assumes "ring_ok cells tp cnt"
  shows "unat (ring_next (word_of_nat (length cells)) tp)
     = (if Suc (unat tp) = length cells then 0 else Suc (unat tp))"
proof -
  have t: "unat (tp + 1) = Suc (unat tp)"
    by (rule unat_add_one [where n = "length cells"]) (use assms in \<open>auto simp: ring_ok_def\<close>)
  have "tp + 1 = word_of_nat (length cells) \<longleftrightarrow> Suc (unat tp) = length cells"
    using t ring_size_unat [OF assms] by (metis word_unat_eq_iff)
  then show ?thesis using t by (simp add: ring_next_def)
qed

lemma ring_ok_push:
  assumes "ring_ok cells tp cnt" and "unat cnt < length cells"
  shows "ring_ok (cells[i := x]) (ring_next (word_of_nat (length cells)) tp) (cnt + 1)"
    and "unat (cnt + 1) = Suc (unat cnt)"
proof -
  show u: "unat (cnt + 1) = Suc (unat cnt)"
    by (rule unat_add_one [where n = "length cells"]) (use assms in \<open>auto simp: ring_ok_def\<close>)
  show "ring_ok (cells[i := x]) (ring_next (word_of_nat (length cells)) tp) (cnt + 1)"
    using assms u ring_next_unat [OF assms(1)] by (auto simp: ring_ok_def)
qed

lemma ring_ok_pop:
  assumes "ring_ok cells tp cnt" and "cnt \<noteq> 0"
  shows "ring_ok cells tp (cnt - 1)" and "unat (cnt - 1) = unat cnt - 1"
  using assms by (auto simp: ring_ok_def unat_minus_one)


section \<open>The queue contract\<close>

text \<open>A client that adds a batch and a client that drains one.\<close>

primrec add_all :: "('a \<Rightarrow> 'q \<Rightarrow> 'q kres) \<Rightarrow> 'a list \<Rightarrow> 'q \<Rightarrow> 'q kres" where
  "add_all add [] q = Inr q"
| "add_all add (x # xs) q = kbind (add x q) (add_all add xs)"

primrec get_many :: "('q \<Rightarrow> ('a \<times> 'q) kres) \<Rightarrow> nat \<Rightarrow> 'q \<Rightarrow> ('a list \<times> 'q) kres" where
  "get_many get 0 q = Inr ([], q)"
| "get_many get (Suc n) q =
     kbind (get q) (\<lambda>(x, q'). kbind (get_many get n q') (\<lambda>(xs, q''). Inr (x # xs, q'')))"

text \<open>
  A bounded queue: what a client may rely on. \<open>items\<close> is its content, oldest first. An
  addition to a full queue is \<open>overflow\<close>, a removal from an empty one \<open>underflow\<close>; the two
  implementations fill these in differently.
\<close>

locale bounded_queue =
  fixes add :: "'a \<Rightarrow> 'q \<Rightarrow> 'q kres"
    and get :: "'q \<Rightarrow> ('a \<times> 'q) kres"
    and items :: "'q \<Rightarrow> 'a list"
    and capacity :: "'q \<Rightarrow> nat"
    and invar :: "'q \<Rightarrow> bool"
    and overflow :: "'q \<Rightarrow> 'q kres"
    and underflow :: "'q \<Rightarrow> ('a \<times> 'q) kres"
  assumes add_room: "invar q \<Longrightarrow> length (items q) < capacity q \<Longrightarrow>
        \<exists>q'. add x q = Inr q' \<and> invar q' \<and> items q' = items q @ [x] \<and> capacity q' = capacity q"
    and add_full: "invar q \<Longrightarrow> length (items q) = capacity q \<Longrightarrow> add x q = overflow q"
    and get_some: "invar q \<Longrightarrow> items q = x # xs \<Longrightarrow>
        \<exists>q'. get q = Inr (x, q') \<and> invar q' \<and> items q' = xs \<and> capacity q' = capacity q"
    and get_none: "invar q \<Longrightarrow> items q = [] \<Longrightarrow> get q = underflow q"
    and within: "invar q \<Longrightarrow> length (items q) \<le> capacity q"
begin

lemma add_all_items:
  "invar q \<Longrightarrow> length (items q) + length xs \<le> capacity q \<Longrightarrow>
   \<exists>q'. add_all add xs q = Inr q' \<and> invar q' \<and> items q' = items q @ xs \<and> capacity q' = capacity q"
proof (induction xs arbitrary: q)
  case (Cons x xs)
  obtain q1 where q1: "add x q = Inr q1" "invar q1" "items q1 = items q @ [x]" "capacity q1 = capacity q"
    using add_room [of q x] Cons.prems by auto
  with Cons.IH [of q1] Cons.prems show ?case by auto
qed simp

lemma get_many_items:
  "invar q \<Longrightarrow> n \<le> length (items q) \<Longrightarrow>
   \<exists>q'. get_many get n q = Inr (take n (items q), q') \<and> invar q' \<and> items q' = drop n (items q)
     \<and> capacity q' = capacity q"
proof (induction n arbitrary: q)
  case (Suc n)
  then obtain x xs where it: "items q = x # xs" by (cases "items q") auto
  obtain q1 where q1: "get q = Inr (x, q1)" "invar q1" "items q1 = xs" "capacity q1 = capacity q"
    using get_some [OF Suc.prems(1) it] by auto
  with Suc.IH [of q1] Suc.prems it show ?case by auto
qed simp

lemma fifo:
  assumes "invar q" and "items q = []" and "length xs \<le> capacity q"
  shows "\<exists>q' q''. add_all add xs q = Inr q' \<and> get_many get (length xs) q' = Inr (xs, q'') \<and> items q'' = []"
proof -
  obtain q' where q': "add_all add xs q = Inr q'" "invar q'" "items q' = xs"
    using add_all_items [of q xs] assms by auto
  then show ?thesis using get_many_items [of q' "length xs"] by auto
qed

end

definition cbuf_items :: "'a cbuf \<Rightarrow> 'a list" where
  "cbuf_items b = ring_items (buffer b) (unat (buffer_top b)) (unat (buffer_count b))"

definition cbuf_inv :: "'a cbuf \<Rightarrow> bool" where
  "cbuf_inv b \<longleftrightarrow> ring_ok (buffer b) (buffer_top b) (buffer_count b)"

definition opq_items :: "'a opq \<Rightarrow> 'a list" where
  "opq_items q = ring_items (oqueue q) (unat (queue_top q)) (unat (queue_count q))"

definition opq_inv :: "'a opq \<Rightarrow> bool" where
  "opq_inv q \<longleftrightarrow> ring_ok (oqueue q) (queue_top q) (queue_count q) \<and> opq_thread q \<noteq> 0"

lemma ring_room_iff:
  "ring_ok cells tp cnt \<Longrightarrow> cnt < word_of_nat (length cells) \<longleftrightarrow> unat cnt < length cells"
  by (simp add: word_less_nat_alt ring_size_unat)

interpretation cq: bounded_queue add_item read_item cbuf_items "\<lambda>b. length (buffer b)" cbuf_inv
  Inr "\<lambda>b. Inr (zero_value b, b)"
proof unfold_locales
  fix q :: "'a cbuf" and x :: 'a
  assume inv: "cbuf_inv q"
  then have ok: "ring_ok (buffer q) (buffer_top q) (buffer_count q)" by (simp add: cbuf_inv_def)
  show "length (cbuf_items q) \<le> length (buffer q)" using ok by (simp add: cbuf_items_def ring_ok_def)
  { assume room: "length (cbuf_items q) < length (buffer q)"
    then have c: "unat (buffer_count q) < length (buffer q)" by (simp add: cbuf_items_def)
    then have lt: "buffer_count q < buffer_size q"
      using ring_room_iff [OF ok] by (simp add: buffer_size_def)
    have tp: "unat (buffer_top q) < length (buffer q)" using ok by (simp add: ring_ok_def)
    let ?q = "q\<lparr>buffer_count := buffer_count q + 1, buffer := (buffer q)[unat (buffer_top q) := x],
                buffer_top := ring_next (buffer_size q) (buffer_top q)\<rparr>"
    have "add_item x q = Inr ?q" using lt tp by (simp add: add_item_def)
    moreover have "cbuf_inv ?q"
      using ring_ok_push(1) [OF ok c] by (simp add: cbuf_inv_def buffer_size_def)
    moreover have "cbuf_items ?q = cbuf_items q @ [x]"
      using ring_items_push [OF tp c, of x] ring_ok_push(2) [OF ok c] ring_next_unat [OF ok]
      by (simp add: cbuf_items_def buffer_size_def)
    ultimately show "\<exists>q'. add_item x q = Inr q' \<and> cbuf_inv q' \<and> cbuf_items q' = cbuf_items q @ [x]
        \<and> length (buffer q') = length (buffer q)" by auto }
  { assume "length (cbuf_items q) = length (buffer q)"
    then show "add_item x q = Inr q"
      using ring_room_iff [OF ok] by (simp add: add_item_def cbuf_items_def buffer_size_def) }
  { fix xs assume it: "cbuf_items q = x # xs"
    then have c: "unat (buffer_count q) = Suc (length xs)"
      by (metis cbuf_items_def length_Cons ring_items_length)
    then have nz: "buffer_count q \<noteq> 0" by auto
    let ?i = "ring_index (length (buffer q)) (unat (buffer_top q)) (unat (buffer_count q))"
    have i: "?i < length (buffer q)" using ok c by (auto simp: ring_ok_def ring_index_def)
    have "cbuf_items q = buffer q ! ?i # ring_items (buffer q) (unat (buffer_top q)) (unat (buffer_count q) - 1)"
      unfolding cbuf_items_def by (rule ring_items_pop) (use c in simp)
    then have e: "x = buffer q ! ?i" "xs = ring_items (buffer q) (unat (buffer_top q)) (unat (buffer_count q) - 1)"
      using it by auto
    have "read_item q = Inr (x, q\<lparr>buffer_count := buffer_count q - 1\<rparr>)"
      using nz i e(1) ring_start_index [OF ok] by (simp add: read_item_def buffer_size_def)
    then show "\<exists>q'. read_item q = Inr (x, q') \<and> cbuf_inv q' \<and> cbuf_items q' = xs
        \<and> length (buffer q') = length (buffer q)"
      using ring_ok_pop [OF ok nz] e(2) by (simp add: cbuf_inv_def cbuf_items_def) }
  { assume "cbuf_items q = []"
    then have "unat (buffer_count q) = 0" by (metis cbuf_items_def list.size(3) ring_items_length)
    then show "read_item q = Inr (zero_value q, q)" by (simp add: read_item_def unat_eq_0) }
qed

text \<open>
  The request queue runs the ring buffer's operations on the same cells; it only blocks where the
  ring buffer drops an item or returns its zero value.
\<close>

definition opq_ring :: "'a opq \<Rightarrow> 'a cbuf" where
  "opq_ring q = \<lparr>buffer = oqueue q, buffer_count = queue_count q, buffer_top = queue_top q,
                  zero_value = oqueue q ! 0\<rparr>"

definition opq_with :: "'a opq \<Rightarrow> 'a cbuf \<Rightarrow> 'a opq" where
  "opq_with q b = q\<lparr>oqueue := buffer b, queue_count := buffer_count b, queue_top := buffer_top b\<rparr>"

lemma opq_ring_simps:
  "opq_items q = cbuf_items (opq_ring q)" "opq_inv q \<longleftrightarrow> cbuf_inv (opq_ring q) \<and> opq_thread q \<noteq> 0"
  "length (oqueue q) = length (buffer (opq_ring q))"
  "cbuf_items (opq_ring (opq_with q b)) = cbuf_items b"
  "cbuf_inv (opq_ring (opq_with q b)) \<longleftrightarrow> cbuf_inv b"
  "buffer (opq_ring (opq_with q b)) = buffer b" "opq_thread (opq_with q b) = opq_thread q"
  by (simp_all add: opq_items_def cbuf_items_def opq_ring_def opq_with_def opq_inv_def cbuf_inv_def)

lemma opq_add_ring:
  assumes "opq_thread q \<noteq> 0" and "queue_count q < opq_size q"
  shows "opq_add x q = kbind (add_item x (opq_ring q)) (\<lambda>b. Inr (opq_with q b))"
  using assms by (simp add: opq_add_def add_item_def opq_ring_def opq_with_def buffer_size_def
      opq_size_def linorder_not_le)

lemma opq_get_ring:
  assumes "queue_count q \<noteq> 0"
  shows "opq_get q = kbind (read_item (opq_ring q)) (\<lambda>(x, b). Inr (x, opq_with q b))"
  using assms by (simp add: opq_get_def read_item_def opq_ring_def opq_with_def buffer_size_def
      opq_size_def Let_def)

interpretation oq: bounded_queue opq_add opq_get opq_items "\<lambda>q. length (oqueue q)" opq_inv
  "\<lambda>_. Inl WouldBlock" "\<lambda>_. Inl WouldBlock"
proof unfold_locales
  fix q :: "'a opq" and x :: 'a
  assume inv: "opq_inv q"
  then have ok: "ring_ok (oqueue q) (queue_top q) (queue_count q)" and th: "opq_thread q \<noteq> 0"
    by (simp_all add: opq_inv_def)
  have cinv: "cbuf_inv (opq_ring q)" using inv by (simp add: opq_ring_simps)
  have n: "length (opq_items q) = unat (queue_count q)" by (simp add: opq_items_def)
  show "length (opq_items q) \<le> length (oqueue q)" using cq.within [OF cinv] by (simp add: opq_ring_simps)
  { assume room: "length (opq_items q) < length (oqueue q)"
    then have "queue_count q < opq_size q" using ring_room_iff [OF ok] n by (simp add: opq_size_def)
    note eq = opq_add_ring [OF th this, of x]
    show "\<exists>q'. opq_add x q = Inr q' \<and> opq_inv q' \<and> opq_items q' = opq_items q @ [x]
        \<and> length (oqueue q') = length (oqueue q)"
      using cq.add_room [OF cinv, of x] room th eq by (auto simp: opq_ring_simps) }
  { assume "length (opq_items q) = length (oqueue q)"
    then have "\<not> queue_count q < opq_size q" using ring_room_iff [OF ok] n by (simp add: opq_size_def)
    then show "opq_add x q = Inl WouldBlock" using th by (simp add: opq_add_def linorder_not_less) }
  { fix xs assume it: "opq_items q = x # xs"
    then have "queue_count q \<noteq> 0" using n by auto
    from opq_get_ring [OF this] show "\<exists>q'. opq_get q = Inr (x, q') \<and> opq_inv q' \<and> opq_items q' = xs
        \<and> length (oqueue q') = length (oqueue q)"
      using cq.get_some [OF cinv, of x xs] it th by (auto simp: opq_ring_simps) }
  { assume "opq_items q = []"
    then have "queue_count q = 0" using n by (simp add: unat_eq_0)
    then show "opq_get q = Inl WouldBlock" by (simp add: opq_get_def) }
qed

section \<open>Properties\<close>

text \<open>
  (C14) The ring buffer is a bounded queue. With the invariant, an addition appends the item if
  there is room and changes nothing if there is none, a read returns and removes the oldest item
  or returns the zero value of an empty buffer; neither leaves the array, and the signed index
  computation is exact for every array below \<open>2^31\<close> items.
\<close>

theorem circular_buffer_queue:
  assumes "cbuf_inv b"
  shows "(\<exists>b'. add_item c b = Inr b' \<and> cbuf_inv b' \<and> length (buffer b') = length (buffer b)
           \<and> cbuf_items b' = (if length (cbuf_items b) < length (buffer b) then cbuf_items b @ [c]
                              else cbuf_items b))
    \<and> (\<exists>b'. read_item b = Inr (case cbuf_items b of [] \<Rightarrow> zero_value b | x # _ \<Rightarrow> x, b')
           \<and> cbuf_inv b' \<and> length (buffer b') = length (buffer b) \<and> cbuf_items b' = tl (cbuf_items b))"
proof
  show "\<exists>b'. add_item c b = Inr b' \<and> cbuf_inv b' \<and> length (buffer b') = length (buffer b)
           \<and> cbuf_items b' = (if length (cbuf_items b) < length (buffer b) then cbuf_items b @ [c]
                              else cbuf_items b)"
    using cq.add_room [OF assms, of c] cq.add_full [OF assms, of c] cq.within [OF assms] assms by auto
  show "\<exists>b'. read_item b = Inr (case cbuf_items b of [] \<Rightarrow> zero_value b | x # _ \<Rightarrow> x, b')
           \<and> cbuf_inv b' \<and> length (buffer b') = length (buffer b) \<and> cbuf_items b' = tl (cbuf_items b)"
    using cq.get_some [OF assms] cq.get_none [OF assms] assms by (cases "cbuf_items b") auto
qed

theorem circular_buffer_queue_witness:
  "\<exists>b'. add_item CHR ''x'' (cbuf_new ''ab'' CHR ''0'') = Inr b' \<and> cbuf_items b' = ''x''"
proof -
  have "cbuf_inv (cbuf_new ''ab'' CHR ''0'')" by (simp add: cbuf_inv_def cbuf_new_def ring_ok_def)
  from circular_buffer_queue [OF this, of "CHR ''x''"] show ?thesis
    by (auto simp: cbuf_new_def cbuf_items_def ring_items_def)
qed

text \<open>
  (C25) The request queue delivers in order: any batch of requests that fits, added to an empty
  queue whose worker thread is running, comes out complete and in the order of submission, and
  an addition to a full queue or a removal from an empty one blocks.
\<close>

theorem operation_queue_fifo:
  assumes "opq_inv q"
  shows "(opq_items q = [] \<and> length ops \<le> length (oqueue q) \<longrightarrow>
            (\<exists>q' q''. add_all opq_add ops q = Inr q' \<and> get_many opq_get (length ops) q' = Inr (ops, q'')
              \<and> opq_items q'' = []))
     \<and> (length (opq_items q) = length (oqueue q) \<longrightarrow> opq_add op q = Inl WouldBlock)
     \<and> (opq_items q = [] \<longrightarrow> opq_get q = Inl WouldBlock)"
  using oq.fifo [OF assms, of ops] oq.add_full [OF assms, of op] oq.get_none [OF assms] by blast

theorem operation_queue_fifo_witness:
  "\<exists>q' q''. add_all opq_add ''xy'' \<lparr>oqueue = ''abc'', queue_count = 0, queue_top = 2, opq_thread = 5\<rparr> = Inr q'
     \<and> get_many opq_get (length ''xy'') q' = Inr (''xy'', q'') \<and> opq_items q'' = []"
proof -
  let ?q = "\<lparr>oqueue = ''abc'', queue_count = 0, queue_top = 2, opq_thread = 5\<rparr> :: char opq"
  have "opq_inv ?q" by (simp add: opq_inv_def ring_ok_def)
  moreover have "opq_items ?q = []" by (simp add: opq_items_def ring_items_def)
  ultimately show ?thesis using operation_queue_fifo [of ?q "''xy''" undefined] by simp
qed

end
