(* ===== verification/Locks.thy ===== *)
theory Locks
  imports Prelude
begin

text \<open>
  Kernel locks, \<^verbatim>\<open>kernel/locks.cpp\<close> and \<^verbatim>\<open>include/module/locktype.h\<close>, with
  the part of \<^verbatim>\<open>kernel/scheduler.cpp\<close> they call: the abort level of a thread, which
  every lock but the scheduler's own raises while it is held, and the parking of a thread that
  finds the lock taken. The owner is a 64-bit thread id, zero for none. A step of the system is
  one operation of the running thread, up to its return or to the point where it is parked in
  \<^verbatim>\<open>sch_setblock\<close>; a parked thread runs again once its block check holds. Nesting
  counts and abort levels are unbounded: the 32-bit fields would wrap after \<open>2^31\<close> nested
  acquisitions.
\<close>

section \<open>Locks and the state they act on\<close>

record lock =
  lockval :: u64
  lcount :: nat
  waiting :: bool

datatype lockid = SchLock | KLock nat

record lworld =
  sch_active :: bool
  locks :: "lockid \<Rightarrow> lock"
  thread_ids :: "u64 list"
  current_thread_id :: u64
  abortlevel :: "u64 \<Rightarrow> int"
  sch_deferred :: bool

definition init_lock :: lock where
  "init_lock = \<lparr>lockval = 0, lcount = 0, waiting = False\<rparr>"

definition get_lock_owner :: "lockid \<Rightarrow> lworld \<Rightarrow> u64" where
  "get_lock_owner l w = lockval (locks w l)"

definition upd_lock :: "lockid \<Rightarrow> (lock \<Rightarrow> lock) \<Rightarrow> lworld \<Rightarrow> lworld" where
  "upd_lock l f w = w\<lparr>locks := (locks w)(l := f (locks w l))\<rparr>"

definition lock_blockcheck :: "lockid \<Rightarrow> lworld \<Rightarrow> bool \<times> lworld" where
  "lock_blockcheck l w = (lockval (locks w l) = 0, upd_lock l (waiting_update (\<lambda>_. True)) w)"

text \<open>
  \<^verbatim>\<open>sch_abortable\<close> falls back to the current thread when the id is unknown and never
  lets a level drop below zero.
\<close>

definition sch_abortable :: "bool \<Rightarrow> u64 \<Rightarrow> lworld \<Rightarrow> lworld" where
  "sch_abortable abortable ext_id w =
     (let t = (if ext_id \<noteq> current_thread_id w \<and> ext_id \<in> set (thread_ids w) then ext_id
               else current_thread_id w);
          alevel = (if abortable then abortlevel w t - 1 else abortlevel w t + 1)
      in w\<lparr>abortlevel := (abortlevel w)(t := if alevel < 0 then 0 else alevel)\<rparr>)"

definition lock_abortable :: "lockid \<Rightarrow> bool \<Rightarrow> u64 \<Rightarrow> lworld \<Rightarrow> lworld" where
  "lock_abortable l abortable ext_id w = (if l \<noteq> SchLock then sch_abortable abortable ext_id w else w)"

definition lock_transfer :: "lockid \<Rightarrow> u64 \<Rightarrow> u64 \<Rightarrow> lworld \<Rightarrow> lworld kres" where
  "lock_transfer l to from w =
     (if lockval (locks w l) \<noteq> from then Inl (Panic ''(LOCK) Attempt to transfer unowned lock!'')
      else
        let w1 = lock_abortable l True from w;
            w2 = upd_lock l (lockval_update (\<lambda>_. to)) w1;
            w3 = lock_abortable l False to w2
        in if lockval (locks w3 l) = 0 then Inl (Panic ''(LOCK) Something bad happened!'') else Inr w3)"

section \<open>Taking a lock\<close>

text \<open>
  A blocking acquisition either returns with the lock or leaves the thread parked. Parking is
  \<^verbatim>\<open>sch_setblock\<close>: the block check runs once, and a thread whose abort level is not
  zero gives up one level while it sleeps; the flag says whether it did.
\<close>

datatype take_out = Acquired lworld | Parked bool lworld

definition sch_setblock_lock :: "lockid \<Rightarrow> lworld \<Rightarrow> bool \<times> lworld" where
  "sch_setblock_lock l w =
     (let w1 = snd (lock_blockcheck l w);
          changeabort = (abortlevel w1 (current_thread_id w1) \<noteq> 0)
      in (changeabort, if changeabort then sch_abortable True (current_thread_id w1) w1 else w1))"

definition take_acquired :: "lockid \<Rightarrow> bool \<Rightarrow> lworld \<Rightarrow> take_out kres" where
  "take_acquired l exclusive w =
     (let w1 = upd_lock l (waiting_update (\<lambda>_. False)) w
      in if exclusive \<and> lcount (locks w1 l) \<noteq> 0
         then Inl (Panic ''(LOCK) Newly acquired lock with non-zero count!'')
         else
           let w2 = upd_lock l (lcount_update Suc) w1
           in if lockval (locks w2 l) = 0 then Inl (Panic ''(LOCK) Lock value not set!'')
              else Inr (Acquired (lock_abortable l False (current_thread_id w2) w2)))"

definition take_loop :: "lockid \<Rightarrow> bool \<Rightarrow> u64 \<Rightarrow> lworld \<Rightarrow> take_out kres" where
  "take_loop l exclusive thread w =
     (if lockval (locks w l) = thread then take_acquired l exclusive w
      else if lockval (locks w l) = 0
      then take_acquired l exclusive (upd_lock l (lockval_update (\<lambda>_. thread)) w)
      else if l \<noteq> SchLock \<and> lockval (locks w SchLock) \<noteq> thread
      then (case sch_setblock_lock l w of (changed, w') \<Rightarrow> Inr (Parked changed w'))
      else Inl (Panic ''(LOCK) Deadlock - waiting for lock while holding scheduler lock!''))"

definition take_lock_exclusive :: "lockid \<Rightarrow> u64 \<Rightarrow> lworld \<Rightarrow> take_out kres" where
  "take_lock_exclusive l thread w =
     (if \<not> sch_active w then Inr (Acquired w)
      else if lockval (locks w l) = thread \<and> thread \<noteq> 0
      then Inl (Panic ''(LOCK) Attempt to take lock that's already held!'')
      else if thread = 0 then Inl (Panic ''(LOCK) Attempt to lock thread to invalid thread ID.'')
      else take_loop l True thread w)"

definition take_lock_recursive :: "lockid \<Rightarrow> u64 \<Rightarrow> lworld \<Rightarrow> take_out kres" where
  "take_lock_recursive l thread w =
     (if \<not> sch_active w then Inr (Acquired w)
      else if lockval (locks w l) = thread \<and> thread \<noteq> 0
      then Inr (Acquired (upd_lock l (lcount_update Suc) (lock_abortable l False (current_thread_id w) w)))
      else if thread = 0 then Inl (Panic ''(LOCK) Attempt to lock thread to invalid thread ID.'')
      else take_loop l False thread w)"

text \<open>
  What a parked thread does once it is scheduled again: clear the block check, take back its abort
  level, and go round the acquisition loop.
\<close>

definition take_resume :: "lockid \<Rightarrow> bool \<Rightarrow> bool \<Rightarrow> u64 \<Rightarrow> lworld \<Rightarrow> take_out kres" where
  "take_resume l exclusive changed thread w =
     take_loop l exclusive thread (if changed then sch_abortable False (current_thread_id w) w else w)"

text \<open>
  The non-blocking acquisitions, cut after the compare-and-swap: the final check of the owner runs
  whether or not the swap succeeded.
\<close>

definition try_take_cas :: "lockid \<Rightarrow> u64 \<Rightarrow> lworld \<Rightarrow> (bool \<times> lworld) kres" where
  "try_take_cas l thread w =
     (if lockval (locks w l) = 0 then
        (let w1 = upd_lock l (lockval_update (\<lambda>_. thread)) w
         in if lcount (locks w1 l) \<noteq> 0
            then Inl (Panic ''(LOCK) Newly acquired lock with non-zero count!'')
            else Inr (True, lock_abortable l False (current_thread_id w1)
                              (upd_lock l (lcount_update Suc) w1)))
      else Inr (False, w))"

definition try_take_check :: "lockid \<Rightarrow> bool \<Rightarrow> lworld \<Rightarrow> (bool \<times> lworld) kres" where
  "try_take_check l ret w =
     (if lockval (locks w l) = 0 then Inl (Panic ''(LOCK) Lock value not set!'') else Inr (ret, w))"

definition try_take_lock_exclusive :: "lockid \<Rightarrow> u64 \<Rightarrow> lworld \<Rightarrow> (bool \<times> lworld) kres" where
  "try_take_lock_exclusive l thread w =
     (if \<not> sch_active w then Inr (True, w)
      else if lockval (locks w l) = thread \<and> thread \<noteq> 0 then Inr (False, w)
      else kbind (try_take_cas l thread w) (\<lambda>(ret, w'). try_take_check l ret w'))"

definition try_take_lock_recursive :: "lockid \<Rightarrow> u64 \<Rightarrow> lworld \<Rightarrow> (bool \<times> lworld) kres" where
  "try_take_lock_recursive l thread w =
     (if \<not> sch_active w then Inr (True, w)
      else if lockval (locks w l) = thread \<and> thread \<noteq> 0
      then Inr (True, lock_abortable l False (current_thread_id w) (upd_lock l (lcount_update Suc) w))
      else kbind (try_take_cas l thread w) (\<lambda>(ret, w'). try_take_check l ret w'))"

section \<open>Releasing a lock\<close>

text \<open>
  A yield takes the scheduler lock if it can and clears the deferral; which thread runs next is
  the choice of the step relation.
\<close>

definition sch_yield_point :: "lworld \<Rightarrow> lworld" where
  "sch_yield_point w = (if lockval (locks w SchLock) = 0 then w\<lparr>sch_deferred := False\<rparr> else w)"

definition release_last :: "lockid \<Rightarrow> u64 \<Rightarrow> lworld \<Rightarrow> lworld" where
  "release_last l thread w =
     (if lcount (locks w l) = 0 then
        (let w' = upd_lock l (lockval_update (\<lambda>v. if v = thread then 0 else v)) w
         in if waiting (locks w l) then sch_yield_point w' else w')
      else w)"

definition release_lock :: "lockid \<Rightarrow> u64 \<Rightarrow> lworld \<Rightarrow> lworld kres" where
  "release_lock l thread w =
     (if \<not> sch_active w then Inr w
      else if lockval (locks w l) \<noteq> thread
      then Inl (Panic ''(LOCK) Attempt to release lock that isn't held!'')
      else if lcount (locks w l) = 0
      then Inl (Panic ''(LOCK) Attempt to release lock with zero count!'')
      else
        let w2 = release_last l thread (upd_lock l (lcount_update (\<lambda>n. n - 1)) w);
            w3 = lock_abortable l True (current_thread_id w2) w2
        in Inr (if sch_deferred w3 then sch_yield_point w3 else w3))"

section \<open>The system of threads\<close>

text \<open>
  Ghost state of a run: how often each thread has taken each lock without giving it back, which
  threads are parked in an acquisition, and each thread's abort level apart from locks (one per
  kernel entry). The locks are \<open>SchLock\<close> and \<open>KLock 0 \<dots> KLock (N - 1)\<close>.
\<close>

record lsys =
  world :: lworld
  held :: "u64 \<Rightarrow> lockid \<Rightarrow> nat"
  parked :: "u64 \<Rightarrow> (lockid \<times> bool \<times> bool) option"
  base_level :: "u64 \<Rightarrow> nat"

fun lock_exists :: "nat \<Rightarrow> lockid \<Rightarrow> bool" where
  "lock_exists N SchLock = True"
| "lock_exists N (KLock n) = (n < N)"

definition run_as :: "u64 \<Rightarrow> lworld \<Rightarrow> lworld" where
  "run_as t w = w\<lparr>current_thread_id := t\<rparr>"

definition held_add :: "u64 \<Rightarrow> lockid \<Rightarrow> (u64 \<Rightarrow> lockid \<Rightarrow> nat) \<Rightarrow> u64 \<Rightarrow> lockid \<Rightarrow> nat" where
  "held_add t l h = h(t := (h t)(l := Suc (h t l)))"

definition held_sub :: "u64 \<Rightarrow> lockid \<Rightarrow> (u64 \<Rightarrow> lockid \<Rightarrow> nat) \<Rightarrow> u64 \<Rightarrow> lockid \<Rightarrow> nat" where
  "held_sub t l h = h(t := (h t)(l := h t l - 1))"

definition after_take :: "u64 \<Rightarrow> lockid \<Rightarrow> bool \<Rightarrow> take_out \<Rightarrow> lsys \<Rightarrow> lsys" where
  "after_take t l exclusive out s =
     (case out of
        Acquired w \<Rightarrow> s\<lparr>world := w, held := held_add t l (held s), parked := (parked s)(t := None)\<rparr>
      | Parked changed w \<Rightarrow> s\<lparr>world := w, parked := (parked s)(t := Some (l, exclusive, changed))\<rparr>)"

definition runnable :: "u64 \<Rightarrow> lsys \<Rightarrow> bool" where
  "runnable t s \<longleftrightarrow> t \<noteq> 0 \<and> t \<in> set (thread_ids (world s)) \<and> parked s t = None"

inductive lk_step :: "nat \<Rightarrow> lsys \<Rightarrow> lsys \<Rightarrow> bool" for N where
  step_exclusive:
    "runnable t s \<Longrightarrow> lock_exists N l \<Longrightarrow> take_lock_exclusive l t (run_as t (world s)) = Inr out \<Longrightarrow>
     lk_step N s (after_take t l True out s)"
| step_recursive:
    "runnable t s \<Longrightarrow> lock_exists N l \<Longrightarrow> take_lock_recursive l t (run_as t (world s)) = Inr out \<Longrightarrow>
     lk_step N s (after_take t l False out s)"
| step_try_exclusive:
    "runnable t s \<Longrightarrow> lock_exists N l \<Longrightarrow> try_take_lock_exclusive l t (run_as t (world s)) = Inr (ret, w) \<Longrightarrow>
     lk_step N s (s\<lparr>world := w, held := if ret then held_add t l (held s) else held s\<rparr>)"
| step_try_recursive:
    "runnable t s \<Longrightarrow> lock_exists N l \<Longrightarrow> try_take_lock_recursive l t (run_as t (world s)) = Inr (ret, w) \<Longrightarrow>
     lk_step N s (s\<lparr>world := w, held := if ret then held_add t l (held s) else held s\<rparr>)"
| step_release:
    "t \<noteq> 0 \<Longrightarrow> t \<in> set (thread_ids (world s)) \<Longrightarrow> parked s t = None \<or> l = SchLock \<Longrightarrow>
     lock_exists N l \<Longrightarrow> release_lock l t (run_as t (world s)) = Inr w \<Longrightarrow>
     lk_step N s (s\<lparr>world := w, held := held_sub t l (held s)\<rparr>)"
| step_resume:
    "t \<noteq> 0 \<Longrightarrow> t \<in> set (thread_ids (world s)) \<Longrightarrow> parked s t = Some (l, exclusive, changed) \<Longrightarrow>
     fst (lock_blockcheck l (world s)) \<Longrightarrow> lock_exists N l \<Longrightarrow>
     take_resume l exclusive changed t (run_as t (world s)) = Inr out \<Longrightarrow>
     lk_step N s (after_take t l exclusive out s)"
| step_switch:
    "t \<noteq> 0 \<Longrightarrow> u \<noteq> 0 \<Longrightarrow> u \<in> set (thread_ids (world s)) \<Longrightarrow>
     lock_transfer SchLock u t (run_as t (world s)) = Inr w \<Longrightarrow>
     lk_step N s (s\<lparr>world := run_as u w,
       held := (held s)(t := (held s t)(SchLock := 0), u := (held s u)(SchLock := held s t SchLock))\<rparr>)"
| step_enter:
    "runnable t s \<Longrightarrow>
     lk_step N s (s\<lparr>world := sch_abortable False t (run_as t (world s)),
                    base_level := (base_level s)(t := Suc (base_level s t))\<rparr>)"
| step_leave:
    "runnable t s \<Longrightarrow> 0 < base_level s t \<Longrightarrow>
     lk_step N s (s\<lparr>world := sch_abortable True t (run_as t (world s)),
                    base_level := (base_level s)(t := base_level s t - 1)\<rparr>)"

definition lk_init :: "u64 list \<Rightarrow> (u64 \<Rightarrow> nat) \<Rightarrow> lsys" where
  "lk_init ids base =
     \<lparr>world = \<lparr>sch_active = True, locks = \<lambda>_. init_lock, thread_ids = ids, current_thread_id = hd ids,
               abortlevel = \<lambda>t. int (base t), sch_deferred = False\<rparr>,
      held = \<lambda>_ _. 0, parked = \<lambda>_. None, base_level = base\<rparr>"

inductive lk_reach :: "nat \<Rightarrow> lsys \<Rightarrow> bool" for N where
  reach_init: "lk_reach N (lk_init ids base)"
| reach_step: "lk_reach N s \<Longrightarrow> lk_step N s s' \<Longrightarrow> lk_reach N s'"

definition klocks_held :: "nat \<Rightarrow> (u64 \<Rightarrow> lockid \<Rightarrow> nat) \<Rightarrow> u64 \<Rightarrow> nat" where
  "klocks_held N h t = (\<Sum>n<N. h t (KLock n))"

definition sleep_credit :: "lsys \<Rightarrow> u64 \<Rightarrow> int" where
  "sleep_credit s t = (case parked s t of Some (_, _, True) \<Rightarrow> 1 | _ \<Rightarrow> 0)"

definition lk_inv :: "nat \<Rightarrow> lsys \<Rightarrow> bool" where
  "lk_inv N s \<longleftrightarrow>
     sch_active (world s)
     \<and> (\<forall>l. lockval (locks (world s) l) = 0 \<longleftrightarrow> lcount (locks (world s) l) = 0)
     \<and> (\<forall>t l. held s t l = (if t \<noteq> 0 \<and> lockval (locks (world s) l) = t then lcount (locks (world s) l) else 0))
     \<and> (\<forall>t. abortlevel (world s) t = int (base_level s t + klocks_held N (held s) t) - sleep_credit s t)
     \<and> (\<forall>t. 0 \<le> abortlevel (world s) t)"

lemma lk_inv_init: "lk_inv N (lk_init ids base)"
  by (simp add: lk_inv_def lk_init_def init_lock_def klocks_held_def sleep_credit_def)

lemma klocks_held_upd:
  "klocks_held N (h(t := (h t)(l := c))) u
     = (case l of SchLock \<Rightarrow> klocks_held N h u
        | KLock n \<Rightarrow> if u = t \<and> n < N then klocks_held N h u - h t l + c else klocks_held N h u)"
proof (cases l)
  case SchLock
  then show ?thesis by (auto simp: klocks_held_def intro!: sum.cong)
next
  case (KLock n)
  show ?thesis
  proof (cases "u = t \<and> n < N")
    case True
    then have "klocks_held N (h(t := (h t)(l := c))) u = c + (\<Sum>k\<in>{..<N} - {n}. h t (KLock k))"
      using KLock by (simp add: klocks_held_def sum.remove [of _ n])
    moreover have "klocks_held N h t = h t l + (\<Sum>k\<in>{..<N} - {n}. h t (KLock k))"
      using KLock True by (simp add: klocks_held_def sum.remove [of _ n])
    ultimately show ?thesis using KLock True by simp
  next
    case False
    then show ?thesis using KLock by (auto simp: klocks_held_def intro!: sum.cong)
  qed
qed

lemma klocks_held_ge: "lock_exists N l \<Longrightarrow> l \<noteq> SchLock \<Longrightarrow> h t l \<le> klocks_held N h t"
  by (cases l) (auto simp: klocks_held_def intro!: member_le_sum)
text \<open>
  Every operation changes one lock, one thread's count of it and that thread's abort level; this
  lemma reduces preservation to the arithmetic of that change.
\<close>

definition credit :: "(lockid \<times> bool \<times> bool) option \<Rightarrow> int" where
  "credit p = (case p of Some (_, _, True) \<Rightarrow> 1 | _ \<Rightarrow> 0)"

lemma credit_simps [simp]: "credit None = 0" "credit (Some (l, e, b)) = (if b then 1 else 0)"
  by (simp_all add: credit_def split: bool.split)

lemma credit_nonneg: "0 \<le> credit p"
  by (simp add: credit_def split: option.split prod.split bool.split)

lemma sleep_credit_eq: "sleep_credit s t = credit (parked s t)"
  by (simp add: sleep_credit_def credit_def)

lemma lk_inv_change:
  assumes inv: "lk_inv N s" and t: "t \<noteq> 0" and l: "lock_exists N l"
    and own: "lockval (locks (world s) l) = 0 \<or> lockval (locks (world s) l) = t"
    and k: "lockval k = (if c = 0 then 0 else t)" "lcount k = c"
    and w: "sch_active w" "locks w = (locks (world s))(l := k)"
      "abortlevel w = (abortlevel (world s))(t := abortlevel (world s) t + d)"
    and d: "d = (if l = SchLock then 0 else int c - int (held s t l)) + credit (parked s t) - credit p"
    and pos: "0 \<le> abortlevel (world s) t + d"
  shows "lk_inv N (s\<lparr>world := w, held := (held s)(t := (held s t)(l := c)), parked := (parked s)(t := p)\<rparr>)"
proof -
  have h: "held s u m = (if u \<noteq> 0 \<and> lockval (locks (world s) m) = u then lcount (locks (world s) m) else 0)"
    for u m using inv by (simp add: lk_inv_def)
  have a: "abortlevel (world s) u = int (base_level s u + klocks_held N (held s) u) - credit (parked s u)"
    for u using inv by (simp add: lk_inv_def sleep_credit_eq)
  have "abortlevel w u = int (base_level s u + klocks_held N ((held s)(t := (held s t)(l := c))) u)
      - credit (((parked s)(t := p)) u)" for u
  proof (cases "u = t")
    case True
    then show ?thesis
      using a [of t] w(3) d l klocks_held_ge [OF l, of "held s" t]
      by (cases l) (simp_all add: klocks_held_upd)
  next
    case False
    then show ?thesis using a [of u] w(3) by (simp add: klocks_held_upd split: lockid.split)
  qed
  moreover have "((held s)(t := (held s t)(l := c))) u m
      = (if u \<noteq> 0 \<and> lockval (locks w m) = u then lcount (locks w m) else 0)" for u m
    using h [of u m] own t k w(2) by auto
  moreover have "lockval (locks w m) = 0 \<longleftrightarrow> lcount (locks w m) = 0" for m
    using inv k t w(2) by (simp add: lk_inv_def)
  moreover have "0 \<le> abortlevel (world s) u" for u
    using inv unfolding lk_inv_def by blast
  then have "0 \<le> abortlevel w u" for u
    using w(3) pos by simp
  ultimately show ?thesis
    using w(1) by (simp add: lk_inv_def sleep_credit_eq)
qed

lemma abortable_cur:
  "current_thread_id w = t \<Longrightarrow> 0 \<le> abortlevel w t \<Longrightarrow>
   sch_abortable False t w = w\<lparr>abortlevel := (abortlevel w)(t := abortlevel w t + 1)\<rparr>"
  "current_thread_id w = t \<Longrightarrow> 0 < abortlevel w t \<Longrightarrow>
   sch_abortable True t w = w\<lparr>abortlevel := (abortlevel w)(t := abortlevel w t - 1)\<rparr>"
  by (simp_all add: sch_abortable_def Let_def)

lemma upd_lock_simps [simp]:
  "locks (upd_lock l f w) = (locks w)(l := f (locks w l))"
  "abortlevel (upd_lock l f w) = abortlevel w" "sch_active (upd_lock l f w) = sch_active w"
  "current_thread_id (upd_lock l f w) = current_thread_id w"
  "thread_ids (upd_lock l f w) = thread_ids w" "sch_deferred (upd_lock l f w) = sch_deferred w"
  by (simp_all add: upd_lock_def)

lemma run_as_simps [simp]:
  "locks (run_as t w) = locks w" "abortlevel (run_as t w) = abortlevel w"
  "sch_active (run_as t w) = sch_active w" "current_thread_id (run_as t w) = t"
  "thread_ids (run_as t w) = thread_ids w" "sch_deferred (run_as t w) = sch_deferred w"
  by (simp_all add: run_as_def)

lemma sch_yield_point_simps [simp]:
  "locks (sch_yield_point w) = locks w" "abortlevel (sch_yield_point w) = abortlevel w"
  "sch_active (sch_yield_point w) = sch_active w" "current_thread_id (sch_yield_point w) = current_thread_id w"
  by (simp_all add: sch_yield_point_def)

text \<open>What a successful acquisition does to the lock and to the abort level.\<close>

definition acquired_as :: "lockid \<Rightarrow> u64 \<Rightarrow> nat \<Rightarrow> lworld \<Rightarrow> lworld \<Rightarrow> bool" where
  "acquired_as l t c w w' \<longleftrightarrow>
     sch_active w' \<and> (\<forall>m. m \<noteq> l \<longrightarrow> locks w' m = locks w m)
     \<and> lockval (locks w' l) = t \<and> lcount (locks w' l) = c
     \<and> abortlevel w' = (abortlevel w)(t := abortlevel w t + (if l = SchLock then 0 else 1))"

lemma lock_abortable_up:
  assumes "current_thread_id w = t" and "0 \<le> abortlevel w t"
  shows "lock_abortable l False t w
     = w\<lparr>abortlevel := (abortlevel w)(t := abortlevel w t + (if l = SchLock then 0 else 1))\<rparr>"
  using assms by (simp add: lock_abortable_def abortable_cur)

lemma take_loop_cases:
  assumes act: "sch_active w" and cur: "current_thread_id w = t" and t: "t \<noteq> 0"
    and other: "lockval (locks w l) \<noteq> t" and z: "lockval (locks w l) = 0 \<longrightarrow> lcount (locks w l) = 0"
    and pos: "0 \<le> abortlevel w t" and out: "take_loop l exclusive t w = Inr out"
  shows "(\<exists>w'. lockval (locks w l) = 0 \<and> out = Acquired w' \<and> acquired_as l t 1 w w')
    \<or> (\<exists>w'. lockval (locks w l) \<noteq> 0 \<and> l \<noteq> SchLock \<and> out = Parked (abortlevel w t \<noteq> 0) w' \<and> sch_active w'
        \<and> locks w' = (locks w)(l := (locks w l)\<lparr>waiting := True\<rparr>)
        \<and> abortlevel w' = (abortlevel w)(t := abortlevel w t - (if abortlevel w t \<noteq> 0 then 1 else 0)))"
proof (cases "lockval (locks w l) = 0")
  case True
  with act cur t z pos out show ?thesis
    by (auto simp: take_loop_def take_acquired_def Let_def lock_abortable_up acquired_as_def
        split: if_splits)
next
  case False
  with act cur t other pos out show ?thesis
    by (auto simp: take_loop_def sch_setblock_lock_def lock_blockcheck_def Let_def abortable_cur
        fun_eq_iff split: if_splits)
qed
lemma lk_inv_facts:
  assumes "lk_inv N s"
  shows "sch_active (world s)" "lockval (locks (world s) l) = 0 \<longleftrightarrow> lcount (locks (world s) l) = 0"
    "held s t l = (if t \<noteq> 0 \<and> lockval (locks (world s) l) = t then lcount (locks (world s) l) else 0)"
    "0 \<le> abortlevel (world s) t"
    "abortlevel (world s) t = int (base_level s t + klocks_held N (held s) t) - credit (parked s t)"
  using assms unfolding lk_inv_def sleep_credit_eq by blast+

lemma lk_inv_acquired:
  assumes inv: "lk_inv N s" and t: "t \<noteq> 0" and l: "lock_exists N l"
    and own: "lockval (locks (world s) l) = 0 \<or> lockval (locks (world s) l) = t"
    and acq: "acquired_as l t (Suc (held s t l)) w w'"
    and w: "locks w = locks (world s)" "abortlevel w = (abortlevel (world s))
       (t := abortlevel (world s) t + credit (parked s t))"
  shows "lk_inv N (s\<lparr>world := w', held := held_add t l (held s), parked := (parked s)(t := None)\<rparr>)"
proof -
  let ?k = "locks w' l"
  have k: "locks w' = (locks w)(l := ?k)" "lockval ?k = t" "lcount ?k = Suc (held s t l)"
    and a: "sch_active w'" "abortlevel w' = (abortlevel w)(t := abortlevel w t + (if l = SchLock then 0 else 1))"
    using acq by (auto simp: acquired_as_def fun_eq_iff)
  have "0 \<le> abortlevel (world s) t" using lk_inv_facts(4) [OF inv] .
  then show ?thesis unfolding held_add_def
    by (intro lk_inv_change [OF inv t l own, of ?k _ w'
          "credit (parked s t) + (if l = SchLock then 0 else 1)" None])
      (use k a w t credit_nonneg [of "parked s t"] in \<open>simp_all add: add.assoc\<close>)
qed

lemma lk_inv_parked:
  assumes inv: "lk_inv N s" and t: "t \<noteq> 0" and l: "lock_exists N l"
    and own: "lockval (locks (world s) l) \<noteq> 0" "lockval (locks (world s) l) \<noteq> t" and none: "parked s t = None"
    and w': "sch_active w'" "locks w' = (locks (world s))(l := (locks (world s) l)\<lparr>waiting := True\<rparr>)"
      "abortlevel w' = (abortlevel (world s))
         (t := abortlevel (world s) t - (if abortlevel (world s) t \<noteq> 0 then 1 else 0))"
  shows "lk_inv N (s\<lparr>world := w', parked := (parked s)(t := Some (l, exclusive, abortlevel (world s) t \<noteq> 0))\<rparr>)"
proof -
  let ?p = "Some (l, exclusive, abortlevel (world s) t \<noteq> 0)"
  have c: "credit ?p = (if abortlevel (world s) t \<noteq> 0 then 1 else 0)" by simp
  have a: "abortlevel w' u = int (base_level s u + klocks_held N (held s) u) - credit (((parked s)(t := ?p)) u)"
    for u using lk_inv_facts(5) [OF inv, of u] w'(3) c none by (cases "u = t") simp_all
  have "0 \<le> abortlevel w' u" for u
    using lk_inv_facts(4) [OF inv, of u] w'(3) by (cases "u = t") simp_all
  moreover have "lockval (locks w' m) = 0 \<longleftrightarrow> lcount (locks w' m) = 0" for m
    using lk_inv_facts(2) [OF inv] w'(2) by simp
  moreover have "held s u m = (if u \<noteq> 0 \<and> lockval (locks w' m) = u then lcount (locks w' m) else 0)" for u m
    using lk_inv_facts(3) [OF inv, of u m] w'(2) by simp
  ultimately show ?thesis using a w'(1) by (simp add: lk_inv_def sleep_credit_eq)
qed

lemma lk_inv_take_loop:
  assumes inv: "lk_inv N s" and t: "t \<noteq> 0" and l: "lock_exists N l" and none: "parked s t = None"
    and other: "lockval (locks (world s) l) \<noteq> t"
    and out: "take_loop l exclusive t (run_as t (world s)) = Inr out"
  shows "lk_inv N (after_take t l exclusive out s)"
proof -
  note f = lk_inv_facts [OF inv]
  have h: "held s t l = 0" using f(3) [of t l] other by simp
  from take_loop_cases [OF _ _ t _ _ _ out]
  consider w' where "lockval (locks (world s) l) = 0" "out = Acquired w'"
      "acquired_as l t 1 (run_as t (world s)) w'"
    | w' where "lockval (locks (world s) l) \<noteq> 0"
        "out = Parked (abortlevel (world s) t \<noteq> 0) w'" "sch_active w'"
        "locks w' = (locks (world s))(l := (locks (world s) l)\<lparr>waiting := True\<rparr>)"
        "abortlevel w' = (abortlevel (world s))
           (t := abortlevel (world s) t - (if abortlevel (world s) t \<noteq> 0 then 1 else 0))"
    using f(1,2,4) other by auto
  then show ?thesis
  proof cases
    case 1
    then show ?thesis
      using lk_inv_acquired [OF inv t l, of "run_as t (world s)" w'] h none
      by (simp add: after_take_def)
  next
    case 2
    then show ?thesis
      using lk_inv_parked [OF inv t l _ other none, of w' exclusive] by (simp add: after_take_def)
  qed
qed
lemma take_recursive_nested:
  assumes "sch_active w" and "current_thread_id w = t" and "t \<noteq> 0" and "lockval (locks w l) = t"
    and "0 \<le> abortlevel w t"
  shows "\<exists>w'. take_lock_recursive l t w = Inr (Acquired w') \<and> acquired_as l t (Suc (lcount (locks w l))) w w'"
    and "\<exists>w'. try_take_lock_recursive l t w = Inr (True, w') \<and> acquired_as l t (Suc (lcount (locks w l))) w w'"
  using assms
  by (auto simp: take_lock_recursive_def try_take_lock_recursive_def lock_abortable_up acquired_as_def)

lemma try_take_cases:
  assumes act: "sch_active w" and cur: "current_thread_id w = t" and t: "t \<noteq> 0"
    and other: "lockval (locks w l) \<noteq> t" and z: "lockval (locks w l) = 0 \<longrightarrow> lcount (locks w l) = 0"
    and pos: "0 \<le> abortlevel w t"
  shows "kbind (try_take_cas l t w) (\<lambda>(ret, w'). try_take_check l ret w') = Inr (ret, w') \<longleftrightarrow>
     (if lockval (locks w l) = 0 then ret \<and> w' = lock_abortable l False t
            (upd_lock l (lcount_update Suc) (upd_lock l (lockval_update (\<lambda>_. t)) w))
      else \<not> ret \<and> w' = w)"
    and "lockval (locks w l) = 0 \<Longrightarrow> acquired_as l t 1 w (lock_abortable l False t
            (upd_lock l (lcount_update Suc) (upd_lock l (lockval_update (\<lambda>_. t)) w)))"
  using assms
  by (auto simp: try_take_cas_def try_take_check_def Let_def lock_abortable_up acquired_as_def)

lemma lk_inv_run_as: "lk_inv N (s\<lparr>world := run_as t (world s)\<rparr>) = lk_inv N s"
  by (cases s) (simp only: lk_inv_def sleep_credit_def lsys.simps run_as_simps)

lemma lk_inv_try:
  assumes inv: "lk_inv N s" and r: "runnable t s" and l: "lock_exists N l"
    and out: "try_take_lock_exclusive l t (run_as t (world s)) = Inr (ret, w)
            \<or> try_take_lock_recursive l t (run_as t (world s)) = Inr (ret, w)"
  shows "lk_inv N (s\<lparr>world := w, held := if ret then held_add t l (held s) else held s\<rparr>)"
proof -
  note f = lk_inv_facts [OF inv]
  have t: "t \<noteq> 0" and none: "parked s t = None" using r by (auto simp: runnable_def)
  have id: "s\<lparr>parked := (parked s)(t := None)\<rparr> = s" using none by (simp add: fun_upd_idem)
  let ?w = "run_as t (world s)"
  have acq: "lk_inv N (s\<lparr>world := w', held := held_add t l (held s)\<rparr>)"
    if "acquired_as l t (Suc (held s t l)) ?w w'"
      "lockval (locks (world s) l) = 0 \<or> lockval (locks (world s) l) = t" for w'
    using lk_inv_acquired [OF inv t l that(2,1)] none id by (simp add: fun_upd_idem)
  show ?thesis
  proof (cases "lockval (locks (world s) l) = t")
    case True
    then have h: "held s t l = lcount (locks ?w l)" using f(3) [of t l] t by simp
    from out show ?thesis
    proof
      assume "try_take_lock_exclusive l t ?w = Inr (ret, w)"
      then show ?thesis
        using True t f(1) lk_inv_run_as [of N t s] inv by (auto simp: try_take_lock_exclusive_def)
    next
      assume "try_take_lock_recursive l t ?w = Inr (ret, w)"
      then show ?thesis
        using take_recursive_nested(2) [of ?w t l] True t f(1) f(4) acq [of w] h by auto
    qed
  next
    case False
    have eq: "kbind (try_take_cas l t ?w) (\<lambda>(ret, w'). try_take_check l ret w') = Inr (ret, w)"
      using out False t f(1) by (auto simp: try_take_lock_exclusive_def try_take_lock_recursive_def)
    have h: "held s t l = 0" using f(3) [of t l] False by simp
    show ?thesis
    proof (cases "lockval (locks (world s) l) = 0")
      case True
      with eq try_take_cases(1) [of ?w t l ret w] try_take_cases(2) [of ?w t l] False t f(1) f(2) [of l] f(4) acq [of w] h show ?thesis by auto
    next
      case nz: False
      with eq try_take_cases(1) [of ?w t l ret w] False t f(1) f(2) [of l] f(4) lk_inv_run_as [of N t s] inv
      show ?thesis by auto
    qed
  qed
qed
lemma release_effect:
  assumes act: "sch_active w" and cur: "current_thread_id w = t" and t: "t \<noteq> 0"
    and rel: "release_lock l t w = Inr w'"
    and lvl: "l \<noteq> SchLock \<Longrightarrow> 0 < abortlevel w t"
  shows "lockval (locks w l) = t" and "0 < lcount (locks w l)" and "sch_active w'"
    and "\<exists>k. locks w' = (locks w)(l := k) \<and> lcount k = lcount (locks w l) - 1
          \<and> lockval k = (if lcount k = 0 then 0 else t)"
    and "abortlevel w' = (abortlevel w)(t := abortlevel w t - (if l = SchLock then 0 else 1))"
proof -
  show own: "lockval (locks w l) = t" and n: "0 < lcount (locks w l)"
    using rel act by (auto simp: release_lock_def split: if_splits)
  define w2 where "w2 = release_last l t (upd_lock l (lcount_update (\<lambda>n. n - 1)) w)"
  define w3 where "w3 = lock_abortable l True (current_thread_id w2) w2"
  have w': "w' = (if sch_deferred w3 then sch_yield_point w3 else w3)"
    using rel act own n by (auto simp: release_lock_def Let_def w2_def w3_def)
  have c2: "current_thread_id w2 = t" "sch_active w2" "abortlevel w2 = abortlevel w"
    using cur act by (simp_all add: w2_def release_last_def Let_def)
  have l2: "locks w2 = (locks w)(l := locks w2 l)" "lcount (locks w2 l) = lcount (locks w l) - 1"
      "lockval (locks w2 l) = (if lcount (locks w2 l) = 0 then 0 else t)"
    using own n by (auto simp: w2_def release_last_def Let_def)
  have w3: "w3 = w2\<lparr>abortlevel := (abortlevel w2)(t := abortlevel w2 t - (if l = SchLock then 0 else 1))\<rparr>"
    using c2 lvl abortable_cur(2) [of w2 t] by (simp add: w3_def lock_abortable_def)
  have w'3: "locks w' = locks w3" "sch_active w' = sch_active w3" "abortlevel w' = abortlevel w3"
    using w' by simp_all
  show "sch_active w'" "abortlevel w' = (abortlevel w)(t := abortlevel w t - (if l = SchLock then 0 else 1))"
    using w'3 w3 c2 by simp_all
  show "\<exists>k. locks w' = (locks w)(l := k) \<and> lcount k = lcount (locks w l) - 1
          \<and> lockval k = (if lcount k = 0 then 0 else t)"
    using w'3 w3 l2 by (intro exI [of _ "locks w2 l"]) simp
qed

lemma lk_inv_release:
  assumes inv: "lk_inv N s" and t: "t \<noteq> 0" and l: "lock_exists N l"
    and p: "parked s t = None \<or> l = SchLock"
    and rel: "release_lock l t (run_as t (world s)) = Inr w"
  shows "lk_inv N (s\<lparr>world := w, held := held_sub t l (held s)\<rparr>)"
proof -
  note f = lk_inv_facts [OF inv]
  have own: "lockval (locks (world s) l) = t" "0 < lcount (locks (world s) l)"
    using rel f(1) by (auto simp: release_lock_def split: if_splits)
  have h: "held s t l = lcount (locks (world s) l)" using f(3) [of t l] own t by simp
  have lvl: "0 < abortlevel (world s) t" if "l \<noteq> SchLock"
    using f(5) [of t] klocks_held_ge [OF l that, of "held s" t] h own p that by simp
  note r = release_effect [OF _ _ t rel, simplified, OF f(1) lvl]
  obtain k where k: "locks w = (locks (world s))(l := k)" "lcount k = lcount (locks (world s) l) - 1"
      "lockval k = (if lcount k = 0 then 0 else t)"
    using r(4) by auto
  have "lk_inv N (s\<lparr>world := w, held := (held s)(t := (held s t)(l := held s t l - 1)),
      parked := (parked s)(t := parked s t)\<rparr>)"
    by (rule lk_inv_change [OF inv t l _ _ _ r(3) k(1), where d = "- (if l = SchLock then 0 else 1)"])
      (use k h own lvl r(5) f(4) [of t] in auto)
  then show ?thesis by (simp add: held_sub_def)
qed
lemma lk_inv_resume:
  assumes inv: "lk_inv N s" and t: "t \<noteq> 0" and l: "lock_exists N l"
    and p: "parked s t = Some (l, exclusive, changed)" and free: "lockval (locks (world s) l) = 0"
  shows "\<exists>w. take_resume l exclusive changed t (run_as t (world s)) = Inr (Acquired w)
    \<and> lk_inv N (after_take t l exclusive (Acquired w) s)"
proof -
  note f = lk_inv_facts [OF inv]
  let ?w = "if changed then sch_abortable False t (run_as t (world s)) else run_as t (world s)"
  have w: "locks ?w = locks (world s)" "sch_active ?w" "current_thread_id ?w = t"
      "abortlevel ?w = (abortlevel (world s))(t := abortlevel (world s) t + credit (parked s t))"
    using f(1,4) p by (simp_all add: abortable_cur fun_eq_iff)
  have z: "lcount (locks (world s) l) = 0" using f(2) [of l] free by simp
  have h: "held s t l = 0" using f(3) [of t l] free t by simp
  have pos: "0 \<le> abortlevel ?w t" using w(4) f(4) [of t] credit_nonneg [of "parked s t"] by simp
  obtain w' where w': "take_loop l exclusive t ?w = Inr (Acquired w')"
    using w free z t by (auto simp: take_loop_def take_acquired_def Let_def)
  with take_loop_cases [OF w(2,3) t _ _ pos w'] w free z t
  have acq: "acquired_as l t (Suc (held s t l)) ?w w'" using h by auto
  have "lk_inv N (s\<lparr>world := w', held := held_add t l (held s), parked := (parked s)(t := None)\<rparr>)"
    by (rule lk_inv_acquired [OF inv t l _ acq w(1,4)]) (simp add: free)
  then show ?thesis using w' by (intro exI [of _ w']) (auto simp: take_resume_def after_take_def)
qed

lemma lk_inv_switch:
  assumes inv: "lk_inv N s" and t: "t \<noteq> 0" and u: "u \<noteq> 0"
    and tr: "lock_transfer SchLock u t (run_as t (world s)) = Inr w"
  shows "lk_inv N (s\<lparr>world := run_as u w,
       held := (held s)(t := (held s t)(SchLock := 0), u := (held s u)(SchLock := held s t SchLock))\<rparr>)"
proof -
  note f = lk_inv_facts [OF inv]
  let ?h = "(held s)(t := (held s t)(SchLock := 0), u := (held s u)(SchLock := held s t SchLock))"
  have own: "lockval (locks (world s) SchLock) = t"
    and w: "w = upd_lock SchLock (lockval_update (\<lambda>_. u)) (run_as t (world s))"
    using tr by (auto simp: lock_transfer_def lock_abortable_def Let_def split: if_splits)
  have k: "klocks_held N ?h v = klocks_held N (held s) v" for v
    by (auto simp: klocks_held_def intro!: sum.cong)
  have "?h v m = (if v \<noteq> 0 \<and> lockval (locks w m) = v then lcount (locks w m) else 0)" for v m
    using f(3) [of v m] f(3) [of t SchLock] own t u w by (cases m) auto
  moreover have "lockval (locks w m) = 0 \<longleftrightarrow> lcount (locks w m) = 0" for m
    using f(2) [of m] own t u w by (cases m) auto
  moreover have "abortlevel w = abortlevel (world s)" "sch_active w = sch_active (world s)" using w by simp_all
  ultimately show ?thesis using f(1,4,5) k by (simp add: lk_inv_def sleep_credit_eq)
qed

lemma lk_inv_base:
  assumes inv: "lk_inv N s" and none: "parked s t = None"
  shows "lk_inv N (s\<lparr>world := sch_abortable False t (run_as t (world s)),
                    base_level := (base_level s)(t := Suc (base_level s t))\<rparr>)"
    and "0 < base_level s t \<Longrightarrow>
         lk_inv N (s\<lparr>world := sch_abortable True t (run_as t (world s)),
                    base_level := (base_level s)(t := base_level s t - 1)\<rparr>)"
  using lk_inv_facts [OF inv] none
  by (simp_all add: lk_inv_def sleep_credit_eq abortable_cur)

lemma lk_inv_step:
  assumes "lk_step N s s'" and inv: "lk_inv N s"
  shows "lk_inv N s'"
  using assms(1)
proof cases
  case (step_exclusive t l out)
  then have "take_loop l True t (run_as t (world s)) = Inr out" "lockval (locks (world s) l) \<noteq> t"
    using lk_inv_facts(1) [OF inv] by (auto simp: take_lock_exclusive_def runnable_def split: if_splits)
  then show ?thesis using step_exclusive lk_inv_take_loop [OF inv] by (simp add: runnable_def)
next
  case (step_recursive t l out)
  note f = lk_inv_facts [OF inv]
  have t: "t \<noteq> 0" and none: "parked s t = None" using step_recursive by (auto simp: runnable_def)
  show ?thesis
  proof (cases "lockval (locks (world s) l) = t")
    case True
    then obtain w' where w': "out = Acquired w'"
      "acquired_as l t (Suc (lcount (locks (world s) l))) (run_as t (world s)) w'"
      using take_recursive_nested(1) [of "run_as t (world s)" t l] t f(1,4) step_recursive(4) by auto
    moreover have "held s t l = lcount (locks (world s) l)" using True t f(3) [of t l] by simp
    ultimately show ?thesis
      using lk_inv_acquired [OF inv t step_recursive(3), of "run_as t (world s)" w'] True none step_recursive(1)
      by (simp add: after_take_def)
  next
    case False
    then have "take_loop l False t (run_as t (world s)) = Inr out"
      using step_recursive t f(1) by (auto simp: take_lock_recursive_def)
    then show ?thesis using step_recursive lk_inv_take_loop [OF inv t _ none False] by simp
  qed
next
  case (step_resume t l exclusive changed out)
  then show ?thesis
    using lk_inv_resume [OF inv, of t l exclusive changed] by (auto simp: lock_blockcheck_def)
qed (use inv lk_inv_try lk_inv_release lk_inv_switch lk_inv_base in \<open>auto simp: runnable_def\<close>)

lemma lk_reach_inv: "lk_reach N s \<Longrightarrow> lk_inv N s"
  by (induction rule: lk_reach.induct) (auto intro: lk_inv_init lk_inv_step)
section \<open>Scoped locking\<close>

text \<open>
  \<^verbatim>\<open>hold_lock\<close>: the constructor takes the lock, the destructor releases it at the end
  of the block, also when the block returns early. A body may not see the lock state change.
\<close>

definition hold_lock :: "lockid \<Rightarrow> bool \<Rightarrow> u64 \<Rightarrow> ('s \<Rightarrow> 'a \<times> 's) \<Rightarrow> lworld \<times> 's \<Rightarrow> ('a \<times> lworld \<times> 's) kres" where
  "hold_lock l exclusive thread body ws =
     (case ws of (w, s) \<Rightarrow>
        kbind (if exclusive then take_lock_exclusive l thread w else take_lock_recursive l thread w)
          (\<lambda>out. case out of
             Parked _ _ \<Rightarrow> Inl WouldBlock
           | Acquired w1 \<Rightarrow>
               (case body s of (r, s') \<Rightarrow>
                  kbind (release_lock l thread w1) (\<lambda>w2. Inr (r, w2, s')))))"

definition lock_free :: "lockid \<Rightarrow> u64 \<Rightarrow> lworld \<Rightarrow> bool" where
  "lock_free l t w \<longleftrightarrow> sch_active w \<and> current_thread_id w = t \<and> t \<noteq> 0 \<and> 0 \<le> abortlevel w t
     \<and> lockval (locks w l) = 0 \<and> lcount (locks w l) = 0"

lemma take_free:
  assumes "lock_free l t w"
  shows "take_lock_exclusive l t w = Inr (Acquired (lock_abortable l False t
           (w\<lparr>locks := (locks w)(l := \<lparr>lockval = t, lcount = 1, waiting = False\<rparr>)\<rparr>)))"
proof -
  have "upd_lock l (lcount_update Suc) (upd_lock l (waiting_update (\<lambda>_. False)) (upd_lock l (lockval_update (\<lambda>_. t)) w))
      = w\<lparr>locks := (locks w)(l := \<lparr>lockval = t, lcount = 1, waiting = False\<rparr>)\<rparr>"
    using assms by (cases "locks w l") (simp add: upd_lock_def lock_free_def)
  then show ?thesis
    using assms by (simp add: take_lock_exclusive_def take_loop_def take_acquired_def Let_def lock_free_def)
qed

lemma hold_lock_free:
  assumes free: "lock_free l t w" and body: "body s = (r, s')"
  shows "\<exists>w'. hold_lock l True t body (w, s) = Inr (r, w', s') \<and> lock_free l t w'
     \<and> abortlevel w' = abortlevel w \<and> (\<forall>m. m \<noteq> l \<longrightarrow> locks w' m = locks w m)"
proof -
  define w2 where "w2 = lock_abortable l False t
    (w\<lparr>locks := (locks w)(l := \<lparr>lockval = t, lcount = 1, waiting = False\<rparr>)\<rparr>)"
  have w2: "locks w2 = (locks w)(l := \<lparr>lockval = t, lcount = 1, waiting = False\<rparr>)" "sch_active w2"
      "current_thread_id w2 = t"
      "abortlevel w2 = (abortlevel w)(t := abortlevel w t + (if l = SchLock then 0 else 1))"
    using free by (simp_all add: w2_def lock_abortable_up lock_free_def)
  then obtain w' where rel: "release_lock l t w2 = Inr w'"
    by (auto simp: release_lock_def Let_def)
  have cur': "current_thread_id w' = t"
    using rel w2 by (auto simp: release_lock_def release_last_def Let_def lock_abortable_def
        sch_abortable_def split: if_splits)
  have t: "t \<noteq> 0" and pos: "l \<noteq> SchLock \<Longrightarrow> 0 < abortlevel w2 t" using free w2 by (auto simp: lock_free_def)
  note e = release_effect [OF w2(2,3) t rel pos]
  have "sch_active w'" "abortlevel w' = abortlevel w" "\<forall>m. m \<noteq> l \<longrightarrow> locks w' m = locks w m"
      "lockval (locks w' l) = 0" "lcount (locks w' l) = 0"
    using e(3) e(4) e(5) w2 by auto
  then show ?thesis
    using free cur' rel body take_free [OF free] by (auto simp: hold_lock_def lock_free_def w2_def)
qed

text \<open>
  A run of two threads that the examples below refer to: thread 1 takes a lock, thread 2 is parked
  on it, thread 1 releases it.
\<close>

lemma example_run:
  "\<exists>s1 s2. lk_reach 1 s1 \<and> held s1 1 (KLock 0) = 1 \<and> parked s1 1 = None
     \<and> lk_reach 1 s2 \<and> parked s2 2 = Some (KLock 0, True, True) \<and> lockval (locks (world s2) (KLock 0)) = 0"
proof -
  let ?s0 = "lk_init [1, 2] (\<lambda>_. 1)"
  let ?take = "\<lambda>t s. take_lock_exclusive (KLock 0) t (run_as t (world s))"
  obtain w1 where w1: "?take 1 ?s0 = Inr (Acquired w1)" "locks w1 (KLock 0) = \<lparr>lockval = 1, lcount = 1, waiting = False\<rparr>"
      "locks w1 SchLock = init_lock" "sch_active w1" "thread_ids w1 = [1, 2]" "abortlevel w1 2 = 1"
    by (auto simp: take_lock_exclusive_def take_loop_def take_acquired_def Let_def lk_init_def init_lock_def
        lock_abortable_def sch_abortable_def)
  define s1 where "s1 = after_take 1 (KLock 0) True (Acquired w1) ?s0"
  have r1: "lk_reach 1 s1" unfolding s1_def
    by (rule reach_step [OF reach_init step_exclusive]) (use w1 in \<open>auto simp: runnable_def lk_init_def\<close>)
  have s1: "held s1 1 (KLock 0) = 1" "parked s1 = (\<lambda>_. None)" "world s1 = w1"
    by (auto simp: s1_def after_take_def lk_init_def held_add_def)
  obtain w2 where w2: "?take 2 s1 = Inr (Parked True w2)"
      "locks w2 (KLock 0) = \<lparr>lockval = 1, lcount = 1, waiting = True\<rparr>" "sch_active w2" "thread_ids w2 = [1, 2]"
    using w1 s1 by (auto simp: take_lock_exclusive_def take_loop_def sch_setblock_lock_def lock_blockcheck_def
        Let_def init_lock_def sch_abortable_def)
  define s2 where "s2 = after_take 2 (KLock 0) True (Parked True w2) s1"
  have r2: "lk_reach 1 s2" unfolding s2_def
    by (rule reach_step [OF r1 step_exclusive]) (use w1 w2 s1 in \<open>auto simp: runnable_def\<close>)
  have s2: "parked s2 = (\<lambda>_. None)(2 := Some (KLock 0, True, True))" "world s2 = w2"
    using s1 by (auto simp: s2_def after_take_def)
  obtain w3 where w3: "release_lock (KLock 0) 1 (run_as 1 (world s2)) = Inr w3" "lockval (locks w3 (KLock 0)) = 0"
    using w2 s2 by (auto simp: release_lock_def release_last_def Let_def lock_abortable_def sch_abortable_def)
  let ?s3 = "s2\<lparr>world := w3, held := held_sub 1 (KLock 0) (held s2)\<rparr>"
  have "lk_reach 1 ?s3"
    by (rule reach_step [OF r2 step_release]) (use w2 w3 s2 in auto)
  then show ?thesis using r1 s1 s2 w3 by (intro exI [of _ s1] exI [of _ ?s3]) auto
qed

section \<open>Properties\<close>

text \<open>
  (C1) Mutual exclusion. In every state the threads can reach by taking (blocking or not,
  exclusively or recursively), releasing, parking, resuming and switching, a lock that one thread
  has taken and not yet given back belongs to that thread and is not held by any other.
\<close>

theorem lock_mutual_exclusion:
  assumes "lk_reach N s" and "0 < held s t l"
  shows "get_lock_owner l (world s) = t \<and> (0 < held s u l \<longrightarrow> u = t)"
  using lk_inv_facts(3) [OF lk_reach_inv [OF assms(1)], of t l]
    lk_inv_facts(3) [OF lk_reach_inv [OF assms(1)], of u l] assms(2)
  by (auto simp: get_lock_owner_def split: if_splits)

theorem lock_mutual_exclusion_witness:
  "\<exists>s :: lsys. 0 < held s 1 (KLock 0) \<and> get_lock_owner (KLock 0) (world s) = 1 \<and> held s 2 (KLock 0) = 0"
proof -
  obtain s where s: "lk_reach 1 s" "0 < held s 1 (KLock 0)" using example_run by fastforce
  from lock_mutual_exclusion [OF this, of 2] show ?thesis using s(2) by auto
qed



text \<open>
  (C20) The lock discipline never panics and no wake-up is lost: a thread that has taken a lock can
  release it, and a parked thread whose lock has become free acquires it when it runs.
\<close>

theorem lock_progress:
  assumes "lk_reach N s" and "t \<noteq> 0" and "lock_exists N l"
  shows "(0 < held s t l \<longrightarrow> (\<exists>w. release_lock l t (run_as t (world s)) = Inr w))
     \<and> (parked s t = Some (l, exclusive, changed) \<and> fst (lock_blockcheck l (world s)) \<longrightarrow>
          (\<exists>w. take_resume l exclusive changed t (run_as t (world s)) = Inr (Acquired w)))"
proof -
  note inv = lk_reach_inv [OF assms(1)]
  have "\<exists>w. release_lock l t (run_as t (world s)) = Inr w" if "0 < held s t l"
    using that lk_inv_facts(1) [OF inv] lk_inv_facts(3) [OF inv, of t l]
    by (auto simp: release_lock_def Let_def split: if_splits)
  moreover have "\<exists>w. take_resume l exclusive changed t (run_as t (world s)) = Inr (Acquired w)"
    if "parked s t = Some (l, exclusive, changed)" "fst (lock_blockcheck l (world s))"
    using lk_inv_resume [OF inv assms(2,3) that(1)] that(2) by (auto simp: lock_blockcheck_def)
  ultimately show ?thesis by blast
qed

theorem lock_progress_witness:
  "\<exists>s :: lsys. parked s 2 = Some (KLock 0, True, True)
     \<and> (\<exists>w. take_resume (KLock 0) True True 2 (run_as 2 (world s)) = Inr (Acquired w))"
proof -
  obtain s where s: "lk_reach 1 s" "parked s 2 = Some (KLock 0, True, True)"
      "lockval (locks (world s) (KLock 0)) = 0"
    using example_run by blast
  from lock_progress [OF s(1), of 2 "KLock 0" True True] show ?thesis
    using s(2,3) by (auto simp: lock_blockcheck_def)
qed

text \<open>
  (C35) The non-blocking acquisition can panic for no fault of its caller: if the owner releases the
  lock between the failed compare-and-swap and the final check, the check finds the lock free and
  reports that the lock value is not set.
\<close>

theorem try_take_race:
  assumes "sch_active w" and "lockval (locks w l) = u" and "u \<noteq> 0" and "lcount (locks w l) = 1"
  shows "\<exists>w1. try_take_cas l t w = Inr (False, w1)
     \<and> (\<exists>w2. release_lock l u (run_as u w1) = Inr w2
          \<and> try_take_check l False (run_as t w2) = Inl (Panic ''(LOCK) Lock value not set!''))"
proof -
  have cas: "try_take_cas l t w = Inr (False, w)" using assms by (simp add: try_take_cas_def)
  obtain w2 where "release_lock l u (run_as u w) = Inr w2"
    using assms by (auto simp: release_lock_def Let_def)
  moreover have "lockval (locks w2 l) = 0"
    using calculation assms
    by (auto simp: release_lock_def release_last_def Let_def lock_abortable_def sch_abortable_def split: if_splits)
  ultimately show ?thesis using cas by (auto simp: try_take_check_def)
qed

theorem try_take_race_witness:
  "let w = \<lparr>sch_active = True, locks = (\<lambda>_. init_lock)(KLock 0 := \<lparr>lockval = 1, lcount = 1, waiting = False\<rparr>),
            thread_ids = [1, 2], current_thread_id = 2, abortlevel = (\<lambda>_. 1), sch_deferred = False\<rparr>
   in \<exists>w1. try_take_cas (KLock 0) 2 w = Inr (False, w1)
     \<and> (\<exists>w2. release_lock (KLock 0) 1 (run_as 1 w1) = Inr w2
          \<and> try_take_check (KLock 0) False (run_as 2 w2) = Inl (Panic ''(LOCK) Lock value not set!''))"
  unfolding Let_def by (rule try_take_race) simp_all

end
