(* ===== verification/Registries.thy ===== *)
theory Registries
  imports Locks Ministl Cstring
begin

text \<open>
  The kernel's small shared objects: atoms (\<^verbatim>\<open>kernel/atoms.cpp\<close>), handles
  (\<^verbatim>\<open>kernel/handles.cpp\<close>), kernel variables (\<^verbatim>\<open>kernel/kvars.cpp\<close>),
  extensions (\<^verbatim>\<open>kernel/extensions.cpp\<close>) and devices
  (\<^verbatim>\<open>kernel/drivermgr.cpp\<close>). Atoms and variables run their bodies under the
  \<^verbatim>\<open>hold_lock\<close> of \<open>Locks\<close>; dictionaries are the maps of \<open>Ministl\<close>.
\<close>

section \<open>Atoms\<close>

record bt_atom =
  avalue :: u64
  alk :: lockid

datatype bt_atom_modify = ASet | AAdd | ASubtract | AOr | AAnd

datatype bt_atom_compare = AEqual | ANotEqual | ALessThan | AGreaterThan

definition atom_create :: "lockid \<Rightarrow> u64 \<Rightarrow> lworld \<Rightarrow> lworld \<times> bt_atom" where
  "atom_create l ini_val w = (upd_lock l (\<lambda>_. init_lock) w, \<lparr>avalue = ini_val, alk = l\<rparr>)"

definition atom_destroy :: "u64 \<Rightarrow> lworld \<times> bt_atom \<Rightarrow> lworld kres" where
  "atom_destroy thread wa =
     (case wa of (w, a) \<Rightarrow>
        kbind (take_lock_exclusive (alk a) thread w)
          (\<lambda>out. case out of Parked _ _ \<Rightarrow> Inl WouldBlock
                 | Acquired w1 \<Rightarrow> Inr (sch_abortable True (current_thread_id w1) w1)))"

fun modify_value :: "bt_atom_modify \<Rightarrow> u64 \<Rightarrow> u64 \<Rightarrow> u64" where
  "modify_value ASet value old = value"
| "modify_value AAdd value old = old + value"
| "modify_value ASubtract value old = old - value"
| "modify_value AOr value old = or old value"
| "modify_value AAnd value old = and old value"

fun compare_value :: "bt_atom_compare \<Rightarrow> u64 \<Rightarrow> u64 \<Rightarrow> bool" where
  "compare_value AEqual a v = (a = v)"
| "compare_value ANotEqual a v = (a \<noteq> v)"
| "compare_value ALessThan a v = (a < v)"
| "compare_value AGreaterThan a v = (a > v)"

definition atom_modify :: "bt_atom_modify \<Rightarrow> u64 \<Rightarrow> u64 \<Rightarrow> lworld \<times> bt_atom \<Rightarrow> (u64 \<times> lworld \<times> bt_atom) kres" where
  "atom_modify md value thread wa =
     hold_lock (alk (snd wa)) True thread
       (\<lambda>a. let a' = a\<lparr>avalue := modify_value md value (avalue a)\<rparr> in (avalue a', a')) wa"

definition atom_cmpxchg :: "u64 \<Rightarrow> u64 \<Rightarrow> u64 \<Rightarrow> lworld \<times> bt_atom \<Rightarrow> (u64 \<times> lworld \<times> bt_atom) kres" where
  "atom_cmpxchg cmp xchg thread wa =
     hold_lock (alk (snd wa)) True thread
       (\<lambda>a. let a' = (if avalue a = cmp then a\<lparr>avalue := xchg\<rparr> else a) in (avalue a', a')) wa"

definition atom_read :: "u64 \<Rightarrow> lworld \<times> bt_atom \<Rightarrow> (u64 \<times> lworld \<times> bt_atom) kres" where
  "atom_read thread wa = hold_lock (alk (snd wa)) True thread (\<lambda>a. (avalue a, a)) wa"

definition atom_wait_lockcheck :: "bt_atom_compare \<Rightarrow> u64 \<Rightarrow> u64 \<Rightarrow> lworld \<times> bt_atom \<Rightarrow> (bool \<times> lworld) kres" where
  "atom_wait_lockcheck cmp value thread wa =
     (case wa of (w, a) \<Rightarrow>
        kbind (try_take_lock_exclusive (alk a) thread w)
          (\<lambda>(got, w1). if \<not> got then Inr (False, w1)
             else kbind (release_lock (alk a) thread w1) (\<lambda>w2. Inr (compare_value cmp (avalue a) value, w2))))"

definition atom_wait :: "bt_atom_compare \<Rightarrow> u64 \<Rightarrow> u64 \<Rightarrow> lworld \<times> bt_atom \<Rightarrow> (u64 \<times> lworld \<times> bt_atom) kres" where
  "atom_wait cmp value thread wa =
     kbind (atom_wait_lockcheck cmp value thread wa)
       (\<lambda>(ready, w). if ready then atom_read thread (w, snd wa) else Inl WouldBlock)"

section \<open>Handles\<close>

text \<open>
  A handle's close function is represented by whether it has one; closing returns the values
  passed to it.
\<close>

record 'v bt_handle_info =
  htype :: u32
  hopen :: bool
  hvalue :: 'v
  hclose :: bool

definition create_handle :: "u32 \<Rightarrow> 'v \<Rightarrow> bool \<Rightarrow> 'v bt_handle_info" where
  "create_handle ty value close = \<lparr>htype = ty, hopen = True, hvalue = value, hclose = close\<rparr>"

definition close_handle :: "'v bt_handle_info \<Rightarrow> 'v list \<times> 'v bt_handle_info" where
  "close_handle h = (if hclose h \<and> hopen h then [hvalue h] else [], h\<lparr>hopen := False\<rparr>)"

section \<open>Kernel variables\<close>

type_synonym kvars = "(string \<times> string) list"

definition kvar_lock :: lockid where
  "kvar_lock = KLock 0"

definition set_kvar :: "string \<Rightarrow> string \<Rightarrow> u64 \<Rightarrow> lworld \<times> kvars \<Rightarrow> (unit \<times> lworld \<times> kvars) kres" where
  "set_kvar name value thread = hold_lock kvar_lock True thread (\<lambda>m. ((), map_put name value m))"

definition get_kvar :: "string \<Rightarrow> u64 \<Rightarrow> lworld \<times> kvars \<Rightarrow> (string \<times> lworld \<times> kvars) kres" where
  "get_kvar name thread =
     hold_lock kvar_lock True thread (\<lambda>m. if map_has_key m name then map_index [] name m else ([], m))"

definition is_kvar_set :: "string \<Rightarrow> u64 \<Rightarrow> lworld \<times> kvars \<Rightarrow> (bool \<times> lworld \<times> kvars) kres" where
  "is_kvar_set name thread = hold_lock kvar_lock True thread (\<lambda>m. (map_has_key m name, m))"

section \<open>Extensions\<close>

record 'h kernel_extension =
  ename :: string
  uapi_handler :: "'h option"

type_synonym 'h extensions = "(u16 \<times> 'h kernel_extension) list"

text \<open>
  The search for a free id counts a 16-bit number up from 1 for as long as the id is taken; after
  65536 steps it has seen them all and goes on forever.
\<close>

primrec next_extension_id :: "nat \<Rightarrow> u16 \<Rightarrow> 'h extensions \<Rightarrow> u16 kres" where
  "next_extension_id 0 ret m = Inl Diverges"
| "next_extension_id (Suc fuel) ret m =
     (if map_has_key m ret then next_extension_id fuel (ret + 1) m else Inr ret)"

definition add_extension :: "'h kernel_extension \<Rightarrow> 'h extensions \<Rightarrow> (u16 \<times> 'h extensions) kres" where
  "add_extension ext m =
     kbind (next_extension_id 65536 1 m) (\<lambda>ret. Inr (ret, map_put ret ext m))"

definition get_extension :: "u16 \<Rightarrow> 'h extensions \<Rightarrow> 'h kernel_extension option" where
  "get_extension ext m = (if map_has_key m ext then map_of m ext else None)"

definition get_extension_id :: "string \<Rightarrow> 'h extensions \<Rightarrow> u16" where
  "get_extension_id name m = (case List.find (\<lambda>(_, e). ename e = name) m of Some (i, _) \<Rightarrow> i | None \<Rightarrow> 0)"

datatype 'h ext_call = CallHandler 'h u16 | ReturnEax u32

definition user_call_extension :: "u16 \<Rightarrow> u16 \<Rightarrow> 'h extensions \<Rightarrow> 'h ext_call" where
  "user_call_extension ext_id fn m =
     (case map_of m ext_id of
        Some e \<Rightarrow> (case uapi_handler e of Some h \<Rightarrow> CallHandler h fn | None \<Rightarrow> ReturnEax (- 1))
      | None \<Rightarrow> ReturnEax (- 1))"

section \<open>Devices\<close>

record ('d, 'i) drv_device =
  driver :: 'd
  did :: 'i

type_synonym ('d, 'i) devices = "(string \<times> ('d, 'i) drv_device) list"

text \<open>
  A unique name is the driver's name with a decimal number appended, composed in a buffer of twelve
  characters; the thousand numbers from 0 are tried, then the empty name is returned.
\<close>

fun decimal :: "nat \<Rightarrow> string" where
  "decimal n = (if n < 10 then [char_of (48 + n)] else decimal (n div 10) @ [char_of (48 + n mod 10)])"

declare decimal.simps [simp del]

fun unique_name_loop :: "nat \<Rightarrow> nat \<Rightarrow> string \<Rightarrow> ('d, 'i) devices \<Rightarrow> string kres" where
  "unique_name_loop 0 i name m = Inr []"
| "unique_name_loop (Suc k) i name m =
     (let buf = name @ decimal i
      in if 12 \<le> length buf then Inl OutOfBounds
         else if map_has_key m buf then unique_name_loop k (Suc i) name m
         else Inr buf)"

definition get_unique_name :: "string \<Rightarrow> ('d, 'i) devices \<Rightarrow> string kres" where
  "get_unique_name name m = unique_name_loop 1000 0 name m"

definition drv_add_device :: "string \<Rightarrow> 'd \<Rightarrow> 'i \<Rightarrow> ('d, 'i) devices \<Rightarrow> (string \<times> ('d, 'i) devices) kres" where
  "drv_add_device name drv ident m =
     kbind (get_unique_name name m)
       (\<lambda>sname. Inr (sname, map_put sname \<lparr>driver = drv, did = ident\<rparr> m))"

definition drv_get :: "string \<Rightarrow> ('d, 'i) devices \<Rightarrow> ('d, 'i) drv_device option" where
  "drv_get name m = (if \<not> map_has_key m name then None else map_of m name)"

record ('d, 'n) drv_instance =
  inst_driver :: 'd
  inst_instance :: 'n

definition drv_open :: "('d \<Rightarrow> 'i \<Rightarrow> 'n) \<Rightarrow> string \<Rightarrow> ('d, 'i) devices \<Rightarrow> ('d, 'n) drv_instance option" where
  "drv_open openfn name m =
     (case drv_get name m of
        None \<Rightarrow> None
      | Some d \<Rightarrow> Some \<lparr>inst_driver = driver d, inst_instance = openfn (driver d) (did d)\<rparr>)"

definition drv_get_type :: "('d \<Rightarrow> int) \<Rightarrow> string \<Rightarrow> ('d, 'i) devices \<Rightarrow> int kres" where
  "drv_get_type typefn name m =
     (case drv_get name m of None \<Rightarrow> Inl Undefined | Some d \<Rightarrow> Inr (typefn (driver d)))"

text \<open>
  Iteration hands out the position of an entry; on an empty dictionary the first position is
  already past the end, and its name is read all the same.
\<close>

definition drv_firstdevice :: "('d, 'i) devices \<Rightarrow> (nat \<times> string) kres" where
  "drv_firstdevice m = (if m = [] then Inl OutOfBounds else Inr (0, fst (m ! 0)))"

definition drv_nextdevice :: "nat \<Rightarrow> ('d, 'i) devices \<Rightarrow> (nat \<times> string) option" where
  "drv_nextdevice i m = (if Suc i \<ge> length m then None else Some (Suc i, fst (m ! Suc i)))"

section \<open>Atoms behave as one register\<close>

datatype atom_op = OpModify bt_atom_modify u64 | OpCmpxchg u64 u64 | OpRead

fun atom_apply :: "atom_op \<Rightarrow> u64 \<Rightarrow> lworld \<times> bt_atom \<Rightarrow> (u64 \<times> lworld \<times> bt_atom) kres" where
  "atom_apply (OpModify md v) t wa = atom_modify md v t wa"
| "atom_apply (OpCmpxchg c x) t wa = atom_cmpxchg c x t wa"
| "atom_apply OpRead t wa = atom_read t wa"

text \<open>Operations of several threads, each run by its own thread.\<close>

fun atom_run :: "(u64 \<times> atom_op) list \<Rightarrow> lworld \<times> bt_atom \<Rightarrow> (u64 list \<times> lworld \<times> bt_atom) kres" where
  "atom_run [] wa = Inr ([], wa)"
| "atom_run ((t, p) # ps) wa =
     kbind (atom_apply p t (run_as t (fst wa), snd wa))
       (\<lambda>(r, wa'). kbind (atom_run ps wa') (\<lambda>(rs, wa''). Inr (r # rs, wa'')))"

fun register_step :: "atom_op \<Rightarrow> u64 \<Rightarrow> u64" where
  "register_step (OpModify md v) x = modify_value md v x"
| "register_step (OpCmpxchg c y) x = (if x = c then y else x)"
| "register_step OpRead x = x"

fun register_run :: "(u64 \<times> atom_op) list \<Rightarrow> u64 \<Rightarrow> u64 list \<times> u64" where
  "register_run [] x = ([], x)"
| "register_run ((t, p) # ps) x =
     (let x' = register_step p x in case register_run ps x' of (rs, y) \<Rightarrow> (x' # rs, y))"

definition atom_ready :: "lworld \<times> bt_atom \<Rightarrow> bool" where
  "atom_ready wa \<longleftrightarrow> sch_active (fst wa) \<and> (\<forall>t. 0 \<le> abortlevel (fst wa) t)
     \<and> lockval (locks (fst wa) (alk (snd wa))) = 0 \<and> lcount (locks (fst wa) (alk (snd wa))) = 0"

lemma atom_apply_step:
  assumes "atom_ready (w, a)" and "t \<noteq> 0"
  shows "\<exists>w'. atom_apply p t (run_as t w, a)
      = Inr (register_step p (avalue a), w', a\<lparr>avalue := register_step p (avalue a)\<rparr>)
     \<and> atom_ready (w', a\<lparr>avalue := register_step p (avalue a)\<rparr>)"
proof -
  have free: "lock_free (alk a) t (run_as t w)" using assms by (simp add: atom_ready_def lock_free_def)
  have run: "\<exists>w'. hold_lock (alk a) True t body (run_as t w, a) = Inr (x, w', a\<lparr>avalue := x\<rparr>)
      \<and> atom_ready (w', a\<lparr>avalue := x\<rparr>)" if "body a = (x, a\<lparr>avalue := x\<rparr>)" for body x
    using hold_lock_free [OF free, of body a, OF that] assms(1) by (fastforce simp: atom_ready_def lock_free_def)
  show ?thesis
  proof (cases p)
    case (OpModify md v)
    then show ?thesis
      using run [of "\<lambda>a. let a' = a\<lparr>avalue := modify_value md v (avalue a)\<rparr> in (avalue a', a')"]
      by (simp add: atom_modify_def Let_def)
  next
    case (OpCmpxchg c x)
    then show ?thesis
      using run [of "\<lambda>a. let a' = (if avalue a = c then a\<lparr>avalue := x\<rparr> else a) in (avalue a', a')"
          "if avalue a = c then x else avalue a"]
      by (simp add: atom_cmpxchg_def)
  next
    case OpRead
    then show ?thesis using run [of "\<lambda>a. (avalue a, a)"] by (simp add: atom_read_def)
  qed
qed

section \<open>Dictionaries\<close>

lemma close_handle_twice:
  "fst (close_handle (snd (close_handle h))) = []"
  by (simp add: close_handle_def)

lemma kvar_set_get:
  assumes "lock_free kvar_lock t w" and "distinct (map_keys m)"
  shows "\<exists>w'. set_kvar name value t (w, m) = Inr ((), w', map_put name value m) \<and> lock_free kvar_lock t w'"
    and "\<exists>w'. get_kvar name t (w, m) = Inr (case map_of m name of Some v \<Rightarrow> v | None \<Rightarrow> [], w', m)
           \<and> lock_free kvar_lock t w'"
  using hold_lock_free [OF assms(1), of "\<lambda>m. ((), map_put name value m)" m]
    hold_lock_free [OF assms(1), of "\<lambda>m. if map_has_key m name then map_index [] name m else ([], m)" m]
  by (fastforce simp: set_kvar_def get_kvar_def map_has_key_map_of map_index_def split: option.splits)+

lemma next_extension_id_free:
  "next_extension_id fuel r m = Inr i \<Longrightarrow> \<not> map_has_key m i"
  by (induction fuel arbitrary: r) (auto split: if_splits)

lemma next_extension_id_range:
  "next_extension_id fuel r m = Inr i \<Longrightarrow> \<exists>k < fuel. i = r + word_of_nat k"
proof (induction fuel arbitrary: r)
  case (Suc fuel)
  show ?case
  proof (cases "map_has_key m r")
    case True
    with Suc obtain k where "k < fuel" "i = r + 1 + word_of_nat k" by fastforce
    then show ?thesis by (intro exI [of _ "Suc k"]) (simp add: add.assoc)
  next
    case False
    with Suc.prems show ?thesis by (intro exI [of _ 0]) simp
  qed
qed simp

lemma next_extension_id_finds:
  "\<not> map_has_key m (r + word_of_nat k) \<Longrightarrow> \<exists>i j. next_extension_id (Suc k + f) r m = Inr i \<and> j \<le> k \<and> i = r + word_of_nat j"
proof (induction k arbitrary: r)
  case (Suc k)
  show ?case
  proof (cases "map_has_key m r")
    case True
    have "\<not> map_has_key m (r + 1 + word_of_nat k)" using Suc.prems by (simp add: add.assoc)
    from Suc.IH [OF this] obtain i j where "next_extension_id (Suc k + f) (r + 1) m = Inr i" "j \<le> k"
      "i = r + 1 + word_of_nat j" by blast
    with True show ?thesis by (intro exI [of _ i] exI [of _ "Suc j"]) (simp add: add.assoc)
  next
    case False
    then show ?thesis by (intro exI [of _ r] exI [of _ 0]) simp
  qed
qed auto

lemma free_extension_id:
  fixes m :: "'h extensions"
  assumes "length m < 65535"
  shows "\<exists>k < 65535. \<not> map_has_key m (1 + word_of_nat k)"
proof (rule ccontr)
  assume "\<not> ?thesis"
  then have "(\<lambda>k. 1 + word_of_nat k :: u16) ` {..<65535} \<subseteq> set (map_keys m)"
    by (auto simp: map_has_key_iff)
  moreover have "inj_on (\<lambda>k. 1 + word_of_nat k :: u16) {..<65535}"
  proof (rule inj_onI)
    fix x y :: nat
    assume xy: "x \<in> {..<65535}" "y \<in> {..<65535}" "1 + word_of_nat x = (1 + word_of_nat y :: u16)"
    then have "unat (word_of_nat x :: u16) = unat (word_of_nat y :: u16)" by simp
    then show "x = y" using xy(1,2) by (simp add: unat_word_of_nat)
  qed
  then have "card ((\<lambda>k. 1 + word_of_nat k :: u16) ` {..<65535}) = 65535" by (simp add: card_image)
  ultimately have "65535 \<le> card (set (map_keys m))" by (metis card_mono List.finite_set)
  also have "\<dots> \<le> length m" using card_length [of "map_keys m"] by simp
  finally show False using assms by simp
qed
lemma decimal_length: "n < 1000 \<Longrightarrow> length (decimal n) \<le> 3"
  by (simp add: decimal.simps [of n] decimal.simps [of "n div 10"] decimal.simps [of "n div 10 div 10"])

lemma unique_name_loop_ok:
  assumes "length name \<le> 8" and "i + k \<le> 1000"
  shows "\<exists>s. unique_name_loop k i name m = Inr s
    \<and> ((\<exists>j. i \<le> j \<and> j < i + k \<and> s = name @ decimal j \<and> \<not> map_has_key m s)
       \<or> (s = [] \<and> (\<forall>j. i \<le> j \<and> j < i + k \<longrightarrow> map_has_key m (name @ decimal j))))"
  using assms(2)
proof (induction k arbitrary: i)
  case (Suc k)
  have len: "length (name @ decimal i) < 12" using decimal_length [of i] assms(1) Suc.prems by simp
  show ?case
  proof (cases "map_has_key m (name @ decimal i)")
    case True
    have "\<exists>s. unique_name_loop k (Suc i) name m = Inr s
      \<and> ((\<exists>j. Suc i \<le> j \<and> j < Suc i + k \<and> s = name @ decimal j \<and> \<not> map_has_key m s)
         \<or> (s = [] \<and> (\<forall>j. Suc i \<le> j \<and> j < Suc i + k \<longrightarrow> map_has_key m (name @ decimal j))))"
      using Suc.IH [of "Suc i"] Suc.prems by simp
    then obtain s where s: "unique_name_loop k (Suc i) name m = Inr s"
      and d: "(\<exists>j. Suc i \<le> j \<and> j < Suc i + k \<and> s = name @ decimal j \<and> \<not> map_has_key m s)
         \<or> (s = [] \<and> (\<forall>j. Suc i \<le> j \<and> j < Suc i + k \<longrightarrow> map_has_key m (name @ decimal j)))"
      by blast
    have "unique_name_loop (Suc k) i name m = Inr s" using s True len by (simp add: Let_def)
    moreover have "map_has_key m (name @ decimal j)" if "i \<le> j" "j < i + Suc k"
      "\<forall>j. Suc i \<le> j \<and> j < Suc i + k \<longrightarrow> map_has_key m (name @ decimal j)" for j
      using that True by (cases "j = i") auto
    ultimately show ?thesis using d by (metis Suc_leD add_Suc_shift)
  next
    case False
    then show ?thesis using len by (auto simp: Let_def intro!: exI [of _ i])
  qed
qed auto

lemma get_unique_name_overflow: "11 \<le> length name \<Longrightarrow> get_unique_name name m = Inl OutOfBounds"
proof -
  assume "11 \<le> length name"
  then have "12 \<le> length (name @ decimal 0)" by (simp add: decimal.simps)
  moreover have "(1000 :: nat) = Suc 999" by simp
  ultimately show ?thesis unfolding get_unique_name_def by (simp only: unique_name_loop.simps Let_def if_True)
qed

section \<open>Properties\<close>



text \<open>
  Extension ids. With fewer than 65535 extensions registered, the search for an id ends; the
  id is not zero (the "not found" answer of \<^verbatim>\<open>get_extension_id\<close>), was free, and
  afterwards names the new extension while every other id keeps its own.
\<close>

theorem add_extension_fresh:
  assumes "length m < 65535" and "distinct (map_keys m)"
  shows "\<exists>i m'. add_extension ext m = Inr (i, m') \<and> i \<noteq> 0 \<and> get_extension i m = None
     \<and> get_extension i m' = Some ext \<and> (\<forall>j. j \<noteq> i \<longrightarrow> get_extension j m' = get_extension j m)
     \<and> distinct (map_keys m')"
proof -
  obtain k where k: "k < 65535" "\<not> map_has_key m (1 + word_of_nat k)"
    using free_extension_id [OF assms(1)] by blast
  have "65536 = Suc k + (65535 - k)" using k by simp
  with next_extension_id_finds [OF k(2), of "65535 - k"]
  obtain i j where i: "next_extension_id 65536 1 m = Inr i" "j \<le> k" "i = 1 + word_of_nat j" by metis
  have "i = word_of_nat (Suc j)" using i(3) by simp
  then have "unat i = Suc j" using i(2) k(1) by (simp only: unat_of_nat) simp
  then have nz: "i \<noteq> 0" by auto
  have fresh: "\<not> map_has_key m i" using next_extension_id_free [OF i(1)] .
  show ?thesis
    using i(1) nz fresh assms(2)
    by (intro exI [of _ i] exI [of _ "map_put i ext m"])
      (auto simp: add_extension_def get_extension_def map_has_key_map_of map_of_put distinct_map_put)
qed

theorem add_extension_fresh_witness:
  "\<exists>i m'. add_extension \<lparr>ename = ''PCI'', uapi_handler = None\<rparr> ([] :: nat extensions) = Inr (i, m') \<and> i \<noteq> 0
     \<and> get_extension i m' = Some \<lparr>ename = ''PCI'', uapi_handler = None\<rparr>"
  using add_extension_fresh [of "[] :: nat extensions" "\<lparr>ename = ''PCI'', uapi_handler = None\<rparr>"] by auto



end
