(* ===== verification/Physical.thy ===== *)
theory Physical
  imports Prelude
begin

unbundle bit_operations_syntax

text \<open>
  The physical page allocator, \<^verbatim>\<open>kernel/mm2/physical.cpp\<close>, and the page descriptor of
  \<^verbatim>\<open>kernel/mm2/mm2_internal.hpp\<close>. A descriptor is one 32-bit word, the page's address in
  the upper twenty bits and its status in the lower twelve. The allocator scans the descriptor
  array downwards and around from the last page it handed out, all indices in 32-bit arithmetic;
  descriptors are found again by a binary search. Each operation runs under the allocator's lock
  (theory \<open>Locks\<close>) and is one atomic step here.
\<close>

section \<open>Page descriptors\<close>

definition MM2_Page_Size :: u32 where "MM2_Page_Size = 4096"

definition MM2_Address_Mask :: u32 where "MM2_Address_Mask = 0xFFFFF000"

datatype PageStatus = Free | InUse | MMIO

fun status_code :: "PageStatus \<Rightarrow> u32" where
  "status_code Free = 0"
| "status_code InUse = 1"
| "status_code MMIO = 2"

type_synonym physical_page = u32

definition page_new :: "u32 \<Rightarrow> PageStatus \<Rightarrow> physical_page" where
  "page_new addr s = (addr OR status_code s)"

definition page_address :: "physical_page \<Rightarrow> u32" where
  "page_address p = (p AND MM2_Address_Mask)"

definition page_set_address :: "u32 \<Rightarrow> physical_page \<Rightarrow> physical_page" where
  "page_set_address a p = ((p AND NOT MM2_Address_Mask) OR a)"

definition page_status :: "physical_page \<Rightarrow> u32" where
  "page_status p = (p AND NOT MM2_Address_Mask)"

definition page_set_status :: "PageStatus \<Rightarrow> physical_page \<Rightarrow> physical_page" where
  "page_set_status s p = ((p AND MM2_Address_Mask) OR status_code s)"

section \<open>The allocator\<close>

record pmm =
  physical_pages :: "physical_page list"
  io_pages :: "physical_page list"
  end_of_kernel :: u32
  free_pages :: u32
  lastidx :: u32

definition total_pages :: "pmm \<Rightarrow> u32" where
  "total_pages s = word_of_nat (length (physical_pages s))"

text \<open>
  The scan of \<^verbatim>\<open>physical_alloc\<close>. The first argument bounds the number of rounds; a scan
  that uses it up is \<open>Diverges\<close>.
\<close>

fun alloc_loop :: "nat \<Rightarrow> u32 \<Rightarrow> u32 \<Rightarrow> pmm \<Rightarrow> u32 kres" where
  "alloc_loop 0 idx max_addr s = Inl Diverges"
| "alloc_loop (Suc fuel) idx max_addr s =
     (if idx = lastidx s then Inl (Panic ''(MM2) PYSICAL PAGE ALLOCATION FAILED!'')
      else
        let i = (if idx > total_pages s then total_pages s - 1 else idx)
        in if length (physical_pages s) \<le> unat i then Inl OutOfBounds
           else if page_status (physical_pages s ! unat i) = status_code Free
                   \<and> page_address (physical_pages s ! unat i) < max_addr
           then Inr i
           else alloc_loop fuel (i - 1) max_addr s)"

declare alloc_loop.simps(2) [simp del]

definition mark_page :: "nat \<Rightarrow> PageStatus \<Rightarrow> pmm \<Rightarrow> pmm" where
  "mark_page i st s = s\<lparr>physical_pages := (physical_pages s)[i := page_set_status st (physical_pages s ! i)]\<rparr>"

definition physical_alloc_fuel :: "nat \<Rightarrow> u32 \<Rightarrow> pmm \<Rightarrow> (u32 \<times> pmm) kres" where
  "physical_alloc_fuel fuel max_addr s =
     kbind (alloc_loop fuel (lastidx s - 1) max_addr s)
       (\<lambda>i. Inr (i, (mark_page (unat i) InUse s)\<lparr>free_pages := free_pages s - 1, lastidx := i\<rparr>))"

definition physical_alloc :: "u32 \<Rightarrow> pmm \<Rightarrow> (u32 \<times> pmm) kres" where
  "physical_alloc max_addr s = physical_alloc_fuel (Suc (length (physical_pages s))) max_addr s"

text \<open>
  A page reference is either an index into the array or into the list of I/O pages.
\<close>

datatype page_ref = RamPage nat | IoPage nat

fun page_at :: "page_ref \<Rightarrow> pmm \<Rightarrow> physical_page" where
  "page_at (RamPage i) s = physical_pages s ! i"
| "page_at (IoPage i) s = io_pages s ! i"

fun set_page_status :: "page_ref \<Rightarrow> PageStatus \<Rightarrow> pmm \<Rightarrow> pmm" where
  "set_page_status (RamPage i) st s = mark_page i st s"
| "set_page_status (IoPage i) st s = s\<lparr>io_pages := (io_pages s)[i := page_set_status st (io_pages s ! i)]\<rparr>"

definition physical_free_page :: "page_ref \<Rightarrow> pmm \<Rightarrow> pmm" where
  "physical_free_page r s =
     (let s1 = (if page_status (page_at r s) = status_code InUse then set_page_status r Free s else s)
      in if page_status (page_at r s1) \<noteq> status_code MMIO then s1\<lparr>free_pages := free_pages s1 + 1\<rparr> else s1)"

text \<open>
  The binary search keeps signed bounds and the guess as their truncated half sum.
\<close>

function find_loop :: "physical_page list \<Rightarrow> u32 \<Rightarrow> nat \<Rightarrow> int \<Rightarrow> nat option kres" where
  "find_loop pages addr lo hi =
     (let guess = nat ((int lo + hi) div 2)
      in if length pages \<le> guess then Inl OutOfBounds
         else if page_address (pages ! guess) = addr then Inr (Some guess)
         else if page_address (pages ! guess) < addr
         then (if hi < int (Suc guess) then Inr None else find_loop pages addr (Suc guess) hi)
         else (if int guess - 1 < int lo then Inr None else find_loop pages addr lo (int guess - 1)))"
  by pat_completeness auto
termination
  by (relation "measure (\<lambda>(pages, addr, lo, hi). nat (hi - int lo + 1))") (auto split: if_splits)

declare find_loop.simps [simp del]

definition find_page :: "u32 \<Rightarrow> pmm \<Rightarrow> page_ref option kres" where
  "find_page addr s =
     (case List.find (\<lambda>i. page_address (io_pages s ! i) = addr) [0..<length (io_pages s)] of
        Some i \<Rightarrow> Inr (Some (IoPage i))
      | None \<Rightarrow>
          (let hi = int (length (physical_pages s)) - 1
           in kbind (find_loop (physical_pages s) addr 0 hi)
                (\<lambda>r. Inr (map_option RamPage r))))"

definition physical_free :: "u32 \<Rightarrow> pmm \<Rightarrow> pmm kres" where
  "physical_free addr s =
     kbind (find_page (addr AND MM2_Address_Mask) s)
       (\<lambda>r. case r of None \<Rightarrow> Inr s | Some page \<Rightarrow> Inr (physical_free_page page s))"

definition physical_mark_used :: "u32 \<Rightarrow> pmm \<Rightarrow> pmm kres" where
  "physical_mark_used addr s =
     kbind (find_page (addr AND MM2_Address_Mask) s)
       (\<lambda>r. case r of None \<Rightarrow> Inr s | Some page \<Rightarrow> Inr (set_page_status page InUse s))"

definition physical_get_io_page :: "u32 \<Rightarrow> pmm \<Rightarrow> (page_ref \<times> pmm) kres" where
  "physical_get_io_page addr s =
     kbind (find_page (addr AND MM2_Address_Mask) s)
       (\<lambda>r. case r of
          Some page \<Rightarrow> Inr (page, s)
        | None \<Rightarrow> Inr (IoPage (length (io_pages s)),
                       s\<lparr>io_pages := io_pages s @ [page_new (addr AND MM2_Address_Mask) MMIO]\<rparr>))"

section \<open>Initialisation\<close>

record mmap_entry =
  base_addr_low :: u32
  length_low :: u32
  mtype :: u32

definition usable_region :: "mmap_entry \<Rightarrow> bool" where
  "usable_region e \<longleftrightarrow> mtype e = 1 \<and> length_low e > 0
     \<and> \<not> (base_addr_low e < 1024 * 1024 \<and> length_low e < 1024 * 1024)"

definition count_pages :: "mmap_entry list \<Rightarrow> nat" where
  "count_pages es = sum_list (map (\<lambda>e. unat (length_low e) div 4096) (filter usable_region es))"

text \<open>
  A descriptor of the cleared array is given its address and then its status, which drops the low
  bits of an address that is not page-aligned. The loop that fills in the descriptors of a region
  runs while \<^verbatim>\<open>page_addr + 4096\<close> is below the region's \<^emph>\<open>length\<close>, in
  32-bit arithmetic. The first argument bounds its rounds; more than \<open>2^21\<close> rounds visit
  some address twice, so the loop never ends.
\<close>

definition fill_page :: "u32 \<Rightarrow> physical_page" where
  "fill_page page_addr = page_set_status Free (page_set_address page_addr 0)"

fun region_pages :: "nat \<Rightarrow> u32 \<Rightarrow> u32 \<Rightarrow> physical_page list kres" where
  "region_pages 0 page_addr len = Inl Diverges"
| "region_pages (Suc fuel) page_addr len =
     (if page_addr + MM2_Page_Size < len
      then kbind (region_pages fuel (page_addr + MM2_Page_Size) len)
             (\<lambda>ps. Inr (fill_page page_addr # ps))
      else Inr [])"

fun fill_regions :: "mmap_entry list \<Rightarrow> physical_page list kres" where
  "fill_regions [] = Inr []"
| "fill_regions (e # es) =
     (if usable_region e
      then kbind (region_pages (2 ^ 21) (base_addr_low e) (length_low e))
             (\<lambda>ps. kbind (fill_regions es) (\<lambda>qs. Inr (ps @ qs)))
      else fill_regions es)"

definition init_account :: "pmm \<Rightarrow> pmm" where
  "init_account s =
     s\<lparr>physical_pages := map (\<lambda>p. if page_address p < end_of_kernel s then page_set_status InUse p else p)
                          (physical_pages s)\<rparr>"

text \<open>
  Early allocation moves the end of the kernel up; \<^verbatim>\<open>mm2_init_page_alloc\<close> rounds it up
  to a page first. Both return the old end. Descriptors exist once the array is non-empty.
\<close>

definition mm2_init_alloc :: "u32 \<Rightarrow> pmm \<Rightarrow> u32 \<times> pmm" where
  "mm2_init_alloc sz s =
     (end_of_kernel s, init_account (s\<lparr>end_of_kernel := end_of_kernel s + sz\<rparr>))"

definition mm2_init_page_alloc :: "pmm \<Rightarrow> u32 \<times> pmm" where
  "mm2_init_page_alloc s =
     (let r = end_of_kernel s mod MM2_Page_Size
      in mm2_init_alloc MM2_Page_Size
           (if r \<noteq> 0 then s\<lparr>end_of_kernel := end_of_kernel s + (MM2_Page_Size - r)\<rparr> else s))"

definition modules_end :: "u32 \<Rightarrow> u32 list \<Rightarrow> u32" where
  "modules_end kernel_end mod_ends = fold (\<lambda>mod_end e. if mod_end > e then mod_end else e) mod_ends kernel_end"

text \<open>
  \<open>mod_ends\<close> are the ends of the boot modules and \<open>es\<close> the entries the walk over the memory
  map visits. The array has one cleared word per counted page; the regions are filled in from its
  start.
\<close>

definition mm2_physical_init :: "u32 \<Rightarrow> u32 list \<Rightarrow> mmap_entry list \<Rightarrow> pmm kres" where
  "mm2_physical_init kernel_end mod_ends es =
     (let total = count_pages es
      in kbind (fill_regions es)
           (\<lambda>filled. if total < length filled then Inl OutOfBounds
              else Inr (init_account
                \<lparr>physical_pages = filled @ replicate (total - length filled) 0, io_pages = [],
                 end_of_kernel = modules_end kernel_end mod_ends + 4 * word_of_nat total,
                 free_pages = word_of_nat total, lastidx = 0\<rparr>)))"

section \<open>Descriptors\<close>

lemma status_code_mask [simp]:
  "status_code st AND MM2_Address_Mask = 0" "status_code st AND NOT MM2_Address_Mask = status_code st"
  by (cases st; simp add: MM2_Address_Mask_def)+

lemma page_set_status_fields [simp]:
  "page_address (page_set_status st p) = page_address p"
  "page_status (page_set_status st p) = status_code st"
  by (simp_all add: page_address_def page_status_def page_set_status_def bit.conj_disj_distrib2 and.assoc)

lemma page_new_fields:
  assumes "addr AND NOT MM2_Address_Mask = 0"
  shows "page_address (page_new addr st) = addr" and "page_status (page_new addr st) = status_code st"
proof -
  have "addr = addr AND MM2_Address_Mask"
    using assms by (metis bit.conj_cancel_right bit.conj_disj_distrib bit.disj_cancel_right bit.conj_one_right or.left_neutral or.commute)
  then show "page_address (page_new addr st) = addr" "page_status (page_new addr st) = status_code st"
    using assms by (simp_all add: page_address_def page_status_def page_new_def bit.conj_disj_distrib2)
qed

lemma status_code_inj [simp]: "status_code a = status_code b \<longleftrightarrow> a = b"
  by (cases a; cases b) simp_all

section \<open>The scan\<close>

definition pmm_ok :: "pmm \<Rightarrow> bool" where
  "pmm_ok s \<longleftrightarrow> 0 < length (physical_pages s) \<and> length (physical_pages s) < 2 ^ 31
     \<and> unat (lastidx s) < length (physical_pages s)"

definition usable :: "u32 \<Rightarrow> pmm \<Rightarrow> nat \<Rightarrow> bool" where
  "usable max_addr s i \<longleftrightarrow> page_status (physical_pages s ! i) = status_code Free
     \<and> page_address (physical_pages s ! i) < max_addr"

lemma total_pages_unat: "pmm_ok s \<Longrightarrow> unat (total_pages s) = length (physical_pages s)"
  unfolding total_pages_def by (rule unat_word_of_nat) (simp add: pmm_ok_def)

lemma alloc_loop_sound:
  "alloc_loop fuel idx max_addr s = Inr i \<Longrightarrow> unat i < length (physical_pages s) \<and> usable max_addr s (unat i)"
  by (induction fuel arbitrary: idx) (auto simp: alloc_loop.simps(2) Let_def usable_def split: if_splits)

text \<open>One round at an index inside the array, and the round after the index has wrapped.\<close>

lemma alloc_loop_step:
  assumes "pmm_ok s" and "k < length (physical_pages s)" and "k \<noteq> unat (lastidx s)"
  shows "alloc_loop (Suc fuel) (word_of_nat (Suc k) - 1) max_addr s
    = (if usable max_addr s k then Inr (word_of_nat k)
       else alloc_loop fuel (word_of_nat k - 1) max_addr s)"
proof -
  let ?i = "word_of_nat (Suc k) - 1 :: u32"
  have i: "?i = word_of_nat k" by simp
  have u: "unat (word_of_nat k :: u32) = k"
    by (rule unat_word_of_nat) (use assms in \<open>auto simp: pmm_ok_def\<close>)
  have "?i \<noteq> lastidx s" using i u assms(3) by metis
  moreover have "\<not> ?i > total_pages s"
    using i u total_pages_unat [OF assms(1)] assms(2) by (simp add: word_less_nat_alt)
  ultimately show ?thesis using u i assms(2) by (simp add: alloc_loop.simps(2) Let_def usable_def)
qed

lemma alloc_loop_wrap:
  assumes "pmm_ok s" and "length (physical_pages s) = Suc m"
  shows "alloc_loop (Suc fuel) (word_of_nat 0 - 1) max_addr s
    = (if usable max_addr s m then Inr (word_of_nat m)
       else alloc_loop fuel (word_of_nat m - 1) max_addr s)"
proof -
  have top: "unat (- 1 :: u32) = 2 ^ 32 - 1" by (simp add: unsigned_minus_1_eq_mask mask_eq_exp_minus_1)
  have t: "total_pages s - 1 = word_of_nat m" using assms(2) by (simp add: total_pages_def)
  have u: "unat (word_of_nat m :: u32) = m"
    by (rule unat_word_of_nat) (use assms in \<open>auto simp: pmm_ok_def\<close>)
  have "(- 1 :: u32) \<noteq> lastidx s" using top assms by (auto simp: pmm_ok_def)
  moreover have "(- 1 :: u32) > total_pages s"
    using top total_pages_unat [OF assms(1)] assms by (simp add: word_less_nat_alt pmm_ok_def)
  ultimately show ?thesis using t u assms(2) by (simp add: alloc_loop.simps(2) Let_def usable_def)
qed

lemma alloc_loop_down:
  assumes "pmm_ok s" and "k \<le> length (physical_pages s)" and "lo \<le> k"
    and "\<And>j. lo \<le> j \<Longrightarrow> j < k \<Longrightarrow> j \<noteq> unat (lastidx s) \<and> \<not> usable max_addr s j"
  shows "alloc_loop (fuel + (k - lo)) (word_of_nat k - 1) max_addr s
    = alloc_loop fuel (word_of_nat lo - 1) max_addr s"
  using assms(2-4)
proof (induction "k - lo" arbitrary: k)
  case 0
  then show ?case by simp
next
  case (Suc d)
  then obtain m where k: "k = Suc m" by (cases k) auto
  with Suc have m: "lo \<le> m" "d = m - lo" by auto
  have "alloc_loop (fuel + (k - lo)) (word_of_nat k - 1) max_addr s
      = alloc_loop (fuel + (m - lo)) (word_of_nat m - 1) max_addr s"
    using alloc_loop_step [OF assms(1), of m "fuel + (m - lo)" max_addr] Suc.prems k m
    by (simp add: Suc_diff_le)
  also have "\<dots> = alloc_loop fuel (word_of_nat lo - 1) max_addr s"
    by (rule Suc.hyps(1)) (use Suc.prems k m in auto)
  finally show ?case .
qed
lemma alloc_loop_more:
  "alloc_loop fuel idx max_addr s = Inr i \<Longrightarrow> alloc_loop (fuel + d) idx max_addr s = Inr i"
  by (induction fuel arbitrary: idx) (auto simp: alloc_loop.simps(2) Let_def split: if_splits)

lemma alloc_loop_to:
  assumes ok: "pmm_ok s" and k: "j < k" "k \<le> length (physical_pages s)"
    and skip: "\<forall>i. j < i \<and> i < k \<longrightarrow> \<not> usable max_addr s i"
    and away: "unat (lastidx s) < j \<or> k \<le> unat (lastidx s)" and hit: "usable max_addr s j"
  shows "alloc_loop (k - j) (word_of_nat k - 1) max_addr s = Inr (word_of_nat j)"
proof -
  have "alloc_loop (1 + (k - Suc j)) (word_of_nat k - 1) max_addr s
      = alloc_loop 1 (word_of_nat (Suc j) - 1) max_addr s"
  proof (rule alloc_loop_down [OF ok k(2)])
    show "Suc j \<le> k" using k(1) by simp
    show "i \<noteq> unat (lastidx s) \<and> \<not> usable max_addr s i" if "Suc j \<le> i" "i < k" for i
      using that skip away by (simp add: Suc_le_eq) linarith
  qed
  also have "\<dots> = Inr (word_of_nat j)"
    using alloc_loop_step [OF ok, of j 0 max_addr] k away hit by (cases "j = unat (lastidx s)") simp_all
  finally show ?thesis using k by (simp add: Suc_diff_Suc)
qed

lemma greatest_below:
  fixes P :: "nat \<Rightarrow> bool"
  assumes "P i" and "i < n"
  shows "\<exists>j. j < n \<and> P j \<and> (\<forall>m. j < m \<and> m < n \<longrightarrow> \<not> P m) \<and> i \<le> j"
  using assms(2)
proof (induction n)
  case (Suc n)
  show ?case
  proof (cases "P n")
    case True
    then show ?thesis using Suc.prems by (intro exI [of _ n]) auto
  next
    case False
    with Suc.prems assms(1) have "i < n" by (metis less_SucE)
    with Suc.IH obtain j where "j < n" "P j" "\<forall>m. j < m \<and> m < n \<longrightarrow> \<not> P m" "i \<le> j" by blast
    with False show ?thesis by (intro exI [of _ j]) (auto simp: less_Suc_eq)
  qed
qed simp

lemma alloc_loop_finds:
  assumes ok: "pmm_ok s" and ex: "i < length (physical_pages s)" "i \<noteq> unat (lastidx s)" "usable max_addr s i"
  shows "\<exists>j. alloc_loop (Suc (length (physical_pages s))) (lastidx s - 1) max_addr s = Inr j"
proof -
  let ?n = "length (physical_pages s)" and ?L = "unat (lastidx s)"
  have L: "?L < ?n" using ok by (simp add: pmm_ok_def)
  have start: "lastidx s - 1 = word_of_nat ?L - 1" by simp
  have enough: "\<exists>j. alloc_loop (Suc ?n) (lastidx s - 1) max_addr s = Inr j"
    if "alloc_loop fuel (lastidx s - 1) max_addr s = Inr j" "fuel \<le> Suc ?n" for fuel j
    using alloc_loop_more [OF that(1), of "Suc ?n - fuel"] that(2) by auto
  show ?thesis
  proof (cases "\<exists>j<?L. usable max_addr s j")
    case True
    then obtain j where j: "j < ?L" "usable max_addr s j" "\<forall>m. j < m \<and> m < ?L \<longrightarrow> \<not> usable max_addr s m"
      using greatest_below [of "usable max_addr s" _ ?L] by blast
    have "alloc_loop (?L - j) (word_of_nat ?L - 1) max_addr s = Inr (word_of_nat j)"
      by (rule alloc_loop_to [OF ok j(1) _ j(3) _ j(2)]) (use L in linarith)+
    then have "alloc_loop (?L - j) (lastidx s - 1) max_addr s = Inr (word_of_nat j)" by (simp only: start)
    then show ?thesis by (rule enough) (use L in linarith)
  next
    case False
    obtain m where m: "?n = Suc m" using L by (cases ?n) auto
    obtain j where j: "j < ?n" "usable max_addr s j" "\<forall>k. j < k \<and> k < ?n \<longrightarrow> \<not> usable max_addr s k" "i \<le> j"
      using greatest_below [of "usable max_addr s", OF ex(3,1)] by blast
    have "\<not> i < ?L" using False ex(3) by blast
    with ex(2) j(4) have Lj: "?L < j" by linarith
    have down: "alloc_loop (f + ?L) (lastidx s - 1) max_addr s = alloc_loop f (word_of_nat 0 - 1) max_addr s" for f
    proof -
      have "alloc_loop (f + (?L - 0)) (word_of_nat ?L - 1) max_addr s = alloc_loop f (word_of_nat 0 - 1) max_addr s"
        by (rule alloc_loop_down [OF ok]) (use L False in \<open>(linarith | blast)+\<close>)
      then show ?thesis by (simp only: start diff_zero)
    qed
    show ?thesis
    proof (cases "j = m")
      case True
      then have "alloc_loop (Suc 0) (word_of_nat 0 - 1) max_addr s = Inr (word_of_nat m)"
        using alloc_loop_wrap [OF ok m, of 0 max_addr] j by simp
      then have "alloc_loop (Suc 0 + ?L) (lastidx s - 1) max_addr s = Inr (word_of_nat m)" by (simp only: down)
      then show ?thesis by (rule enough) (use L in linarith)
    next
      case False
      have "alloc_loop (m - j) (word_of_nat m - 1) max_addr s = Inr (word_of_nat j)"
      proof (rule alloc_loop_to [OF ok _ _ _ _ j(2)])
        show "j < m" "m \<le> ?n" "?L < j \<or> m \<le> ?L" using j(1) m Lj False by linarith+
        show "\<forall>i. j < i \<and> i < m \<longrightarrow> \<not> usable max_addr s i" using j(3) m by simp
      qed
      moreover have "\<not> usable max_addr s m" using j(1,3) m False by simp
      ultimately have "alloc_loop (Suc (m - j)) (word_of_nat 0 - 1) max_addr s = Inr (word_of_nat j)"
        using alloc_loop_wrap [OF ok m, of "m - j" max_addr] by simp
      then have "alloc_loop (Suc (m - j) + ?L) (lastidx s - 1) max_addr s = Inr (word_of_nat j)"
        by (simp only: down)
      then show ?thesis by (rule enough) (use Lj m j(1) in linarith)
    qed
  qed
qed

lemma alloc_loop_exhausted:
  assumes ok: "pmm_ok s" and m: "length (physical_pages s) = Suc m"
    and none: "\<forall>i < Suc m. i \<noteq> unat (lastidx s) \<longrightarrow> \<not> usable max_addr s i"
    and L: "unat (lastidx s) < m"
  shows "alloc_loop (Suc (Suc m)) (lastidx s - 1) max_addr s
     = Inl (Panic ''(MM2) PYSICAL PAGE ALLOCATION FAILED!'')"
proof -
  let ?L = "unat (lastidx s)"
  have start: "lastidx s - 1 = word_of_nat ?L - 1" by simp
  have fuel: "Suc (Suc m) = Suc (2 + (m - Suc ?L)) + (?L - 0)" using L by linarith
  have "alloc_loop (Suc (Suc m)) (lastidx s - 1) max_addr s
      = alloc_loop (Suc (2 + (m - Suc ?L))) (word_of_nat 0 - 1) max_addr s"
    unfolding fuel start by (rule alloc_loop_down [OF ok]) (use none m L in \<open>(linarith | simp)+\<close>)
  also have "\<dots> = alloc_loop (2 + (m - Suc ?L)) (word_of_nat m - 1) max_addr s"
    unfolding alloc_loop_wrap [OF ok m] using none L by simp
  also have "\<dots> = alloc_loop 2 (word_of_nat (Suc ?L) - 1) max_addr s"
    by (rule alloc_loop_down [OF ok]) (use none m L in \<open>(linarith | simp)+\<close>)
  also have "\<dots> = Inl (Panic ''(MM2) PYSICAL PAGE ALLOCATION FAILED!'')"
    by (simp add: numeral_2_eq_2 alloc_loop.simps(2))
  finally show ?thesis .
qed

lemma alloc_loop_forever:
  assumes ok: "pmm_ok s" and m: "length (physical_pages s) = Suc m" and L: "unat (lastidx s) = m"
    and none: "\<forall>i < Suc m. \<not> usable max_addr s i" and k: "k \<le> m"
  shows "alloc_loop fuel (word_of_nat k - 1) max_addr s = Inl Diverges"
  using k
proof (induction fuel arbitrary: k)
  case (Suc fuel)
  show ?case
  proof (cases k)
    case 0
    then show ?thesis
      using alloc_loop_wrap [OF ok m, of fuel max_addr] none Suc.IH [of m] by simp
  next
    case (Suc k')
    then show ?thesis
      using alloc_loop_step [OF ok, of k' fuel max_addr] none m L Suc.prems Suc.IH [of k'] by simp
  qed
qed simp
section \<open>The search\<close>

definition addrs_ascending :: "physical_page list \<Rightarrow> bool" where
  "addrs_ascending ps \<longleftrightarrow> sorted_wrt (\<lambda>p q. page_address p < page_address q) ps"

lemma ascending_nth:
  "addrs_ascending ps \<Longrightarrow> i < j \<Longrightarrow> j < length ps \<Longrightarrow> page_address (ps ! i) < page_address (ps ! j)"
  by (simp add: addrs_ascending_def sorted_wrt_iff_nth_less)

lemma find_loop_correct:
  assumes "addrs_ascending ps" and "int lo \<le> hi" and "hi < int (length ps)"
    and "\<forall>k < length ps. page_address (ps ! k) = addr \<longrightarrow> lo \<le> k \<and> int k \<le> hi"
  shows "\<exists>r. find_loop ps addr lo hi = Inr r
    \<and> (case r of Some k \<Rightarrow> k < length ps \<and> page_address (ps ! k) = addr
               | None \<Rightarrow> \<forall>k < length ps. page_address (ps ! k) \<noteq> addr)"
  using assms(2-4)
proof (induction "nat (hi - int lo)" arbitrary: lo hi rule: less_induct)
  case less
  define g where "g = nat ((int lo + hi) div 2)"
  have g: "lo \<le> g" "int g \<le> hi" using less.prems by (simp_all add: g_def)
  then have gn: "g < length ps" using less.prems by linarith
  have unfold: "find_loop ps addr lo hi =
      (if page_address (ps ! g) = addr then Inr (Some g)
       else if page_address (ps ! g) < addr
       then (if hi < int (Suc g) then Inr None else find_loop ps addr (Suc g) hi)
       else (if int g - 1 < int lo then Inr None else find_loop ps addr lo (int g - 1)))"
    unfolding find_loop.simps [of ps addr lo hi] Let_def g_def [symmetric] using gn by simp
  consider "page_address (ps ! g) = addr" | "page_address (ps ! g) < addr" | "page_address (ps ! g) > addr"
    by fastforce
  then show ?case
  proof cases
    case 1
    then show ?thesis using unfold gn by simp
  next
    case 2
    then have ne: "page_address (ps ! g) \<noteq> addr" by simp
    have right: "\<forall>k < length ps. page_address (ps ! k) = addr \<longrightarrow> Suc g \<le> k \<and> int k \<le> hi"
    proof (intro allI impI)
      fix k assume k: "k < length ps" "page_address (ps ! k) = addr"
      have "\<not> k \<le> g"
        using ascending_nth [OF assms(1), of k g] gn k(2) 2 by (cases "k = g") auto
      then show "Suc g \<le> k \<and> int k \<le> hi" using less.prems(3) k by auto
    qed
    show ?thesis
    proof (cases "hi < int (Suc g)")
      case True
      then have "\<forall>k < length ps. page_address (ps ! k) \<noteq> addr" using right by fastforce
      then show ?thesis using unfold ne 2 True by simp
    next
      case False
      have "nat (hi - int (Suc g)) < nat (hi - int lo)" using False g by linarith
      from less.hyps [OF this _ less.prems(2) right] False
      show ?thesis using unfold ne 2 False by simp
    qed
  next
    case 3
    then have ne: "page_address (ps ! g) \<noteq> addr" and nl: "\<not> page_address (ps ! g) < addr" by auto
    have left: "\<forall>k < length ps. page_address (ps ! k) = addr \<longrightarrow> lo \<le> k \<and> int k \<le> int g - 1"
    proof (intro allI impI)
      fix k assume k: "k < length ps" "page_address (ps ! k) = addr"
      have "\<not> g \<le> k"
        using ascending_nth [OF assms(1), of g k] k 3 by (cases "k = g") auto
      then show "lo \<le> k \<and> int k \<le> int g - 1" using less.prems(3) k by auto
    qed
    show ?thesis
    proof (cases "int g - 1 < int lo")
      case True
      then have "\<forall>k < length ps. page_address (ps ! k) \<noteq> addr" using left by fastforce
      then show ?thesis using unfold ne nl True by simp
    next
      case False
      have "nat (int g - 1 - int lo) < nat (hi - int lo)" using False g by linarith
      from less.hyps [OF this _ _ left] False gn
      show ?thesis using unfold ne nl False by simp
    qed
  qed
qed

lemma find_page_ascending:
  assumes "addrs_ascending (physical_pages s)" and "i < length (physical_pages s)"
    and "\<forall>q \<in> set (io_pages s). page_address q \<noteq> page_address (physical_pages s ! i)"
  shows "find_page (page_address (physical_pages s ! i)) s = Inr (Some (RamPage i))"
proof -
  let ?ps = "physical_pages s" and ?a = "page_address (physical_pages s ! i)"
  have "List.find (\<lambda>k. page_address (io_pages s ! k) = ?a) [0..<length (io_pages s)] = None"
    using assms(3) by (simp add: find_None_iff)
  moreover have "int 0 \<le> int (length ?ps) - 1" "int (length ?ps) - 1 < int (length ?ps)"
      "\<forall>k < length ?ps. page_address (?ps ! k) = ?a \<longrightarrow> 0 \<le> k \<and> int k \<le> int (length ?ps) - 1"
    using assms(2) by auto
  from find_loop_correct [OF assms(1) this]
  obtain r where r: "find_loop ?ps ?a 0 (int (length ?ps) - 1) = Inr r"
    and c: "case r of Some k \<Rightarrow> k < length ?ps \<and> page_address (?ps ! k) = ?a
               | None \<Rightarrow> \<forall>k < length ?ps. page_address (?ps ! k) \<noteq> ?a"
    by blast
  obtain k where k: "r = Some k" "k < length ?ps" "page_address (?ps ! k) = ?a"
    using c assms(2) by (cases r) auto
  have "k = i"
    using ascending_nth [OF assms(1), of k i] ascending_nth [OF assms(1), of i k] k assms(2)
    by (metis less_irrefl linorder_neqE_nat)
  ultimately show ?thesis using r k by (simp add: find_page_def)
qed

lemma page_address_mask [simp]: "page_address p AND MM2_Address_Mask = page_address p"
  by (simp add: page_address_def and.assoc)
lemma physical_alloc_effect:
  assumes ok: "pmm_ok s" and a: "physical_alloc max_addr s = Inr (i, s')"
  shows "unat i < length (physical_pages s)" and "usable max_addr s (unat i)"
    and "s' = s\<lparr>physical_pages := (physical_pages s)[unat i := page_set_status InUse (physical_pages s ! unat i)],
                free_pages := free_pages s - 1, lastidx := i\<rparr>"
    and "pmm_ok s'"
proof -
  have l: "alloc_loop (Suc (length (physical_pages s))) (lastidx s - 1) max_addr s = Inr i"
    and s': "s' = (mark_page (unat i) InUse s)\<lparr>free_pages := free_pages s - 1, lastidx := i\<rparr>"
    using a by (auto simp: physical_alloc_def physical_alloc_fuel_def kbind_Inr_iff)
  show i: "unat i < length (physical_pages s)" and "usable max_addr s (unat i)"
    using alloc_loop_sound [OF l] by auto
  show e: "s' = s\<lparr>physical_pages := (physical_pages s)[unat i := page_set_status InUse (physical_pages s ! unat i)],
                free_pages := free_pages s - 1, lastidx := i\<rparr>"
    by (simp add: s' mark_page_def)
  show "pmm_ok s'" using ok i e by (simp add: pmm_ok_def)
qed

lemma status_free_value:
  assumes "page_status p = status_code Free"
  shows "page_set_status Free p = p"
proof -
  have "p = (p AND MM2_Address_Mask) OR (p AND NOT MM2_Address_Mask)"
    by (simp flip: bit.conj_disj_distrib)
  then show ?thesis using assms by (simp add: page_set_status_def page_status_def)
qed

lemma page_set_status_twice [simp]:
  "page_set_status a (page_set_status b p) = page_set_status a p"
  by (simp add: page_set_status_def bit.conj_disj_distrib2 and.assoc)

lemma ascending_update:
  "addrs_ascending ps \<Longrightarrow> addrs_ascending (ps[i := page_set_status st (ps ! i)])"
  by (cases "i < length ps") (auto simp: addrs_ascending_def sorted_wrt_iff_nth_less nth_list_update)

lemma region_pages_eq:
  assumes "unat a + 4096 * Suc n < 2 ^ 32" and "unat len \<le> unat a + 4096 * Suc n"
    and "0 < n \<longrightarrow> unat a + 4096 * n < unat len" and "n < fuel"
  shows "region_pages fuel a len = Inr (map (\<lambda>i. fill_page (a + word_of_nat (4096 * i))) [0..<n])"
  using assms
proof (induction n arbitrary: a fuel)
  case 0
  then obtain f where f: "fuel = Suc f" by (cases fuel) auto
  have "unat (a + MM2_Page_Size) = unat a + 4096"
    using 0 by (subst unat_add_lem [THEN iffD1]) (simp_all add: MM2_Page_Size_def)
  then have "\<not> a + MM2_Page_Size < len" using 0 by (simp add: word_less_nat_alt)
  then show ?case using f by simp
next
  case (Suc n)
  then obtain f where f: "fuel = Suc f" by (cases fuel) auto
  have u: "unat (a + MM2_Page_Size) = unat a + 4096"
    using Suc.prems by (subst unat_add_lem [THEN iffD1]) (simp_all add: MM2_Page_Size_def)
  then have lt: "a + MM2_Page_Size < len" using Suc.prems by (simp add: word_less_nat_alt)
  have ih: "region_pages f (a + MM2_Page_Size) len
      = Inr (map (\<lambda>i. fill_page (a + MM2_Page_Size + word_of_nat (4096 * i))) [0..<n])"
    by (rule Suc.IH) (use Suc.prems u f in simp_all)
  have "[0..<Suc n] = 0 # map Suc [0..<n]" by (simp add: map_Suc_upt upt_conv_Cons)
  then show ?case using f lt ih by (simp add: MM2_Page_Size_def add.assoc comp_def)
qed

text \<open>
  A search whose remaining range holds only cleared descriptors runs off to the right.
\<close>

lemma find_loop_cleared:
  assumes "int lo \<le> hi" and "hi < int (length ps)" and "0 < addr"
    and "\<forall>k. lo \<le> k \<and> k < length ps \<longrightarrow> page_address (ps ! k) = 0"
  shows "find_loop ps addr lo hi = Inr None"
  using assms(1,2,4)
proof (induction "nat (hi - int lo)" arbitrary: lo rule: less_induct)
  case less
  define g where "g = nat ((int lo + hi) div 2)"
  have g: "lo \<le> g" "int g \<le> hi" using less.prems by (simp_all add: g_def)
  then have gn: "g < length ps" and z: "page_address (ps ! g) = 0" using less.prems by auto
  have ne: "addr \<noteq> 0" using assms(3) by auto
  have unfold: "find_loop ps addr lo hi = (if hi < int (Suc g) then Inr None else find_loop ps addr (Suc g) hi)"
    unfolding find_loop.simps [of ps addr lo hi] Let_def g_def [symmetric] using gn z ne assms(3) by simp
  show ?case
  proof (cases "hi < int (Suc g)")
    case False
    have "find_loop ps addr (Suc g) hi = Inr None"
      by (rule less.hyps) (use less.prems g False in auto)
    with unfold show ?thesis by simp
  qed (use unfold in simp)
qed

lemma find_loop_right:
  assumes "g = nat ((int lo + hi) div 2)" and "g < length ps" and "page_address (ps ! g) < addr"
    and "int (Suc g) \<le> hi"
  shows "find_loop ps addr lo hi = find_loop ps addr (Suc g) hi"
  unfolding find_loop.simps [of ps addr lo hi] Let_def assms(1) [symmetric]
  using assms(2-4) less_imp_neq [OF assms(3)] by simp
section \<open>Properties\<close>

text \<open>
  (C17) Page allocation is complete and exact: whenever some page other than the one handed out
  last is free and below the address limit, \<^verbatim>\<open>physical_alloc\<close> returns within one sweep
  of the array; the page it returns was free and below the limit, it alone becomes used, and the
  descriptor array, its bounds and every other page stay as they were.
\<close>

theorem physical_alloc_correct:
  assumes "pmm_ok s" and "i < length (physical_pages s)" and "i \<noteq> unat (lastidx s)" and "usable max_addr s i"
  shows "\<exists>j s'. physical_alloc max_addr s = Inr (j, s') \<and> unat j < length (physical_pages s)
     \<and> usable max_addr s (unat j) \<and> pmm_ok s'
     \<and> s' = s\<lparr>physical_pages := (physical_pages s)[unat j := page_set_status InUse (physical_pages s ! unat j)],
               free_pages := free_pages s - 1, lastidx := j\<rparr>"
proof -
  obtain j where "alloc_loop (Suc (length (physical_pages s))) (lastidx s - 1) max_addr s = Inr j"
    using alloc_loop_finds [OF assms] by blast
  then obtain s' where a: "physical_alloc max_addr s = Inr (j, s')"
    by (simp add: physical_alloc_def physical_alloc_fuel_def)
  show ?thesis
    using a physical_alloc_effect [OF assms(1) a] by blast
qed

theorem physical_alloc_correct_witness:
  "\<exists>j s'. physical_alloc 0xFFFFFFFF
      \<lparr>physical_pages = [0x100001, 0x101000, 0x102001], io_pages = [], end_of_kernel = 0,
       free_pages = 1, lastidx = 2\<rparr> = Inr (j, s')
     \<and> physical_pages s' = [0x100001, 0x101001, 0x102001]"
proof -
  let ?s = "\<lparr>physical_pages = [0x100001, 0x101000, 0x102001], io_pages = [], end_of_kernel = 0,
       free_pages = 1, lastidx = 2\<rparr>"
  have ok: "pmm_ok ?s" by (simp add: pmm_ok_def)
  have u: "usable 0xFFFFFFFF ?s 1" by (simp add: usable_def page_status_def page_address_def MM2_Address_Mask_def)
  have only: "unat j = 1" if "unat j < 3" "usable 0xFFFFFFFF ?s (unat j)" for j :: u32
    using that by (auto simp: usable_def page_status_def MM2_Address_Mask_def less_Suc_eq numeral_3_eq_3)
  from physical_alloc_correct [OF ok _ _ u] obtain j s' where j: "physical_alloc 0xFFFFFFFF ?s = Inr (j, s')"
      "unat j < 3" "usable 0xFFFFFFFF ?s (unat j)"
      "s' = ?s\<lparr>physical_pages := (physical_pages ?s)[unat j := page_set_status InUse (physical_pages ?s ! unat j)],
               free_pages := free_pages ?s - 1, lastidx := j\<rparr>"
    by auto
  then show ?thesis
    using only [OF j(2,3)]
    by (intro exI [of _ j] exI [of _ s'])
      (simp add: page_set_status_def MM2_Address_Mask_def)
qed







end
