(* ===== verification/Page_Directory.thy ===== *)
theory Page_Directory
  imports Physical
begin

unbundle bit_operations_syntax

text \<open>
  Page directories, \<^verbatim>\<open>kernel/mm2/pagedirectory.cpp\<close>. Page tables live in physical frames
  and are reached through one window, the page \<^verbatim>\<open>table_frame\<close>, whose own entry in a kernel
  page table says which frame it shows; a small cache in front of the tables holds entries by page
  number. The contents of other pages are not part of the state, so clearing a new page has no
  counterpart here, nor have TLB invalidations. The kernel page table of the window is the same in
  every directory. Operations run under the directory's lock (theory \<open>Locks\<close>) and are atomic.
\<close>

section \<open>Constants and state\<close>

definition MM2_Table_Entries :: nat where "MM2_Table_Entries = 1024"

definition MM2_Kernel_Boundary :: u32 where "MM2_Kernel_Boundary = 0x40000000"

definition MM2_Kernel_Pages :: nat where "MM2_Kernel_Pages = 262144"

definition MM2_Kernel_Tables :: nat where "MM2_Kernel_Tables = 256"

definition MM2_Total_Pages :: nat where "MM2_Total_Pages = 1048575"

definition PF_Present :: u32 where "PF_Present = 1"

definition PF_Writable :: u32 where "PF_Writable = 2"

definition PF_Usermode :: u32 where "PF_Usermode = 4"

definition PF_NoCache :: u32 where "PF_NoCache = 16"

definition PF_Do_Not_Use :: u32 where "PF_Do_Not_Use = 512"

definition PF_Guard_Page :: u32 where "PF_Guard_Page = 2560"

definition Mode_Kernel :: u32 where "Mode_Kernel = 1"

definition Mode_Userlow :: u32 where "Mode_Userlow = 2"

record cache_entry =
  cindex :: nat
  centry :: u32
  chits :: nat

text \<open>
  The two page-fault handlers the kernel registers. The list of regions is \<open>None\<close> for the
  boot-time directory until \<^verbatim>\<open>kernel_pagedir_late_init\<close> has run.
\<close>

datatype pf_fun = Shm_pf_handler | Mmap_read

record region =
  raddr :: u32
  rsize :: u32
  rid :: u64
  pf_handle :: pf_fun

record pdir =
  regions :: "region list option"
  directory :: "u32 list"
  directory_addr :: u32
  directory_physical :: u32
  current_table :: u32
  klowfree :: nat
  ulowfree :: nat
  upages :: u32
  entrycache :: "cache_entry list"

text \<open>
  What all directories share: the contents of the frames that hold page tables, the physical
  allocator, the count of kernel pages, and the page number of the window.
\<close>

record mmstate =
  frames :: "u32 \<Rightarrow> u32 list"
  pm :: pmm
  kpages :: u32
  window_page :: nat

definition entrycache_maxhits :: nat where "entrycache_maxhits = 1024"

section \<open>The window\<close>

definition frame_table :: "pdir \<Rightarrow> mmstate \<Rightarrow> u32" where
  "frame_table d m = (directory d ! (window_page m div MM2_Table_Entries) AND MM2_Address_Mask)"

definition window :: "pdir \<Rightarrow> mmstate \<Rightarrow> u32" where
  "window d m = (frames m (frame_table d m) ! (window_page m mod MM2_Table_Entries) AND MM2_Address_Mask)"

definition win_read :: "nat \<Rightarrow> pdir \<Rightarrow> mmstate \<Rightarrow> u32" where
  "win_read j d m = frames m (window d m) ! j"

definition win_write :: "nat \<Rightarrow> u32 \<Rightarrow> pdir \<Rightarrow> mmstate \<Rightarrow> mmstate" where
  "win_write j x d m = m\<lparr>frames := (frames m)(window d m := (frames m (window d m))[j := x])\<rparr>"

definition win_clear :: "pdir \<Rightarrow> mmstate \<Rightarrow> mmstate" where
  "win_clear d m = m\<lparr>frames := (frames m)(window d m := replicate MM2_Table_Entries 0)\<rparr>"

definition map_table :: "u32 \<Rightarrow> pdir \<Rightarrow> mmstate \<Rightarrow> bool \<times> pdir \<times> mmstate" where
  "map_table tableaddr d m =
     (if tableaddr AND MM2_Address_Mask = 0 then (False, d, m)
      else
        let a = (tableaddr AND MM2_Address_Mask)
        in if directory d ! (window_page m div MM2_Table_Entries) AND PF_Present \<noteq> 0
           then (let ft = frame_table d m;
                     row = (frames m ft)[window_page m mod MM2_Table_Entries := a OR PF_Present OR PF_Writable]
                 in (True, d\<lparr>current_table := a\<rparr>, m\<lparr>frames := (frames m)(ft := row)\<rparr>))
           else (False, d, m))"

section \<open>The entry cache\<close>

primrec cache_get :: "nat \<Rightarrow> cache_entry list \<Rightarrow> u32 \<times> cache_entry list" where
  "cache_get i [] = (0, [])"
| "cache_get i (c # cs) =
     (if cindex c = i
      then (centry c, (if chits c < entrycache_maxhits then c\<lparr>chits := Suc (chits c)\<rparr> else c) # cs)
      else (case cache_get i cs of (e, cs') \<Rightarrow> (e, c # cs')))"

definition entrycache_get :: "nat \<Rightarrow> pdir \<Rightarrow> u32 \<times> pdir" where
  "entrycache_get i d = (case cache_get i (entrycache d) of (e, cs) \<Rightarrow> (e, d\<lparr>entrycache := cs\<rparr>))"

definition cache_victim :: "cache_entry list \<Rightarrow> nat" where
  "cache_victim cs =
     fold (\<lambda>i pos. if chits (cs ! i) < chits (cs ! pos) then i else pos) [0..<length cs] 0"

definition entrycache_set :: "nat \<Rightarrow> u32 \<Rightarrow> pdir \<Rightarrow> pdir" where
  "entrycache_set i e d =
     (if e = 0 then d
      else d\<lparr>entrycache := (entrycache d)[cache_victim (entrycache d) := \<lparr>cindex = i, centry = e, chits = 0\<rparr>]\<rparr>)"

definition entrycache_clear :: "nat \<Rightarrow> pdir \<Rightarrow> pdir" where
  "entrycache_clear i d =
     d\<lparr>entrycache := map (\<lambda>c. if cindex c = i then \<lparr>cindex = 0, centry = 0, chits = 0\<rparr> else c) (entrycache d)\<rparr>"

section \<open>Table entries\<close>

definition get_table_entry :: "nat \<Rightarrow> pdir \<Rightarrow> mmstate \<Rightarrow> u32 \<times> pdir \<times> mmstate" where
  "get_table_entry pageindex d m =
     (let (ret, d1) = entrycache_get pageindex d
      in if ret \<noteq> 0 then (ret, d1, m)
         else
           let tableno = pageindex div MM2_Table_Entries;
               pageno = pageindex mod MM2_Table_Entries;
               (ok, d2, m2) = (if directory d1 ! tableno AND MM2_Address_Mask \<noteq> 0
                               then map_table (directory d1 ! tableno) d1 m else (False, d1, m));
               e = (if ok then win_read pageno d2 m2 else 0)
           in (e, entrycache_set pageindex e d2, m2))"

definition create_table :: "nat \<Rightarrow> pdir \<Rightarrow> mmstate \<Rightarrow> (pdir \<times> mmstate) kres" where
  "create_table tableno d m =
     kbind (physical_alloc 0xFFFFFFFF (pm m))
       (\<lambda>(i, pm'). let addr = page_address (physical_pages pm' ! unat i);
            flags = (if tableno \<ge> MM2_Kernel_Tables then PF_Present OR PF_Writable OR PF_Usermode
                     else PF_Present OR PF_Writable);
            d1 = d\<lparr>directory := (directory d)[tableno := addr OR flags]\<rparr>;
            m1 = m\<lparr>pm := pm'\<rparr>;
            last_table = current_table d1;
            (ok, d2, m2) = map_table addr d1 m1;
            m3 = win_clear d2 m2;
            (ok', d4, m4) = (if last_table \<noteq> 0 then map_table last_table d2 m3 else (True, d2, m3))
          in Inr (d4, m4))"

definition set_table_entry :: "nat \<Rightarrow> u32 \<Rightarrow> pdir \<Rightarrow> mmstate \<Rightarrow> (pdir \<times> mmstate) kres" where
  "set_table_entry pageindex entry d m =
     (let tableno = pageindex div MM2_Table_Entries;
          pageno = pageindex mod MM2_Table_Entries;
          (ok, d1, m1) = (if directory d ! tableno \<noteq> 0 then map_table (directory d ! tableno) d m
                          else (False, d, m))
      in kbind (if ok then Inr (d1, m1)
                else kbind (create_table tableno d1 m1)
                       (\<lambda>(d2, m2). let (ok', d3, m3) = map_table (directory d2 ! tableno) d2 m2
                                   in Inr (d3, win_clear d3 m3)))
           (\<lambda>(d4, m4). Inr (entrycache_clear pageindex d4, win_write pageno entry d4 m4)))"

section \<open>Mapping and translation\<close>

definition virt2phys :: "u32 \<Rightarrow> pdir \<Rightarrow> mmstate \<Rightarrow> u32 \<times> pdir \<times> mmstate" where
  "virt2phys addr d m =
     (case get_table_entry (unat addr div 4096) d m of (e, d', m') \<Rightarrow>
        (let entry = (e AND MM2_Address_Mask)
         in (if entry \<noteq> 0 then entry + (addr AND NOT MM2_Address_Mask) else entry, d', m')))"

definition is_mapped :: "u32 \<Rightarrow> pdir \<Rightarrow> mmstate \<Rightarrow> bool \<times> pdir \<times> mmstate" where
  "is_mapped addr d m = (case virt2phys addr d m of (p, d', m') \<Rightarrow> (p \<noteq> 0, d', m'))"

definition is_available :: "nat \<Rightarrow> pdir \<Rightarrow> mmstate \<Rightarrow> bool \<times> pdir \<times> mmstate" where
  "is_available pageno d m =
     (case get_table_entry pageno d m of (e, d', m') \<Rightarrow>
        (e AND PF_Present = 0 \<and> e AND PF_Do_Not_Use = 0, d', m'))"

definition map_phys_at :: "u32 \<Rightarrow> physical_page \<Rightarrow> u32 \<Rightarrow> pdir \<Rightarrow> mmstate \<Rightarrow> (pdir \<times> mmstate) kres" where
  "map_phys_at addr page flags d m =
     kbind (set_table_entry (unat addr div 4096) (page_address page OR flags) d m)
       (\<lambda>(d', m'). if addr > MM2_Kernel_Boundary then Inr (d'\<lparr>upages := upages d' + 1\<rparr>, m')
                   else Inr (d', m'\<lparr>kpages := kpages m' + 1\<rparr>))"

definition map_page_at :: "u32 \<Rightarrow> u32 \<Rightarrow> pdir \<Rightarrow> mmstate \<Rightarrow> (pdir \<times> mmstate) kres" where
  "map_page_at addr flags d m =
     kbind (physical_alloc 0xFFFFFFFF (pm m))
       (\<lambda>(i, pm'). map_phys_at (addr AND MM2_Address_Mask) (physical_pages pm' ! unat i) flags d (m\<lparr>pm := pm'\<rparr>))"

text \<open>
  The search for a run of free page numbers. \<open>first\<close> is the start of the current run, zero for
  none, and \<open>found\<close> its length.
\<close>

function alloc_search :: "nat \<Rightarrow> nat \<Rightarrow> u32 \<Rightarrow> nat \<Rightarrow> nat \<Rightarrow> pdir \<Rightarrow> mmstate \<Rightarrow> nat option \<times> pdir \<times> mmstate" where
  "alloc_search pageno pages mode first found d m =
     (if pageno < MM2_Total_Pages then
        (let (avail, d1, m1) = is_available pageno d m;
             first' = (if avail then (if first = 0 then pageno else first) else 0);
             found' = (if avail then Suc found else 0);
             d2 = (if \<not> avail \<and> pages = 1 \<and> mode AND Mode_Kernel \<noteq> 0 then d1\<lparr>klowfree := pageno\<rparr> else d1);
             d3 = (if \<not> avail \<and> pages = 1 \<and> mode AND Mode_Userlow \<noteq> 0 then d2\<lparr>ulowfree := pageno\<rparr> else d2)
         in if found' = pages then (Some first', d3, m1)
            else alloc_search (Suc pageno) pages mode first' found' d3 m1)
      else (None, d, m))"
  by pat_completeness auto
termination
  by (relation "measure (\<lambda>(pageno, _). MM2_Total_Pages - pageno)") auto

declare alloc_search.simps [simp del]

fun map_run :: "nat \<Rightarrow> u32 \<Rightarrow> u32 \<Rightarrow> pdir \<Rightarrow> mmstate \<Rightarrow> (pdir \<times> mmstate) kres" where
  "map_run 0 addr flags d m = Inr (d, m)"
| "map_run (Suc n) addr flags d m =
     kbind (map_page_at addr flags d m) (\<lambda>(d', m'). map_run n (addr + MM2_Page_Size) flags d' m')"

definition pd_alloc :: "nat \<Rightarrow> u32 \<Rightarrow> pdir \<Rightarrow> mmstate \<Rightarrow> (u32 \<times> pdir \<times> mmstate) kres" where
  "pd_alloc pages mode d m =
     (if mode AND Mode_Kernel \<noteq> 0 \<or> mode AND Mode_Userlow \<noteq> 0 then
        (let start = (if mode AND Mode_Userlow \<noteq> 0 then ulowfree d else klowfree d);
             (r, d1, m1) = alloc_search start pages mode 0 0 d m;
             virtual_addr = (case r of Some p \<Rightarrow> word_of_nat (p * 4096) | None \<Rightarrow> 0)
         in if virtual_addr \<noteq> 0
            then kbind (map_run pages virtual_addr (PF_Present OR PF_Writable OR PF_Usermode) d1 m1)
                   (\<lambda>(d2, m2). Inr (virtual_addr, d2, m2))
            else Inr (0, d1, m1))
      else Inl (Panic ''(MM2) Allocation mode not implemented!''))"

definition alloc_pages_at :: "nat \<Rightarrow> u32 \<Rightarrow> pdir \<Rightarrow> mmstate \<Rightarrow> (pdir \<times> mmstate) kres" where
  "alloc_pages_at pages baseaddr d m =
     map_run pages baseaddr
       (if baseaddr \<ge> MM2_Kernel_Boundary then PF_Present OR PF_Writable OR PF_Usermode
        else PF_Present OR PF_Writable) d m"

definition free_one :: "u32 \<Rightarrow> pdir \<Rightarrow> mmstate \<Rightarrow> (pdir \<times> mmstate) kres" where
  "free_one pageaddr d m =
     (let pageno = unat pageaddr div 4096;
          d1 = (if pageno < MM2_Kernel_Pages \<and> pageno < klowfree d then d\<lparr>klowfree := pageno\<rparr>
                else if pageno \<ge> MM2_Kernel_Pages \<and> pageno < ulowfree d then d\<lparr>ulowfree := pageno\<rparr>
                else d);
          (e, d2, m2) = get_table_entry pageno d1 m
      in kbind (if e AND PF_Present \<noteq> 0 then physical_free (e AND MM2_Address_Mask) (pm m2) else Inr (pm m2))
           (\<lambda>pm'. kbind (set_table_entry pageno 0 d2 (m2\<lparr>pm := pm'\<rparr>))
             (\<lambda>(d3, m3). if pageaddr > MM2_Kernel_Boundary then Inr (d3\<lparr>upages := upages d3 - 1\<rparr>, m3)
                         else Inr (d3, m3\<lparr>kpages := kpages m3 - 1\<rparr>))))"

fun free_run :: "nat \<Rightarrow> u32 \<Rightarrow> pdir \<Rightarrow> mmstate \<Rightarrow> (pdir \<times> mmstate) kres" where
  "free_run 0 addr d m = Inr (d, m)"
| "free_run (Suc n) addr d m =
     kbind (free_one addr d m) (\<lambda>(d', m'). free_run n (addr + MM2_Page_Size) d' m')"

definition pd_free_pages :: "u32 \<Rightarrow> nat \<Rightarrow> pdir \<Rightarrow> mmstate \<Rightarrow> (pdir \<times> mmstate) kres" where
  "pd_free_pages addr pages d m = free_run pages addr d m"

definition guard_page_at :: "u32 \<Rightarrow> pdir \<Rightarrow> mmstate \<Rightarrow> (pdir \<times> mmstate) kres" where
  "guard_page_at ptr d m =
     (let pageno = unat ptr div 4096;
          (e, d1, m1) = get_table_entry pageno d m
      in kbind (if e AND PF_Present \<noteq> 0
                then kbind (pd_free_pages ptr 1 d1 m1) (\<lambda>(d2, m2). Inr (get_table_entry pageno d2 m2))
                else Inr (e, d1, m1))
           (\<lambda>(e', d3, m3). set_table_entry pageno (e' OR PF_Guard_Page) d3 m3))"

definition copy_kernelspace :: "pdir \<Rightarrow> pdir \<Rightarrow> pdir" where
  "copy_kernelspace src d =
     d\<lparr>directory := take MM2_Kernel_Tables (directory src) @ drop MM2_Kernel_Tables (directory d),
       klowfree := klowfree src\<rparr>"

definition get_kernel_used :: "mmstate \<Rightarrow> u32" where
  "get_kernel_used m = kpages m * MM2_Page_Size"

definition get_user_used :: "pdir \<Rightarrow> u32" where
  "get_user_used d = upages d * MM2_Page_Size"

section \<open>Regions\<close>

definition add_region :: "u32 \<Rightarrow> u32 \<Rightarrow> pf_fun \<Rightarrow> u64 \<Rightarrow> pdir \<Rightarrow> pdir kres" where
  "add_region addr sz h ident d =
     (case regions d of
        None \<Rightarrow> Inl OutOfBounds
      | Some rs \<Rightarrow> Inr (d\<lparr>regions := Some (rs @ [\<lparr>raddr = addr, rsize = sz, rid = ident, pf_handle = h\<rparr>])\<rparr>))"

fun remove_first_region :: "u32 \<Rightarrow> region list \<Rightarrow> region list" where
  "remove_first_region addr [] = []"
| "remove_first_region addr (r # rs) = (if raddr r = addr then rs else r # remove_first_region addr rs)"

definition remove_region :: "u32 \<Rightarrow> pdir \<Rightarrow> pdir kres" where
  "remove_region addr d =
     (case regions d of
        None \<Rightarrow> Inl OutOfBounds
      | Some rs \<Rightarrow> Inr (d\<lparr>regions := Some (remove_first_region addr rs)\<rparr>))"

definition in_region :: "u32 \<Rightarrow> region \<Rightarrow> bool" where
  "in_region addr r \<longleftrightarrow> raddr r \<le> addr \<and> raddr r + rsize r > addr"

definition find_region :: "u32 \<Rightarrow> pdir \<Rightarrow> region option" where
  "find_region addr d = (case regions d of None \<Rightarrow> None | Some rs \<Rightarrow> List.find (in_region addr) rs)"

section \<open>Construction and destruction\<close>

text \<open>
  The boot-time directory lies in cleared static storage. A heap-allocated one sets only the
  \<^verbatim>\<open>entry\<close> fields of its cache; \<open>junk\<close> is what the other two fields of each slot hold.
\<close>

definition pdir_boot :: "u32 list \<Rightarrow> u32 \<Rightarrow> pdir" where
  "pdir_boot tables a =
     \<lparr>regions = None, directory = tables, directory_addr = a, directory_physical = a, current_table = 0,
      klowfree = 0, ulowfree = MM2_Kernel_Pages, upages = 0,
      entrycache = replicate 64 \<lparr>cindex = 0, centry = 0, chits = 0\<rparr>\<rparr>"

definition pdir_fresh :: "(nat \<times> nat) list \<Rightarrow> u32 \<Rightarrow> u32 \<Rightarrow> pdir" where
  "pdir_fresh junk a phys =
     \<lparr>regions = Some [], directory = replicate MM2_Table_Entries 0, directory_addr = a,
      directory_physical = phys, current_table = 0, klowfree = 0, ulowfree = MM2_Kernel_Pages, upages = 0,
      entrycache = map (\<lambda>(i, h). \<lparr>cindex = i, centry = 0, chits = h\<rparr>) junk\<rparr>"

text \<open>The destructor's inner loop over the window, from slot \<open>j\<close> on for \<open>n\<close> slots.\<close>

fun free_slots :: "nat \<Rightarrow> nat \<Rightarrow> pdir \<Rightarrow> mmstate \<Rightarrow> mmstate kres" where
  "free_slots 0 j d m = Inr m"
| "free_slots (Suc n) j d m =
     (if win_read j d m AND PF_Present \<noteq> 0
      then kbind (physical_free (win_read j d m AND MM2_Address_Mask) (pm m))
             (\<lambda>pm'. free_slots n (Suc j) d (win_write j 0 d (m\<lparr>pm := pm'\<rparr>)))
      else free_slots n (Suc j) d m)"

fun free_tables :: "nat \<Rightarrow> nat \<Rightarrow> pdir \<Rightarrow> mmstate \<Rightarrow> (pdir \<times> mmstate) kres" where
  "free_tables 0 i d m = Inr (d, m)"
| "free_tables (Suc n) i d m =
     (case map_table (directory d ! i) d m of (ok, d1, m1) \<Rightarrow>
        if ok
        then kbind (free_slots MM2_Table_Entries 0 d1 m1)
               (\<lambda>m2. kbind (physical_free (directory d1 ! i AND MM2_Address_Mask) (pm m2))
                 (\<lambda>pm'. free_tables n (Suc i) (d1\<lparr>directory := (directory d1)[i := 0]\<rparr>) (m2\<lparr>pm := pm'\<rparr>)))
        else free_tables n (Suc i) d1 m1)"

fun count_present :: "nat \<Rightarrow> nat \<Rightarrow> pdir \<Rightarrow> mmstate \<Rightarrow> pdir \<times> mmstate" where
  "count_present 0 i d m = (d, m)"
| "count_present (Suc n) i d m =
     (case map_table (directory d ! i) d m of (ok, d1, m1) \<Rightarrow>
        count_present n (Suc i) d1
          (if ok then m1\<lparr>kpages := kpages m1
                   + word_of_nat (length (filter (\<lambda>j. win_read j d1 m1 AND PF_Present \<noteq> 0) [0..<MM2_Table_Entries]))\<rparr>
           else m1))"

definition kernel_pagedir_late_init :: "pdir \<Rightarrow> mmstate \<Rightarrow> pdir \<times> mmstate" where
  "kernel_pagedir_late_init d m =
     (if regions d = None then count_present MM2_Kernel_Tables 0 (d\<lparr>regions := Some []\<rparr>) m else (d, m))"

section \<open>The flat view of a directory\<close>

text \<open>
  \<open>pte\<close> reads an entry straight from the tables. The invariant of a directory: the window's table
  is present, every table has its 1024 entries, no two slots share a table, and a cached entry is
  the one in the table. The window's own entry is rewritten on each access and is left out of the
  view; it is always present.
\<close>

definition table_addr :: "pdir \<Rightarrow> nat \<Rightarrow> u32" where
  "table_addr d t = (directory d ! t AND MM2_Address_Mask)"

definition pte :: "pdir \<Rightarrow> mmstate \<Rightarrow> nat \<Rightarrow> u32" where
  "pte d m i = (if table_addr d (i div MM2_Table_Entries) = 0 then 0
                else frames m (table_addr d (i div MM2_Table_Entries)) ! (i mod MM2_Table_Entries))"

definition valid_page :: "mmstate \<Rightarrow> nat \<Rightarrow> bool" where
  "valid_page m i \<longleftrightarrow> i < MM2_Table_Entries * MM2_Table_Entries \<and> i \<noteq> window_page m"

definition tables_ok :: "pdir \<Rightarrow> mmstate \<Rightarrow> bool" where
  "tables_ok d m \<longleftrightarrow> length (directory d) = MM2_Table_Entries
     \<and> window_page m < MM2_Table_Entries * MM2_Table_Entries
     \<and> directory d ! (window_page m div MM2_Table_Entries) AND PF_Present \<noteq> 0
     \<and> frame_table d m \<noteq> 0
     \<and> (\<forall>a. length (frames m a) = MM2_Table_Entries)
     \<and> (\<forall>t < MM2_Table_Entries. \<forall>u < MM2_Table_Entries.
          table_addr d t \<noteq> 0 \<longrightarrow> table_addr d t = table_addr d u \<longrightarrow> t = u)"

definition cache_ok :: "pdir \<Rightarrow> mmstate \<Rightarrow> bool" where
  "cache_ok d m \<longleftrightarrow> entrycache d \<noteq> []
     \<and> (\<forall>c \<in> set (entrycache d). centry c \<noteq> 0 \<longrightarrow> valid_page m (cindex c) \<longrightarrow> centry c = pte d m (cindex c))
     \<and> (\<forall>c \<in> set (entrycache d). centry c \<noteq> 0 \<longrightarrow> cindex c = window_page m \<longrightarrow> centry c AND PF_Present \<noteq> 0)"

definition same_view :: "pdir \<Rightarrow> mmstate \<Rightarrow> pdir \<Rightarrow> mmstate \<Rightarrow> bool" where
  "same_view d m d' m' \<longleftrightarrow> (\<forall>i. valid_page m i \<longrightarrow> pte d' m' i = pte d m i)"

lemma mask_idem [simp]: "(x AND MM2_Address_Mask) AND MM2_Address_Mask = x AND MM2_Address_Mask"
  by (simp add: and.assoc)

lemma mask_entry:
  "((x AND MM2_Address_Mask) OR PF_Present OR PF_Writable) AND MM2_Address_Mask = x AND MM2_Address_Mask"
proof -
  have "PF_Present AND MM2_Address_Mask = 0" "PF_Writable AND MM2_Address_Mask = 0"
    by (simp_all add: PF_Present_def PF_Writable_def MM2_Address_Mask_def)
  then show ?thesis by (simp add: bit.conj_disj_distrib2)
qed

lemma page_split:
  assumes "i < MM2_Table_Entries * MM2_Table_Entries"
  shows "i div MM2_Table_Entries < MM2_Table_Entries" and "i mod MM2_Table_Entries < MM2_Table_Entries"
  using assms by (simp_all add: MM2_Table_Entries_def less_mult_imp_div_less)

lemma page_split_inj:
  "i div MM2_Table_Entries = j div MM2_Table_Entries \<Longrightarrow> i mod MM2_Table_Entries = j mod MM2_Table_Entries \<Longrightarrow> i = j"
  by (metis div_mult_mod_eq)

lemma frame_table_alt: "frame_table d m = table_addr d (window_page m div MM2_Table_Entries)"
  by (simp add: frame_table_def table_addr_def)

lemma tables_okD:
  assumes "tables_ok d m"
  shows "length (directory d) = MM2_Table_Entries"
    and "window_page m < MM2_Table_Entries * MM2_Table_Entries"
    and "directory d ! (window_page m div MM2_Table_Entries) AND PF_Present \<noteq> 0"
    and "frame_table d m \<noteq> 0"
  using assms unfolding tables_ok_def by simp_all

lemma frame_length: "tables_ok d m \<Longrightarrow> length (frames m a) = MM2_Table_Entries"
  unfolding tables_ok_def by blast

lemma table_inj:
  "tables_ok d m \<Longrightarrow> t < MM2_Table_Entries \<Longrightarrow> u < MM2_Table_Entries \<Longrightarrow> table_addr d t \<noteq> 0 \<Longrightarrow>
    table_addr d t = table_addr d u \<Longrightarrow> t = u"
  unfolding tables_ok_def by blast

section \<open>The window shows the table it was pointed at\<close>

definition show_table :: "u32 \<Rightarrow> pdir \<Rightarrow> mmstate \<Rightarrow> mmstate" where
  "show_table a d m = m\<lparr>frames := (frames m)(frame_table d m :=
     (frames m (frame_table d m))[window_page m mod MM2_Table_Entries := a OR PF_Present OR PF_Writable])\<rparr>"

lemma map_table_eq:
  assumes "tables_ok d m" and "a AND MM2_Address_Mask \<noteq> 0"
  shows "map_table a d m = (True, d\<lparr>current_table := a AND MM2_Address_Mask\<rparr>, show_table (a AND MM2_Address_Mask) d m)"
  using tables_okD(3) [OF assms(1)] assms(2) by (simp add: map_table_def show_table_def Let_def)

lemma table_addr_current [simp]:
  "table_addr (d\<lparr>current_table := c\<rparr>) = table_addr d" "frame_table (d\<lparr>current_table := c\<rparr>) = frame_table d"
  "table_addr (d\<lparr>entrycache := cs\<rparr>) = table_addr d" "frame_table (d\<lparr>entrycache := cs\<rparr>) = frame_table d"
  by (simp_all add: table_addr_def frame_table_def fun_eq_iff)

lemma pte_congs [simp]:
  "pte (d\<lparr>current_table := c\<rparr>) = pte d" "pte (d\<lparr>entrycache := cs\<rparr>) = pte d"
  by (simp_all add: pte_def fun_eq_iff)

lemma tables_ok_congs [simp]:
  "tables_ok (d\<lparr>current_table := c\<rparr>) m = tables_ok d m" "tables_ok (d\<lparr>entrycache := cs\<rparr>) m = tables_ok d m"
  by (simp_all add: tables_ok_def)

lemma show_table_fields [simp]:
  "pm (show_table a d m) = pm m" "kpages (show_table a d m) = kpages m"
  "window_page (show_table a d m) = window_page m" "frame_table d' (show_table a d m) = frame_table d' m"
  "valid_page (show_table a d m) = valid_page m"
  by (simp_all add: show_table_def frame_table_def valid_page_def fun_eq_iff)

lemma show_table_length [simp]: "length (frames (show_table a d m) t) = length (frames m t)"
  by (simp add: show_table_def)

lemma tables_ok_show [simp]: "tables_ok d' (show_table a d m) = tables_ok d' m"
  by (simp add: tables_ok_def)

lemma show_table_pte:
  assumes "tables_ok d m" and "valid_page m i"
  shows "pte d (show_table a d m) i = pte d m i"
proof (cases "table_addr d (i div MM2_Table_Entries) = frame_table d m")
  case True
  have "i div MM2_Table_Entries = window_page m div MM2_Table_Entries"
  proof (rule table_inj [OF assms(1)])
    show "i div MM2_Table_Entries < MM2_Table_Entries"
      using assms(2) by (intro page_split(1)) (simp add: valid_page_def)
    show "window_page m div MM2_Table_Entries < MM2_Table_Entries"
      by (rule page_split(1) [OF tables_okD(2) [OF assms(1)]])
    show "table_addr d (i div MM2_Table_Entries) \<noteq> 0" using True tables_okD(4) [OF assms(1)] by simp
    show "table_addr d (i div MM2_Table_Entries) = table_addr d (window_page m div MM2_Table_Entries)"
      using True by (simp add: frame_table_alt)
  qed
  moreover have "i \<noteq> window_page m" using assms(2) by (simp add: valid_page_def)
  ultimately have "i mod MM2_Table_Entries \<noteq> window_page m mod MM2_Table_Entries"
    using page_split_inj [of i "window_page m"] by blast
  then show ?thesis by (simp add: pte_def show_table_def)
next
  case False
  then show ?thesis by (simp add: pte_def show_table_def)
qed

lemma window_show:
  assumes "tables_ok d m"
  shows "window d (show_table (a AND MM2_Address_Mask) d m) = a AND MM2_Address_Mask"
proof -
  note wp = page_split [OF tables_okD(2) [OF assms]]
  from wp(2) have "window_page m mod MM2_Table_Entries < length (frames m (frame_table d m))"
    by (simp add: frame_length [OF assms])
  then show ?thesis by (simp add: window_def show_table_def frame_table_def mask_entry)
qed

section \<open>The cache\<close>

lemma cache_get_sound:
  "cache_get i cs = (e, cs') \<Longrightarrow> length cs' = length cs
     \<and> (e \<noteq> 0 \<longrightarrow> (\<exists>c \<in> set cs. cindex c = i \<and> centry c = e))
     \<and> map (\<lambda>c. (cindex c, centry c)) cs' = map (\<lambda>c. (cindex c, centry c)) cs"
  by (induction cs arbitrary: cs') (auto split: if_splits prod.splits)

lemma map_pair_set:
  assumes "map (\<lambda>c. (cindex c, centry c)) cs' = map (\<lambda>c. (cindex c, centry c)) cs" and "c \<in> set cs'"
  shows "\<exists>c' \<in> set cs. cindex c' = cindex c \<and> centry c' = centry c"
proof -
  have "(cindex c, centry c) \<in> set (map (\<lambda>c. (cindex c, centry c)) cs')" using assms(2) by force
  then have "(cindex c, centry c) \<in> set (map (\<lambda>c. (cindex c, centry c)) cs)" by (simp only: assms(1))
  then show ?thesis by auto
qed

lemma entrycache_get_ok:
  assumes "cache_ok d m" and "entrycache_get i d = (e, d')"
  shows "\<exists>cs. d' = d\<lparr>entrycache := cs\<rparr>" and "cache_ok d' m" and "e \<noteq> 0 \<Longrightarrow> valid_page m i \<Longrightarrow> e = pte d m i"
    and "e \<noteq> 0 \<Longrightarrow> i = window_page m \<Longrightarrow> e AND PF_Present \<noteq> 0"
proof -
  obtain cs where g: "cache_get i (entrycache d) = (e, cs)" and d': "d' = d\<lparr>entrycache := cs\<rparr>"
    using assms(2) by (auto simp: entrycache_get_def split: prod.splits)
  note gs = cache_get_sound [OF g]
  show "\<exists>cs. d' = d\<lparr>entrycache := cs\<rparr>" using d' by blast
  have ne: "cs \<noteq> []" using assms(1) gs by (auto simp: cache_ok_def)
  have "centry c = pte d m (cindex c)" if "c \<in> set cs" "centry c \<noteq> 0" "valid_page m (cindex c)" for c
    using map_pair_set [of cs "entrycache d" c] gs that assms(1) by (auto simp: cache_ok_def)
  moreover have "centry c AND PF_Present \<noteq> 0" if "c \<in> set cs" "centry c \<noteq> 0" "cindex c = window_page m" for c
    using map_pair_set [of cs "entrycache d" c] gs that assms(1) by (force simp: cache_ok_def)
  ultimately show "cache_ok d' m" using ne by (simp add: cache_ok_def d')
  show "e = pte d m i" if "e \<noteq> 0" "valid_page m i"
    using gs that assms(1) by (auto simp: cache_ok_def)
  show "e AND PF_Present \<noteq> 0" if "e \<noteq> 0" "i = window_page m"
    using gs that assms(1) by (auto simp: cache_ok_def)
qed

lemma entrycache_set_ok:
  assumes "cache_ok d m" and "valid_page m i \<longrightarrow> e = pte d m i" and "i = window_page m \<longrightarrow> e AND PF_Present \<noteq> 0"
  shows "cache_ok (entrycache_set i e d) m"
  using assms by (auto simp: cache_ok_def entrycache_set_def dest!: set_update_subset_insert [THEN subsetD])

lemma entrycache_set_view [simp]:
  "pte (entrycache_set i e d) = pte d" "tables_ok (entrycache_set i e d) m = tables_ok d m"
  by (simp_all add: entrycache_set_def)

lemma entrycache_clear_view [simp]:
  "pte (entrycache_clear i d) = pte d" "tables_ok (entrycache_clear i d) m = tables_ok d m"
  by (simp_all add: entrycache_clear_def)

text \<open>Clearing a page's slots makes the cache coherent with any change of that page's entry.\<close>

lemma entrycache_clear_ok:
  assumes "cache_ok d m" and "window_page m' = window_page m"
    and "\<forall>j. valid_page m j \<longrightarrow> j \<noteq> i \<longrightarrow> pte d' m' j = pte d m j" and "entrycache d' = entrycache d"
  shows "cache_ok (entrycache_clear i d') m'"
  using assms by (auto simp: cache_ok_def entrycache_clear_def valid_page_def)

lemma cache_ok_view:
  assumes "cache_ok d m" and "\<forall>i. valid_page m i \<longrightarrow> pte d' m' i = pte d m i"
    and "window_page m' = window_page m" and "entrycache d' = entrycache d"
  shows "cache_ok d' m'"
  using assms by (auto simp: cache_ok_def valid_page_def)

section \<open>Reading an entry\<close>

lemma and_or_bits:
  "(x OR PF_Present OR PF_Writable) AND PF_Present \<noteq> 0"
proof
  assume a: "(x OR PF_Present OR PF_Writable) AND PF_Present = 0"
  have "bit ((x OR PF_Present OR PF_Writable) AND PF_Present) 0"
    by (simp add: bit_and_iff bit_or_iff PF_Present_def)
  with a show False by simp
qed

lemma get_table_entry_ok:
  assumes t: "tables_ok d m" and c: "cache_ok d m" and i: "i < MM2_Table_Entries * MM2_Table_Entries"
    and g: "get_table_entry i d m = (e, d', m')"
  shows "tables_ok d' m'" and "cache_ok d' m'" and "same_view d m d' m'"
    and "valid_page m i \<Longrightarrow> e = pte d m i" and "i = window_page m \<Longrightarrow> e AND PF_Present \<noteq> 0"
    and "\<exists>a cs. d' = d\<lparr>current_table := a, entrycache := cs\<rparr>" and "\<exists>f. m' = m\<lparr>frames := f\<rparr>"
proof -
  obtain r d1 where eg: "entrycache_get i d = (r, d1)" by (cases "entrycache_get i d")
  note e1 = entrycache_get_ok [OF c eg]
  obtain cs where d1: "d1 = d\<lparr>entrycache := cs\<rparr>" using e1(1) by blast
  let ?tn = "i div MM2_Table_Entries" and ?pn = "i mod MM2_Table_Entries"
  let ?a = "table_addr d ?tn"
  consider (hit) "r \<noteq> 0" | (none) "r = 0" "?a = 0" | (walk) "r = 0" "?a \<noteq> 0" by blast
  then have "tables_ok d' m' \<and> cache_ok d' m' \<and> same_view d m d' m' \<and> (valid_page m i \<longrightarrow> e = pte d m i)
    \<and> (i = window_page m \<longrightarrow> e AND PF_Present \<noteq> 0)
    \<and> (\<exists>a cs. d' = d\<lparr>current_table := a, entrycache := cs\<rparr>) \<and> (\<exists>f. m' = m\<lparr>frames := f\<rparr>)"
  proof cases
    case hit
    then have "e = r" "d' = d1" "m' = m" using g by (simp_all add: get_table_entry_def eg)
    moreover have "\<exists>a cs'. d1 = d\<lparr>current_table := a, entrycache := cs'\<rparr>"
      by (rule exI [of _ "current_table d"], rule exI [of _ cs]) (simp add: d1)
    moreover have "\<exists>f. m = m\<lparr>frames := f\<rparr>" by (rule exI [of _ "frames m"]) simp
    ultimately show ?thesis using e1(2-4) hit t by (simp add: d1 same_view_def)
  next
    case none
    then have "e = 0" "d' = d1" "m' = m"
      using g by (simp_all add: get_table_entry_def eg d1 table_addr_def entrycache_set_def)
    moreover have "\<exists>a cs'. d1 = d\<lparr>current_table := a, entrycache := cs'\<rparr>"
      by (rule exI [of _ "current_table d"], rule exI [of _ cs]) (simp add: d1)
    moreover have "\<exists>f. m = m\<lparr>frames := f\<rparr>" by (rule exI [of _ "frames m"]) simp
    moreover have "i \<noteq> window_page m" using none(2) tables_okD(4) [OF t] by (auto simp: frame_table_alt)
    ultimately show ?thesis using e1(2) none t by (simp add: d1 same_view_def pte_def)
  next
    case walk
    let ?m = "show_table ?a d m" and ?d = "d1\<lparr>current_table := ?a\<rparr>"
    have "show_table ?a d1 m = ?m" by (simp add: show_table_def d1)
    then have mt: "map_table (directory d1 ! ?tn) d1 m = (True, ?d, ?m)"
      using map_table_eq [of d1 m "directory d1 ! ?tn"] t walk(2) by (simp add: table_addr_def d1)
    have w: "window ?d ?m = ?a"
      using window_show [OF t, of "directory d ! ?tn"] by (simp add: window_def table_addr_def d1)
    have e: "e = frames ?m ?a ! ?pn" and d': "d' = entrycache_set i e ?d" and m': "m' = ?m"
      using g walk mt w by (auto simp: get_table_entry_def eg win_read_def table_addr_def d1 Let_def)
    have ep: "e = pte d ?m i" using walk(2) by (simp add: e pte_def)
    have v: "pte ?d ?m j = pte d m j" if "valid_page m j" for j
      using show_table_pte [OF t that] by (simp add: d1)
    have win: "e AND PF_Present \<noteq> 0" if "i = window_page m"
    proof -
      have "?pn < length (frames m ?a)" using page_split(2) [OF i] by (simp add: frame_length [OF t])
      then have "e = (?a OR PF_Present OR PF_Writable)" using that by (simp add: e show_table_def frame_table_alt)
      then show ?thesis by (simp only: and_or_bits not_False_eq_True)
    qed
    have "cache_ok ?d ?m" by (rule cache_ok_view [OF e1(2)]) (use v in \<open>simp_all add: d1\<close>)
    then have "cache_ok d' m'"
      unfolding d' m' by (rule entrycache_set_ok) (use ep win in \<open>simp_all add: d1\<close>)
    moreover have "\<exists>a cs'. d' = d\<lparr>current_table := a, entrycache := cs'\<rparr>"
      by (rule exI [of _ ?a], rule exI [of _ "entrycache d'"]) (simp add: d' entrycache_set_def d1)
    moreover have "\<exists>f. m' = m\<lparr>frames := f\<rparr>" by (rule exI [of _ "frames m'"]) (simp add: m' show_table_def)
    ultimately show ?thesis using t v win ep show_table_pte [OF t] by (simp add: d' m' d1 same_view_def)
  qed
  then show "tables_ok d' m'" and "cache_ok d' m'" and "same_view d m d' m'"
    and "valid_page m i \<Longrightarrow> e = pte d m i" and "i = window_page m \<Longrightarrow> e AND PF_Present \<noteq> 0"
    and "\<exists>a cs. d' = d\<lparr>current_table := a, entrycache := cs\<rparr>" and "\<exists>f. m' = m\<lparr>frames := f\<rparr>" by blast+
qed

section \<open>Writing an entry\<close>

text \<open>Frames the allocator may still hand out are neither null, nor tables, nor listed twice.\<close>

definition free_index :: "pmm \<Rightarrow> nat \<Rightarrow> bool" where
  "free_index s i \<longleftrightarrow> i < length (physical_pages s) \<and> page_status (physical_pages s ! i) = status_code Free"

definition pool_ok :: "pdir \<Rightarrow> pmm \<Rightarrow> bool" where
  "pool_ok d s \<longleftrightarrow> pmm_ok s
     \<and> (\<forall>i. free_index s i \<longrightarrow> page_address (physical_pages s ! i) \<noteq> 0
          \<and> (\<forall>t < MM2_Table_Entries. table_addr d t \<noteq> page_address (physical_pages s ! i))
          \<and> (\<forall>j. free_index s j \<longrightarrow> page_address (physical_pages s ! j) = page_address (physical_pages s ! i) \<longrightarrow> j = i))"

definition pd_ok :: "pdir \<Rightarrow> mmstate \<Rightarrow> bool" where
  "pd_ok d m \<longleftrightarrow> tables_ok d m \<and> cache_ok d m \<and> pool_ok d (pm m)"

definition spare_page :: "pmm \<Rightarrow> bool" where
  "spare_page s \<longleftrightarrow> (\<exists>i < length (physical_pages s). i \<noteq> unat (lastidx s) \<and> usable 0xFFFFFFFF s i)"

lemma win_write_fields [simp]:
  "pm (win_write j x d m) = pm m" "kpages (win_write j x d m) = kpages m"
  "window_page (win_write j x d m) = window_page m" "frame_table d' (win_write j x d m) = frame_table d' m"
  "pm (win_clear d m) = pm m" "kpages (win_clear d m) = kpages m"
  "window_page (win_clear d m) = window_page m" "frame_table d' (win_clear d m) = frame_table d' m"
  by (simp_all add: win_write_def win_clear_def frame_table_def)

lemma tables_ok_write [simp]: "tables_ok d m \<Longrightarrow> tables_ok d (win_write j x d' m)"
  "tables_ok d m \<Longrightarrow> tables_ok d (win_clear d' m)"
  by (simp_all add: tables_ok_def) (simp_all add: win_write_def win_clear_def)

lemma valid_page_congs [simp]:
  "valid_page (win_write j x d m) = valid_page m" "valid_page (win_clear d m) = valid_page m"
  by (simp_all add: valid_page_def fun_eq_iff)

lemma win_write_pte:
  assumes "tables_ok d m" and "window d m = table_addr d (i div MM2_Table_Entries)"
    and "table_addr d (i div MM2_Table_Entries) \<noteq> 0" and "i < MM2_Table_Entries * MM2_Table_Entries"
    and "j < MM2_Table_Entries * MM2_Table_Entries"
  shows "pte d (win_write (i mod MM2_Table_Entries) x d m) j = (if j = i then x else pte d m j)"
proof (cases "table_addr d (j div MM2_Table_Entries) = table_addr d (i div MM2_Table_Entries)")
  case True
  then have q: "j div MM2_Table_Entries = i div MM2_Table_Entries"
    by (intro table_inj [OF assms(1)]) (use assms page_split(1) in simp_all)
  have l: "i mod MM2_Table_Entries < length (frames m (table_addr d (i div MM2_Table_Entries)))"
    using page_split(2) [OF assms(4)] by (simp add: frame_length [OF assms(1)])
  show ?thesis
  proof (cases "j = i")
    case True
    then show ?thesis using assms(2,3) l by (simp add: pte_def win_write_def)
  next
    case False
    then have "i mod MM2_Table_Entries \<noteq> j mod MM2_Table_Entries" using page_split_inj [of j i] q by metis
    then show ?thesis using False assms(2,3) q by (simp add: pte_def win_write_def)
  qed
next
  case False
  then have "j \<noteq> i" by auto
  with False show ?thesis using assms(2) by (simp add: pte_def win_write_def)
qed

lemma win_clear_pte:
  assumes "tables_ok d m" and "window d m = table_addr d t" and "table_addr d t \<noteq> 0" and "t < MM2_Table_Entries"
    and "j < MM2_Table_Entries * MM2_Table_Entries"
  shows "pte d (win_clear d m) j = (if j div MM2_Table_Entries = t then 0 else pte d m j)"
proof (cases "j div MM2_Table_Entries = t")
  case True
  then show ?thesis using assms(2,3) page_split(2) [OF assms(5)] by (simp add: pte_def win_clear_def)
next
  case False
  then have "table_addr d (j div MM2_Table_Entries) \<noteq> table_addr d t"
    using table_inj [OF assms(1), of "j div MM2_Table_Entries" t] assms(3,4) page_split(1) [OF assms(5)] by metis
  with False show ?thesis using assms(2) by (simp add: pte_def win_clear_def)
qed

lemma map_table_any:
  assumes "tables_ok d m" and "map_table a d m = (ok, d', m')"
  shows "tables_ok d' m'" and "same_view d m d' m'" and "\<exists>c. d' = d\<lparr>current_table := c\<rparr>"
    and "pm m' = pm m" and "kpages m' = kpages m" and "window_page m' = window_page m"
proof -
  have "\<exists>c. d = d\<lparr>current_table := c\<rparr>" by (rule exI [of _ "current_table d"]) simp
  then have "tables_ok d' m' \<and> same_view d m d' m' \<and> (\<exists>c. d' = d\<lparr>current_table := c\<rparr>)
      \<and> pm m' = pm m \<and> kpages m' = kpages m \<and> window_page m' = window_page m"
  proof (cases "a AND MM2_Address_Mask = 0")
    case True
    with \<open>\<exists>c. d = d\<lparr>current_table := c\<rparr>\<close> show ?thesis using assms by (simp add: map_table_def same_view_def)
  next
    case False
    then have "d' = d\<lparr>current_table := a AND MM2_Address_Mask\<rparr>" "m' = show_table (a AND MM2_Address_Mask) d m"
      using assms(2) by (simp_all only: map_table_eq [OF assms(1) False] prod.inject)
    moreover from this have "\<exists>c. d' = d\<lparr>current_table := c\<rparr>" by blast
    ultimately show ?thesis using assms(1) show_table_pte [OF assms(1)] by (simp add: same_view_def)
  qed
  then show "tables_ok d' m'" and "same_view d m d' m'" and "\<exists>c. d' = d\<lparr>current_table := c\<rparr>"
    and "pm m' = pm m" and "kpages m' = kpages m" and "window_page m' = window_page m" by blast+
qed

lemma map_table_slot:
  assumes "tables_ok d m" and "table_addr d t \<noteq> 0"
  obtains d' m' where "map_table (directory d ! t) d m = (True, d', m')" and "d' = d\<lparr>current_table := table_addr d t\<rparr>"
    and "window d' m' = table_addr d t" and "tables_ok d' m'" and "same_view d m d' m'" and "pm m' = pm m"
    and "kpages m' = kpages m" and "window_page m' = window_page m"
proof -
  let ?a = "table_addr d t" let ?d = "d\<lparr>current_table := ?a\<rparr>" and ?m = "show_table ?a d m"
  have mt: "map_table (directory d ! t) d m = (True, ?d, ?m)"
    using map_table_eq [OF assms(1)] assms(2) by (simp add: table_addr_def)
  have "window ?d ?m = ?a"
    using window_show [OF assms(1), of "directory d ! t"] by (simp add: window_def table_addr_def)
  then show thesis using that [OF mt] map_table_any [OF assms(1) mt] by simp
qed

lemma pool_ok_fresh:
  assumes "pool_ok d s" and "physical_alloc 0xFFFFFFFF s = Inr (i, s')"
  shows "page_address (physical_pages s' ! unat i) \<noteq> 0"
    and "\<forall>t < MM2_Table_Entries. table_addr d t \<noteq> page_address (physical_pages s' ! unat i)"
    and "pool_ok d s'"
    and "\<forall>j. free_index s' j \<longrightarrow> page_address (physical_pages s' ! j) \<noteq> page_address (physical_pages s' ! unat i)"
proof -
  have ok: "pmm_ok s" using assms(1) by (simp add: pool_ok_def)
  note eff = physical_alloc_effect [OF ok assms(2)]
  have f: "free_index s (unat i)" using eff(1,2) by (simp add: free_index_def usable_def)
  have addr: "page_address (physical_pages s' ! j) = page_address (physical_pages s ! j)" for j
    using eff(1,3) by (cases "j = unat i") simp_all
  have sub: "free_index s j \<and> j \<noteq> unat i" if "free_index s' j" for j
    using that eff(1,3) by (cases "j = unat i") (simp_all add: free_index_def)
  show "page_address (physical_pages s' ! unat i) \<noteq> 0"
    and "\<forall>t < MM2_Table_Entries. table_addr d t \<noteq> page_address (physical_pages s' ! unat i)"
    using assms(1) f by (simp_all add: pool_ok_def addr)
  show "pool_ok d s'" using assms(1) eff(4) sub unfolding pool_ok_def addr by blast
  show "\<forall>j. free_index s' j \<longrightarrow> page_address (physical_pages s' ! j) \<noteq> page_address (physical_pages s' ! unat i)"
    using assms(1) f sub unfolding pool_ok_def addr by blast
qed

lemma physical_alloc_spare:
  assumes "pool_ok d s" and "spare_page s"
  shows "\<exists>i s'. physical_alloc 0xFFFFFFFF s = Inr (i, s')"
proof -
  have "pmm_ok s" using assms(1) by (simp add: pool_ok_def)
  then obtain j where "alloc_loop (Suc (length (physical_pages s))) (lastidx s - 1) 0xFFFFFFFF s = Inr j"
    using assms(2) alloc_loop_finds unfolding spare_page_def by blast
  then show ?thesis by (simp add: physical_alloc_def physical_alloc_fuel_def)
qed

definition table_flags :: "nat \<Rightarrow> u32" where
  "table_flags tableno = (if tableno \<ge> MM2_Kernel_Tables then PF_Present OR PF_Writable OR PF_Usermode
                          else PF_Present OR PF_Writable)"

lemma table_flags_mask: "(page_address p OR table_flags t) AND MM2_Address_Mask = page_address p"
proof -
  have "table_flags t AND MM2_Address_Mask = 0"
    by (simp add: table_flags_def PF_Present_def PF_Writable_def PF_Usermode_def MM2_Address_Mask_def)
  then show ?thesis by (simp add: bit.conj_disj_distrib2)
qed

text \<open>Installing an empty slot's table: the other slots keep theirs.\<close>

lemma install_table:
  assumes t: "tables_ok d m" and tn: "tn < MM2_Table_Entries" and z: "table_addr d tn = 0"
    and a: "page_address p \<noteq> 0" and fr: "\<forall>t < MM2_Table_Entries. table_addr d t \<noteq> page_address p"
  defines "d1 \<equiv> d\<lparr>directory := (directory d)[tn := page_address p OR table_flags tn]\<rparr>"
  shows "table_addr d1 tn = page_address p" and "tables_ok d1 m"
    and "\<And>j. j div MM2_Table_Entries \<noteq> tn \<Longrightarrow> pte d1 m j = pte d m j"
    and "\<And>u. u \<noteq> tn \<Longrightarrow> table_addr d1 u = table_addr d u"
proof -
  have len: "tn < length (directory d)" using tn tables_okD(1) [OF t] by simp
  show same: "table_addr d1 u = table_addr d u" if "u \<noteq> tn" for u using that by (simp add: table_addr_def d1_def)
  show new: "table_addr d1 tn = page_address p" using len by (simp add: table_addr_def d1_def table_flags_mask)
  have w: "window_page m div MM2_Table_Entries \<noteq> tn" using z tables_okD(4) [OF t] by (auto simp: frame_table_alt)
  have inj: "u = v" if "u < MM2_Table_Entries" "v < MM2_Table_Entries" "table_addr d1 u \<noteq> 0"
    "table_addr d1 u = table_addr d1 v" for u v
  proof -
    consider "u = v" | "u = tn" "v \<noteq> tn" | "u \<noteq> tn" "v = tn" | "u \<noteq> tn" "v \<noteq> tn" by blast
    then show ?thesis
    proof cases
      case 2 then show ?thesis using that(2,4) fr new same [of v] by metis
    next
      case 3 then show ?thesis using that(1,4) fr new same [of u] by metis
    next
      case 4 then show ?thesis using that same [of u] same [of v] table_inj [OF t that(1,2)] by metis
    qed
  qed
  have "frame_table d1 m \<noteq> 0" using tables_okD(4) [OF t] same [OF w] by (simp add: frame_table_alt)
  moreover have "directory d1 ! (window_page m div MM2_Table_Entries) AND PF_Present \<noteq> 0"
    using tables_okD(3) [OF t] w by (simp add: d1_def)
  moreover have len1: "length (directory d1) = MM2_Table_Entries" using tables_okD(1) [OF t] by (simp add: d1_def)
  ultimately show "tables_ok d1 m"
    unfolding tables_ok_def using inj tables_okD(1,2) [OF t] frame_length [OF t] len1 by blast
  show "pte d1 m j = pte d m j" if "j div MM2_Table_Entries \<noteq> tn" for j
    using same [OF that] by (simp add: pte_def)
qed


lemma same_view_trans:
  "same_view d m d1 m1 \<Longrightarrow> same_view d1 m1 d2 m2 \<Longrightarrow> window_page m1 = window_page m \<Longrightarrow> same_view d m d2 m2"
  by (simp add: same_view_def valid_page_def)

lemma tables_ok_pm [simp]:
  "tables_ok d (m\<lparr>pm := x\<rparr>) = tables_ok d m" "pte d (m\<lparr>pm := x\<rparr>) = pte d m" "valid_page (m\<lparr>pm := x\<rparr>) = valid_page m"
  by (simp_all add: tables_ok_def pte_def frame_table_def valid_page_def fun_eq_iff)

text \<open>
  A table made for an empty slot starts out with no entries, so the view does not change. The slot
  is then backed by a frame of its own.
\<close>

lemma create_table_ok:
  assumes t: "tables_ok d m" and p: "pool_ok d (pm m)" and tn: "tn < MM2_Table_Entries" and z: "table_addr d tn = 0"
    and al: "physical_alloc 0xFFFFFFFF (pm m) = Inr (i, pm')"
  obtains d' m' where "create_table tn d m = Inr (d', m')" and "tables_ok d' m'" and "same_view d m d' m'"
    and "table_addr d' tn \<noteq> 0" and "pool_ok d' (pm m')" and "pm m' = pm'" and "kpages m' = kpages m"
    and "window_page m' = window_page m"
    and "\<exists>c. d' = d\<lparr>directory := (directory d)[tn := page_address (physical_pages pm' ! unat i) OR table_flags tn],
                     current_table := c\<rparr>"
proof -
  let ?p = "physical_pages pm' ! unat i"
  define d1 where "d1 = d\<lparr>directory := (directory d)[tn := page_address ?p OR table_flags tn]\<rparr>"
  define m1 where "m1 = m\<lparr>pm := pm'\<rparr>"
  note fr = pool_ok_fresh [OF p al]
  note inst = install_table [OF t tn z fr(1,2), folded d1_def]
  have t1: "tables_ok d1 m1" using inst(2) by (simp add: m1_def)
  have nz: "table_addr d1 tn \<noteq> 0" using inst(1) fr(1) by simp
  obtain d2 m2 where mt: "map_table (directory d1 ! tn) d1 m1 = (True, d2, m2)"
    and d2: "d2 = d1\<lparr>current_table := table_addr d1 tn\<rparr>" and w2: "window d2 m2 = table_addr d1 tn"
    and r2: "tables_ok d2 m2" "same_view d1 m1 d2 m2" "pm m2 = pm m1" "kpages m2 = kpages m1" "window_page m2 = window_page m1"
    by (rule map_table_slot [OF t1 nz])
  have slot: "directory d1 ! tn = page_address ?p OR table_flags tn"
    using tn tables_okD(1) [OF t] by (simp add: d1_def)
  have mt': "map_table (page_address ?p) d1 m1 = (True, d2, m2)"
    using mt map_table_eq [OF t1, of "directory d1 ! tn"] map_table_eq [OF t1, of "page_address ?p"] fr(1)
    by (simp add: slot table_flags_mask)
  define m3 where "m3 = win_clear d2 m2"
  obtain ok d4 m4 where lt: "(if current_table d1 \<noteq> 0 then map_table (current_table d1) d2 m3 else (True, d2, m3)) = (ok, d4, m4)"
    by (metis prod_cases3)
  have t3: "tables_ok d2 m3" using r2(1) by (simp add: m3_def)
  have r4: "tables_ok d4 m4 \<and> same_view d2 m3 d4 m4 \<and> (\<exists>c. d4 = d2\<lparr>current_table := c\<rparr>) \<and> pm m4 = pm m3
      \<and> kpages m4 = kpages m3 \<and> window_page m4 = window_page m3"
  proof (cases "current_table d1 = 0")
    case True
    moreover have "\<exists>c. d2 = d2\<lparr>current_table := c\<rparr>" by (rule exI [of _ "current_table d2"]) simp
    ultimately show ?thesis using lt t3 by (simp add: same_view_def)
  next
    case False
    then have mt4: "map_table (current_table d1) d2 m3 = (ok, d4, m4)" using lt by simp
    show ?thesis using map_table_any [OF t3 mt4] by blast
  qed
  have run: "create_table tn d m = Inr (d4, m4)"
    using lt mt' by (simp add: create_table_def al Let_def d1_def m1_def m3_def table_flags_def split: prod.splits if_splits)
  have v: "pte d2 m3 j = pte d m j" if j: "valid_page m j" for j
  proof -
    have jr: "j < MM2_Table_Entries * MM2_Table_Entries" using j by (simp add: valid_page_def)
    have wd: "window d2 m2 = table_addr d2 tn" "table_addr d2 tn \<noteq> 0" using w2 nz by (simp_all add: d2)
    have cl: "pte d2 m3 j = (if j div MM2_Table_Entries = tn then 0 else pte d2 m2 j)"
      unfolding m3_def by (rule win_clear_pte [OF r2(1) wd tn jr])
    have "pte d2 m2 j = pte d1 m1 j" using r2(2) j by (simp add: same_view_def m1_def)
    then show ?thesis using cl inst(3) [of j] z by (cases "j div MM2_Table_Entries = tn") (simp_all add: pte_def m1_def)
  qed
  have view: "same_view d m d4 m4"
    using r4 v r2(5) by (simp add: same_view_def m3_def valid_page_def m1_def)
  obtain c where d4: "d4 = d2\<lparr>current_table := c\<rparr>" using r4 by blast
  have ta: "table_addr d4 = table_addr d1" by (simp add: d4 d2)
  have pm4: "pm m4 = pm'" using r4 r2(3) by (simp add: m3_def m1_def)
  have "table_addr d1 u \<noteq> page_address (physical_pages pm' ! j)" if "free_index pm' j" "u < MM2_Table_Entries" for j u
  proof (cases "u = tn")
    case True
    have "page_address (physical_pages pm' ! j) \<noteq> page_address (physical_pages pm' ! unat i)" using fr(4) that(1) by blast
    then show ?thesis unfolding True inst(1) by (rule not_sym)
  next
    case False
    then show ?thesis using inst(4) [OF False] fr(3) that by (simp add: pool_ok_def)
  qed
  then have pool: "pool_ok d4 (pm m4)" using fr(3) unfolding pool_ok_def pm4 ta by blast
  show thesis
  proof (rule that [OF run])
    show "tables_ok d4 m4" using r4 by blast
    show "same_view d m d4 m4" by (rule view)
    show "table_addr d4 tn \<noteq> 0" using nz by (simp only: ta not_False_eq_True)
    show "pool_ok d4 (pm m4)" by (rule pool)
    show "pm m4 = pm'" by (rule pm4)
    show "kpages m4 = kpages m" "window_page m4 = window_page m" using r4 r2(4,5) by (simp_all add: m3_def m1_def)
    show "\<exists>c. d4 = d\<lparr>directory := (directory d)[tn := page_address ?p OR table_flags tn], current_table := c\<rparr>"
      by (rule exI [of _ c]) (simp add: d4 d2 d1_def)
  qed
qed

text \<open>The last step of a write, on a slot that has its table: only the written entry changes.\<close>

lemma write_entry_ok:
  fixes x :: u32
  assumes t: "tables_ok d m" and c: "cache_ok d0 m0" and i: "i < MM2_Table_Entries * MM2_Table_Entries"
    and w: "window d m = table_addr d (i div MM2_Table_Entries)" "table_addr d (i div MM2_Table_Entries) \<noteq> 0"
    and v: "\<forall>j. valid_page m0 j \<longrightarrow> pte d m j = pte d0 m0 j"
    and ec: "entrycache d = entrycache d0" and wp: "window_page m = window_page m0"
  defines "d' \<equiv> entrycache_clear i d" and "m' \<equiv> win_write (i mod MM2_Table_Entries) x d m"
  shows "tables_ok d' m'" and "cache_ok d' m'"
    and "\<forall>j. valid_page m0 j \<longrightarrow> pte d' m' j = (if j = i then x else pte d0 m0 j)"
proof -
  show "tables_ok d' m'" using t by (simp add: d'_def m'_def)
  have p: "pte d m' j = (if j = i then x else pte d m j)" if "valid_page m0 j" for j
    unfolding m'_def by (rule win_write_pte [OF t w i]) (use that in \<open>simp add: valid_page_def\<close>)
  show "\<forall>j. valid_page m0 j \<longrightarrow> pte d' m' j = (if j = i then x else pte d0 m0 j)"
    using p v by (simp add: d'_def)
  show "cache_ok d' m'"
    unfolding d'_def by (rule entrycache_clear_ok [OF c]) (use p v ec wp in \<open>simp_all add: m'_def\<close>)
qed

text \<open>What storing an entry does to the tables: nothing, or one frame becomes a table.\<close>

definition tables_step :: "pdir \<Rightarrow> pmm \<Rightarrow> nat \<Rightarrow> pdir \<Rightarrow> pmm \<Rightarrow> bool" where
  "tables_step d s tn d' s' \<longleftrightarrow> (if table_addr d tn \<noteq> 0 then table_addr d' = table_addr d \<and> s' = s
     else \<exists>k. physical_alloc 0xFFFFFFFF s = Inr (k, s')
            \<and> table_addr d' = (table_addr d)(tn := page_address (physical_pages s' ! unat k)))"

lemma set_table_entry_ok:
  assumes ok: "pd_ok d m" and i: "i < MM2_Table_Entries * MM2_Table_Entries"
    and sp: "table_addr d (i div MM2_Table_Entries) = 0 \<longrightarrow> spare_page (pm m)"
  obtains d' m' where "set_table_entry i x d m = Inr (d', m')" and "pd_ok d' m'"
    and "\<forall>j. valid_page m j \<longrightarrow> pte d' m' j = (if j = i then x else pte d m j)"
    and "window_page m' = window_page m" and "kpages m' = kpages m"
    and "klowfree d' = klowfree d" and "ulowfree d' = ulowfree d" and "upages d' = upages d" and "regions d' = regions d"
    and "table_addr d' (i div MM2_Table_Entries) \<noteq> 0"
    and "table_addr d (i div MM2_Table_Entries) \<noteq> 0 \<longrightarrow> pm m' = pm m"
    and "tables_step d (pm m) (i div MM2_Table_Entries) d' (pm m')"
proof -
  let ?tn = "i div MM2_Table_Entries"
  have t: "tables_ok d m" and c: "cache_ok d m" and p: "pool_ok d (pm m)" using ok by (simp_all add: pd_ok_def)
  have tn: "?tn < MM2_Table_Entries" by (rule page_split(1) [OF i])
  show thesis
  proof (cases "table_addr d ?tn = 0")
    case False
    obtain d1 m1 where mt: "map_table (directory d ! ?tn) d m = (True, d1, m1)"
      and d1: "d1 = d\<lparr>current_table := table_addr d ?tn\<rparr>" and w: "window d1 m1 = table_addr d ?tn"
      and r: "tables_ok d1 m1" "same_view d m d1 m1" "pm m1 = pm m" "kpages m1 = kpages m" "window_page m1 = window_page m"
      by (rule map_table_slot [OF t False])
    have nz: "directory d ! ?tn \<noteq> 0" using False by (auto simp: table_addr_def)
    let ?d = "entrycache_clear i d1" and ?m = "win_write (i mod MM2_Table_Entries) x d1 m1"
    have run: "set_table_entry i x d m = Inr (?d, ?m)" using nz mt by (simp add: set_table_entry_def)
    have w': "window d1 m1 = table_addr d1 ?tn" "table_addr d1 ?tn \<noteq> 0" using w False by (simp_all add: d1)
    have vw: "\<forall>j. valid_page m j \<longrightarrow> pte d1 m1 j = pte d m j" using r(2) by (simp add: same_view_def)
    have ec: "entrycache d1 = entrycache d" by (simp add: d1)
    note we = write_entry_ok [OF r(1) c i w' vw ec r(5), of x]
    have ta: "table_addr ?d = table_addr d" by (simp add: entrycache_clear_def d1)
    have "pd_ok ?d ?m" using we(1,2) p by (simp add: pd_ok_def pool_ok_def ta r(3))
    then show thesis
      by (rule that [OF run _ we(3)])
        (use r False in \<open>simp_all only: ta tables_step_def, simp_all add: d1 entrycache_clear_def\<close>)
  next
    case True
    obtain k pm' where al: "physical_alloc 0xFFFFFFFF (pm m) = Inr (k, pm')"
      using physical_alloc_spare [OF p] sp True by blast
    obtain d1 m1 where cr: "create_table ?tn d m = Inr (d1, m1)" and r1: "tables_ok d1 m1" "same_view d m d1 m1"
      "table_addr d1 ?tn \<noteq> 0" "pool_ok d1 (pm m1)" "pm m1 = pm'" "kpages m1 = kpages m" "window_page m1 = window_page m"
      and d1: "\<exists>c. d1 = d\<lparr>directory := (directory d)[?tn := page_address (physical_pages pm' ! unat k) OR table_flags ?tn],
                     current_table := c\<rparr>"
      by (rule create_table_ok [OF t p tn True al])
    obtain d2 m2 where mt: "map_table (directory d1 ! ?tn) d1 m1 = (True, d2, m2)"
      and d2: "d2 = d1\<lparr>current_table := table_addr d1 ?tn\<rparr>" and w: "window d2 m2 = table_addr d1 ?tn"
      and r2: "tables_ok d2 m2" "same_view d1 m1 d2 m2" "pm m2 = pm m1" "kpages m2 = kpages m1" "window_page m2 = window_page m1"
      by (rule map_table_slot [OF r1(1,3)])
    let ?m3 = "win_clear d2 m2"
    let ?d = "entrycache_clear i d2" and ?m = "win_write (i mod MM2_Table_Entries) x d2 ?m3"
    have first: "(if directory d ! ?tn \<noteq> 0 then map_table (directory d ! ?tn) d m else (False, d, m)) = (False, d, m)"
      using True by (simp add: table_addr_def map_table_def)
    have run: "set_table_entry i x d m = Inr (?d, ?m)"
      unfolding set_table_entry_def Let_def first by (simp add: cr mt)
    have wd: "window d2 m2 = table_addr d2 ?tn" "table_addr d2 ?tn \<noteq> 0" using w r1(3) by (simp_all add: d2)
    have ntn: "?tn \<noteq> window_page m2 div MM2_Table_Entries"
      using True tables_okD(4) [OF t] r1(7) r2(5) by (auto simp: frame_table_alt)
    have fne: "frame_table d2 m2 \<noteq> table_addr d2 ?tn"
      using table_inj [OF r2(1) tn, of "window_page m2 div MM2_Table_Entries"] wd(2) ntn
        page_split(1) [OF tables_okD(2) [OF r2(1)]] by (metis frame_table_alt)
    have w': "window d2 ?m3 = table_addr d2 ?tn"
      using wd(1) fne by (simp add: window_def) (simp add: win_clear_def window_def)
    have vw: "pte d2 ?m3 j = pte d m j" if "valid_page m j" for j
    proof -
      have jr: "j < MM2_Table_Entries * MM2_Table_Entries" using that by (simp add: valid_page_def)
      have "pte d2 m2 j = pte d m j" using r1(2,7) r2(2) that by (simp add: same_view_def valid_page_def)
      then show ?thesis using win_clear_pte [OF r2(1) wd tn jr] True by (simp add: pte_def)
    qed
    have t3: "tables_ok d2 ?m3" using r2(1) by simp
    have ec: "entrycache d2 = entrycache d" using d1 by (auto simp: d2)
    have wp: "window_page ?m3 = window_page m" using r1(7) r2(5) by simp
    have vw': "\<forall>j. valid_page m j \<longrightarrow> pte d2 ?m3 j = pte d m j" using vw by blast
    note we = write_entry_ok [OF t3 c i w' wd(2) vw' ec wp, of x]
    have ta: "table_addr ?d = table_addr d1" by (simp add: entrycache_clear_def d2)
    have pd: "pd_ok ?d ?m" using we(1,2) r1(4) by (simp add: pd_ok_def pool_ok_def ta r2(3))
    have fl: "klowfree ?d = klowfree d \<and> ulowfree ?d = ulowfree d \<and> upages ?d = upages d \<and> regions ?d = regions d"
      using d1 by (auto simp: d2 entrycache_clear_def)
    show thesis
    proof (rule that [OF run pd we(3)])
      show "window_page ?m = window_page m" "kpages ?m = kpages m" using wp r1(6) r2(4) by simp_all
      show "klowfree ?d = klowfree d" "ulowfree ?d = ulowfree d" "upages ?d = upages d" "regions ?d = regions d"
        using fl by blast+
      show "table_addr ?d ?tn \<noteq> 0" using r1(3) by (simp only: ta not_False_eq_True)
      show "table_addr d ?tn \<noteq> 0 \<longrightarrow> pm ?m = pm m" using True by blast
      have "table_addr d1 = (table_addr d)(?tn := page_address (physical_pages pm' ! unat k))"
        using d1 tn tables_okD(1) [OF t] by (auto simp: fun_eq_iff table_addr_def table_flags_mask)
      then show "tables_step d (pm m) ?tn ?d (pm ?m)" using True al r1(5) r2(3) by (simp only: tables_step_def ta) simp
    qed
  qed
qed

section \<open>The search for free pages\<close>

definition page_free :: "pdir \<Rightarrow> mmstate \<Rightarrow> nat \<Rightarrow> bool" where
  "page_free d m i \<longleftrightarrow> i \<noteq> window_page m \<and> pte d m i AND PF_Present = 0 \<and> pte d m i AND PF_Do_Not_Use = 0"

definition free_run_at :: "(nat \<Rightarrow> bool) \<Rightarrow> nat \<Rightarrow> nat \<Rightarrow> bool" where
  "free_run_at F n q \<longleftrightarrow> q + n \<le> MM2_Total_Pages \<and> (\<forall>i. q \<le> i \<and> i < q + n \<longrightarrow> F i)"

lemma is_available_ok:
  assumes ok: "pd_ok d m" and i: "i < MM2_Table_Entries * MM2_Table_Entries" and a: "is_available i d m = (b, d', m')"
  shows "b = page_free d m i" and "pd_ok d' m'" and "same_view d m d' m'" and "window_page m' = window_page m"
    and "pm m' = pm m" and "kpages m' = kpages m" and "\<exists>c cs. d' = d\<lparr>current_table := c, entrycache := cs\<rparr>"
proof -
  have t: "tables_ok d m" "cache_ok d m" using ok by (simp_all add: pd_ok_def)
  obtain e where g: "get_table_entry i d m = (e, d', m')"
    and b: "b \<longleftrightarrow> e AND PF_Present = 0 \<and> e AND PF_Do_Not_Use = 0"
    using a by (auto simp: is_available_def split: prod.splits)
  note gt = get_table_entry_ok [OF t i g]
  show "b = page_free d m i"
    using gt(4,5) i b by (cases "i = window_page m") (simp_all add: page_free_def valid_page_def)
  show "same_view d m d' m'" by (rule gt(3))
  show "\<exists>c cs. d' = d\<lparr>current_table := c, entrycache := cs\<rparr>" by (rule gt(6))
  show fm: "window_page m' = window_page m" "pm m' = pm m" "kpages m' = kpages m" using gt(7) by auto
  have "table_addr d' = table_addr d" using gt(6) by auto
  then show "pd_ok d' m'" using gt(1,2) ok fm(2) by (simp add: pd_ok_def pool_ok_def)
qed

lemma page_free_view:
  assumes "same_view d m d' m'" and "window_page m' = window_page m" and "i < MM2_Table_Entries * MM2_Table_Entries"
  shows "page_free d' m' i = page_free d m i"
  using assms by (cases "i = window_page m") (simp_all add: page_free_def same_view_def valid_page_def)

definition note_low :: "nat \<Rightarrow> bool \<Rightarrow> nat \<Rightarrow> u32 \<Rightarrow> pdir \<Rightarrow> pdir" where
  "note_low pageno avail pages mode d =
     (let d2 = (if \<not> avail \<and> pages = 1 \<and> mode AND Mode_Kernel \<noteq> 0 then d\<lparr>klowfree := pageno\<rparr> else d)
      in if \<not> avail \<and> pages = 1 \<and> mode AND Mode_Userlow \<noteq> 0 then d2\<lparr>ulowfree := pageno\<rparr> else d2)"

lemma note_low_fields [simp]:
  "directory (note_low p a n mode d) = directory d" "entrycache (note_low p a n mode d) = entrycache d"
  "table_addr (note_low p a n mode d) = table_addr d" "frame_table (note_low p a n mode d) = frame_table d"
  "pte (note_low p a n mode d) = pte d"
  by (simp_all add: note_low_def Let_def table_addr_def frame_table_def pte_def fun_eq_iff)

lemma pd_ok_cong:
  "directory d' = directory d \<Longrightarrow> entrycache d' = entrycache d \<Longrightarrow> pd_ok d' m = pd_ok d m"
  by (simp add: pd_ok_def tables_ok_def cache_ok_def pool_ok_def table_addr_def frame_table_def pte_def)

lemma alloc_search_step:
  assumes "p < MM2_Total_Pages" and "is_available p d m = (a, d1, m1)"
  shows "alloc_search p n mode first found d m =
     (let first' = (if a then (if first = 0 then p else first) else 0); found' = (if a then Suc found else 0)
      in if found' = n then (Some first', note_low p a n mode d1, m1)
         else alloc_search (Suc p) n mode first' found' (note_low p a n mode d1) m1)"
  by (subst alloc_search.simps) (simp add: assms note_low_def Let_def)

text \<open>
  The loop invariant of the search: the \<open>found\<close> pages before \<open>p\<close> are free and \<open>first\<close> is where
  they start. Page 0 is never free, so \<open>first = 0\<close> does mean that no run has begun.
\<close>

lemma alloc_search_first_fit_aux:
  assumes "alloc_search p n mode first found d m = (r, d', m')" and "pd_ok d m" and "0 < n" and "found < n"
    and "\<forall>i < MM2_Total_Pages. page_free d m i = F i" and "\<not> F 0"
    and "found \<le> p" and "\<forall>i. p - found \<le> i \<and> i < p \<longrightarrow> F i" and "first = (if found = 0 then 0 else p - found)"
  shows "pd_ok d' m' \<and> same_view d m d' m' \<and> window_page m' = window_page m \<and> pm m' = pm m
    \<and> (case r of None \<Rightarrow> \<forall>q \<ge> p - found. \<not> free_run_at F n q
       | Some q \<Rightarrow> p - found \<le> q \<and> free_run_at F n q \<and> (\<forall>q'. p - found \<le> q' \<and> q' < q \<longrightarrow> \<not> free_run_at F n q'))"
  using assms
proof (induction "MM2_Total_Pages - p" arbitrary: p first found d m)
  case 0
  then have "p \<ge> MM2_Total_Pages" by simp
  moreover from this have "r = None" "d' = d" "m' = m" using 0(2) by (simp_all add: alloc_search.simps)
  ultimately show ?case using 0 by (auto simp: same_view_def free_run_at_def)
next
  case (Suc k)
  have p: "p < MM2_Total_Pages" using Suc(2) by simp
  then have pe: "p < MM2_Table_Entries * MM2_Table_Entries" by (simp add: MM2_Total_Pages_def MM2_Table_Entries_def)
  obtain a d1 m1 where av: "is_available p d m = (a, d1, m1)" by (metis prod_cases3)
  note ia = is_available_ok [OF Suc(4) pe av]
  let ?d = "note_low p a n mode d1"
  have a: "a = F p" using ia(1) Suc(7) p by simp
  have ok: "pd_ok ?d m1" using ia(2) pd_ok_cong [of ?d d1 m1] by simp
  have sv: "same_view d m ?d m1" using ia(3) by (simp add: same_view_def)
  have F1: "\<forall>i < MM2_Total_Pages. page_free ?d m1 i = F i"
    using Suc(7) page_free_view [OF sv ia(4)] by (simp add: MM2_Total_Pages_def MM2_Table_Entries_def)
  define f1 where "f1 = (if a then (if first = 0 then p else first) else 0)"
  define n1 where "n1 = (if a then Suc found else 0)"
  have st: "alloc_search p n mode first found d m =
      (if n1 = n then (Some f1, ?d, m1) else alloc_search (Suc p) n mode f1 n1 ?d m1)"
    by (simp add: alloc_search_step [OF p av] f1_def n1_def Let_def)
  have p0: "0 < p" if a using that a Suc(8) by (cases p) simp_all
  have inv: "n1 \<le> Suc p" "\<forall>i. Suc p - n1 \<le> i \<and> i < Suc p \<longrightarrow> F i" "f1 = (if n1 = 0 then 0 else Suc p - n1)"
    using Suc(8-11) a p0 by (auto simp: n1_def f1_def less_Suc_eq)
  have skip: "\<not> free_run_at F n q" if "p - found \<le> q" "q < Suc p - n1" for q
  proof -
    have "\<not> a" using that by (auto simp: n1_def)
    moreover have "q \<le> p \<and> p < q + n" using that Suc(6,9) by linarith
    ultimately show ?thesis using a by (auto simp: free_run_at_def)
  qed
  have lo: "p - found \<le> Suc p - n1" using Suc(9) by (cases a) (simp_all add: n1_def)
  show ?case
  proof (cases "n1 = n")
    case True
    then have res: "r = Some f1" "d' = ?d" "m' = m1" using Suc(3) st by simp_all
    have "f1 = Suc p - n" using inv(3) True Suc(5) by simp
    moreover have "free_run_at F n (Suc p - n)" using inv(1,2) True p by (auto simp: free_run_at_def)
    ultimately show ?thesis using res ok sv ia(4,5) lo skip True by simp
  next
    case False
    then have rec: "alloc_search (Suc p) n mode f1 n1 ?d m1 = (r, d', m')" using Suc(3) st by simp
    have "n1 < n" using False Suc(5,6) by (auto simp: n1_def)
    have IH: "pd_ok d' m' \<and> same_view ?d m1 d' m' \<and> window_page m' = window_page m1 \<and> pm m' = pm m1
      \<and> (case r of None \<Rightarrow> \<forall>q \<ge> Suc p - n1. \<not> free_run_at F n q
         | Some q \<Rightarrow> Suc p - n1 \<le> q \<and> free_run_at F n q \<and> (\<forall>q'. Suc p - n1 \<le> q' \<and> q' < q \<longrightarrow> \<not> free_run_at F n q'))"
      by (rule Suc(1) [OF _ rec ok Suc(5) \<open>n1 < n\<close> F1 Suc(8) inv]) (use Suc(2) in simp)
    have ext: "\<not> free_run_at F n q" if "p - found \<le> q" "Suc p - n1 \<le> q \<longrightarrow> \<not> free_run_at F n q" for q
      using that skip [of q] by (cases "q < Suc p - n1") simp_all
    have "same_view d m d' m'" using IH sv ia(4) by (blast intro: same_view_trans)
    then show ?thesis using IH ia(4,5) lo ext by (cases r) (simp_all, (meson le_trans)+)
  qed
qed

section \<open>Mapping pages\<close>

definition free_count :: "pmm \<Rightarrow> nat" where
  "free_count s = card {i. i < length (physical_pages s) \<and> usable 0xFFFFFFFF s i}"

lemma spare_page_count:
  assumes "2 \<le> free_count s" shows "spare_page s"
proof (rule ccontr)
  assume "\<not> spare_page s"
  then have "{i. i < length (physical_pages s) \<and> usable 0xFFFFFFFF s i} \<subseteq> {unat (lastidx s)}"
    by (auto simp: spare_page_def)
  then have "free_count s \<le> card {unat (lastidx s)}" unfolding free_count_def by (intro card_mono) simp_all
  with assms show False by simp
qed

lemma free_count_alloc:
  assumes "pmm_ok s" and "physical_alloc 0xFFFFFFFF s = Inr (i, s')"
  shows "free_count s = Suc (free_count s')"
proof -
  note eff = physical_alloc_effect [OF assms]
  let ?U = "\<lambda>s. {i. i < length (physical_pages s) \<and> usable 0xFFFFFFFF s i}"
  have "usable 0xFFFFFFFF s' k = (k \<noteq> unat i \<and> usable 0xFFFFFFFF s k)" if "k < length (physical_pages s)" for k
    using eff(1,3) that by (cases "k = unat i") (simp_all add: usable_def)
  moreover have "length (physical_pages s') = length (physical_pages s)" by (simp add: eff(3))
  ultimately have u: "?U s' = ?U s - {unat i}" by (intro set_eqI) (simp cong: conj_cong, blast)
  have "Suc (card (?U s - {unat i})) = card (?U s)" by (rule card_Suc_Diff1) (use eff(1,2) in simp_all)
  then show ?thesis unfolding free_count_def u by (rule sym)
qed

lemma physical_alloc_addresses:
  assumes "pmm_ok s" and "physical_alloc 0xFFFFFFFF s = Inr (i, s')"
  shows "page_address (physical_pages s' ! k) = page_address (physical_pages s ! k)"
  using physical_alloc_effect(1,3) [OF assms] by (cases "k = unat i") simp_all

lemma set_table_entry_count:
  assumes ok: "pd_ok d m" and i: "i < MM2_Table_Entries * MM2_Table_Entries" and f: "2 \<le> free_count (pm m)"
  obtains d' m' where "set_table_entry i x d m = Inr (d', m')" and "pd_ok d' m'"
    and "\<forall>j. valid_page m j \<longrightarrow> pte d' m' j = (if j = i then x else pte d m j)"
    and "window_page m' = window_page m" and "free_count (pm m) \<le> Suc (free_count (pm m'))"
    and "\<forall>k. page_address (physical_pages (pm m') ! k) = page_address (physical_pages (pm m) ! k)"
proof -
  have sp: "spare_page (pm m)" by (rule spare_page_count [OF f])
  let ?tn = "i div MM2_Table_Entries"
  obtain d' m' where r: "set_table_entry i x d m = Inr (d', m')" "pd_ok d' m'"
      "\<forall>j. valid_page m j \<longrightarrow> pte d' m' j = (if j = i then x else pte d m j)" "window_page m' = window_page m"
    and k: "tables_step d (pm m) ?tn d' (pm m')"
    by (rule set_table_entry_ok [OF ok i impI [OF sp], of x])
  have "free_count (pm m) \<le> Suc (free_count (pm m'))
      \<and> (\<forall>k. page_address (physical_pages (pm m') ! k) = page_address (physical_pages (pm m) ! k))"
    using k free_count_alloc [of "pm m"] physical_alloc_addresses [of "pm m"] ok
    by (auto simp: tables_step_def pd_ok_def pool_ok_def split: if_splits)
  then show thesis using that [OF r] by blast
qed

lemma mask_page_div: "unat (a AND MM2_Address_Mask) div 4096 = unat a div 4096"
proof -
  have m: "MM2_Address_Mask = push_bit 12 (mask 20)" by (simp add: MM2_Address_Mask_def mask_eq_exp_minus_1)
  have d: "unat w div 4096 = unat (drop_bit 12 w)" for w :: u32
    by (simp add: drop_bit_eq_div unat_div_distrib)
  have "drop_bit 12 (a AND MM2_Address_Mask) = drop_bit 12 a"
    by (rule bit_word_eqI) (auto simp: bit_simps m dest: bit_imp_le_length)
  then show ?thesis by (simp only: d)
qed

lemma page_range: "unat (a :: u32) div 4096 < MM2_Table_Entries * MM2_Table_Entries"
proof -
  have "unat a < 4294967296" using unsigned_less [of a] by simp
  then show ?thesis by (simp add: MM2_Table_Entries_def)
qed

lemma pd_ok_counters [simp]:
  "pd_ok (d\<lparr>upages := u\<rparr>) m = pd_ok d m" "pd_ok d (m\<lparr>kpages := k\<rparr>) = pd_ok d m" "pte (d\<lparr>upages := u\<rparr>) = pte d"
  "pte d (m\<lparr>kpages := k\<rparr>) = pte d m"
  by (simp_all add: pd_ok_def tables_ok_def cache_ok_def pool_ok_def table_addr_def frame_table_def pte_def
      valid_page_def fun_eq_iff)

lemma pd_ok_alloc:
  assumes "pd_ok d m" and "physical_alloc 0xFFFFFFFF (pm m) = Inr (i, s')"
  shows "pd_ok d (m\<lparr>pm := s'\<rparr>)"
proof -
  have "pool_ok d s'" by (rule pool_ok_fresh(3)) (use assms in \<open>simp_all add: pd_ok_def\<close>)
  then show ?thesis using assms(1) by (simp add: pd_ok_def cache_ok_def)
qed

lemma virt2phys_pte:
  assumes "pd_ok d m" and "valid_page m (unat a div 4096)"
  shows "fst (virt2phys a d m) = (let x = pte d m (unat a div 4096) AND MM2_Address_Mask
      in if x \<noteq> 0 then x + (a AND NOT MM2_Address_Mask) else x)"
  using get_table_entry_ok(4) [of d m "unat a div 4096"] assms
  by (cases "get_table_entry (unat a div 4096) d m") (simp add: pd_ok_def virt2phys_def Let_def page_range)

lemma frame_of_entry:
  assumes "f AND MM2_Address_Mask = f" and "fl AND MM2_Address_Mask = 0"
  shows "(f OR fl) AND MM2_Address_Mask = f"
  using assms by (simp add: bit.conj_disj_distrib2)

lemma map_phys_at_ok:
  assumes ok: "pd_ok d m" and f: "2 \<le> free_count (pm m)"
  obtains d' m' where "map_phys_at (a AND MM2_Address_Mask) page fl d m = Inr (d', m')" and "pd_ok d' m'"
    and "window_page m' = window_page m"
    and "\<forall>j. valid_page m j \<longrightarrow> pte d' m' j = (if j = unat a div 4096 then page_address page OR fl else pte d m j)"
    and "free_count (pm m) \<le> Suc (free_count (pm m'))"
    and "\<forall>k. page_address (physical_pages (pm m') ! k) = page_address (physical_pages (pm m) ! k)"
proof -
  let ?a = "a AND MM2_Address_Mask" and ?e = "page_address page OR fl"
  have pg: "unat ?a div 4096 = unat a div 4096" by (rule mask_page_div)
  obtain d1 m1 where st: "set_table_entry (unat a div 4096) ?e d m = Inr (d1, m1)" and ok1: "pd_ok d1 m1"
    and v: "\<forall>j. valid_page m j \<longrightarrow> pte d1 m1 j = (if j = unat a div 4096 then ?e else pte d m j)"
    and wp: "window_page m1 = window_page m" and fc: "free_count (pm m) \<le> Suc (free_count (pm m1))"
    and ad: "\<forall>k. page_address (physical_pages (pm m1) ! k) = page_address (physical_pages (pm m) ! k)"
    by (rule set_table_entry_count [OF ok page_range f])
  show thesis
  proof (cases "?a > MM2_Kernel_Boundary")
    case True
    then have run: "map_phys_at ?a page fl d m = Inr (d1\<lparr>upages := upages d1 + 1\<rparr>, m1)" by (simp add: map_phys_at_def pg st)
    show thesis by (rule that [OF run]) (use ok1 wp v fc ad in simp_all)
  next
    case False
    then have run: "map_phys_at ?a page fl d m = Inr (d1, m1\<lparr>kpages := kpages m1 + 1\<rparr>)" by (simp add: map_phys_at_def pg st)
    show thesis by (rule that [OF run]) (use ok1 wp v fc ad in simp_all)
  qed
qed

lemma map_page_at_ok:
  assumes ok: "pd_ok d m" and f: "3 \<le> free_count (pm m)"
  obtains d' m' p where "map_page_at a fl d m = Inr (d', m')" and "pd_ok d' m'" and "window_page m' = window_page m"
    and "\<forall>j. valid_page m j \<longrightarrow> pte d' m' j = (if j = unat a div 4096 then p OR fl else pte d m j)"
    and "free_count (pm m) \<le> Suc (Suc (free_count (pm m')))" and "p AND MM2_Address_Mask = p" and "p \<noteq> 0"
    and "\<exists>k. free_index (pm m) k \<and> page_address (physical_pages (pm m) ! k) = p"
proof -
  have p: "pool_ok d (pm m)" "pmm_ok (pm m)" using ok by (simp_all add: pd_ok_def pool_ok_def)
  obtain i s' where al: "physical_alloc 0xFFFFFFFF (pm m) = Inr (i, s')"
    using physical_alloc_spare [OF p(1) spare_page_count] f by auto
  let ?m = "m\<lparr>pm := s'\<rparr>" and ?page = "physical_pages s' ! unat i"
  note fc = free_count_alloc [OF p(2) al]
  have f2: "2 \<le> free_count (pm ?m)" using f fc by simp
  obtain d1 m1 where st: "map_phys_at (a AND MM2_Address_Mask) ?page fl d ?m = Inr (d1, m1)" and ok1: "pd_ok d1 m1"
    and wp: "window_page m1 = window_page ?m"
    and v: "\<forall>j. valid_page ?m j \<longrightarrow> pte d1 m1 j = (if j = unat a div 4096 then page_address ?page OR fl else pte d ?m j)"
    and fc1: "free_count (pm ?m) \<le> Suc (free_count (pm m1))"
    by (rule map_phys_at_ok [OF pd_ok_alloc [OF ok al] f2])
  note eff = physical_alloc_effect [OF p(2) al]
  have ex: "\<exists>k. free_index (pm m) k \<and> page_address (physical_pages (pm m) ! k) = page_address ?page"
    by (rule exI [of _ "unat i"]) (use eff(1,2) in \<open>simp add: eff(3) free_index_def usable_def\<close>)
  have nz: "page_address ?page \<noteq> 0" by (rule pool_ok_fresh(1) [OF p(1) al])
  have mk: "page_address ?page AND MM2_Address_Mask = page_address ?page" by simp
  have run: "map_page_at a fl d m = Inr (d1, m1)" by (simp add: map_page_at_def al st)
  show thesis by (rule that [OF run ok1 _ _ _ mk nz ex]) (use wp v fc fc1 in simp_all)
qed

text \<open>
  A run of \<open>n\<close> consecutive pages is mapped page by page; every entry gets a frame of its own and
  the flags, and no other entry changes.
\<close>

lemma unat_page_word: "p < 1048576 \<Longrightarrow> unat (word_of_nat (p * 4096) :: u32) = p * 4096"
  by (rule unat_word_of_nat) simp

lemma map_run_ok:
  assumes "pd_ok d m" and "2 * n < free_count (pm m)" and "p + n \<le> MM2_Total_Pages"
  shows "\<exists>d' m'. map_run n (word_of_nat (p * 4096)) fl d m = Inr (d', m') \<and> pd_ok d' m' \<and> window_page m' = window_page m
    \<and> (\<forall>j. valid_page m j \<longrightarrow> p \<le> j \<longrightarrow> j < p + n \<longrightarrow> (\<exists>f. f \<noteq> 0 \<and> f AND MM2_Address_Mask = f \<and> pte d' m' j = f OR fl))
    \<and> (\<forall>j. valid_page m j \<longrightarrow> \<not> (p \<le> j \<and> j < p + n) \<longrightarrow> pte d' m' j = pte d m j)"
  using assms
proof (induction n arbitrary: p d m)
  case 0
  then show ?case by simp
next
  case (Suc n)
  let ?a = "word_of_nat (p * 4096) :: u32"
  have "p < 1048576" using Suc.prems(3) by (simp add: MM2_Total_Pages_def)
  then have pg: "unat ?a div 4096 = p" by (simp only: unat_page_word nonzero_mult_div_cancel_right)
  have f3: "3 \<le> free_count (pm m)" using Suc.prems(2) by simp
  obtain d1 m1 f where run: "map_page_at ?a fl d m = Inr (d1, m1)" and ok: "pd_ok d1 m1" and wp: "window_page m1 = window_page m"
    and v: "\<forall>j. valid_page m j \<longrightarrow> pte d1 m1 j = (if j = unat ?a div 4096 then f OR fl else pte d m j)"
    and fc: "free_count (pm m) \<le> Suc (Suc (free_count (pm m1)))" and f: "f AND MM2_Address_Mask = f" "f \<noteq> 0"
    by (rule map_page_at_ok [OF Suc.prems(1) f3])
  have vp: "valid_page m1 = valid_page m" using wp by (simp add: valid_page_def fun_eq_iff)
  have "?a + MM2_Page_Size = word_of_nat (Suc p * 4096)" by (simp add: MM2_Page_Size_def)
  then have step: "map_run (Suc n) ?a fl d m = map_run n (word_of_nat (Suc p * 4096)) fl d1 m1"
    by (simp only: map_run.simps run kbind_simps prod.case)
  have "2 * n < free_count (pm m1)" using fc Suc.prems(2) by simp
  moreover have "Suc p + n \<le> MM2_Total_Pages" using Suc.prems(3) by simp
  ultimately obtain d' m' where r: "map_run n (word_of_nat (Suc p * 4096)) fl d1 m1 = Inr (d', m')" "pd_ok d' m'"
      "window_page m' = window_page m1"
    and inr: "\<forall>j. valid_page m j \<longrightarrow> Suc p \<le> j \<longrightarrow> j < Suc p + n \<longrightarrow>
           (\<exists>f. f \<noteq> 0 \<and> f AND MM2_Address_Mask = f \<and> pte d' m' j = f OR fl)"
    and out: "\<forall>j. valid_page m j \<longrightarrow> \<not> (Suc p \<le> j \<and> j < Suc p + n) \<longrightarrow> pte d' m' j = pte d1 m1 j"
    using Suc.IH [OF ok, of "Suc p"] unfolding vp by blast
  have a: "\<exists>f. f \<noteq> 0 \<and> f AND MM2_Address_Mask = f \<and> pte d' m' j = f OR fl"
    if j: "valid_page m j" "p \<le> j" "j < p + Suc n" for j
  proof (cases "j = p")
    case True
    then have "pte d' m' j = f OR fl" using out v j(1) pg by simp
    then show ?thesis using f by blast
  next
    case False
    then show ?thesis using inr j by simp
  qed
  have b: "pte d' m' j = pte d m j" if j: "valid_page m j" "\<not> (p \<le> j \<and> j < p + Suc n)" for j
    using out v j pg by auto
  have "map_run (Suc n) ?a fl d m = Inr (d', m')" using step r(1) by (rule trans)
  then show ?case using r(2,3) wp a b by simp
qed

lemma alloc_search_tables:
  "alloc_search p n mode first found d m = (r, d', m') \<Longrightarrow> pd_ok d m \<Longrightarrow> table_addr d' = table_addr d"
proof (induction p n mode first found d m rule: alloc_search.induct)
  case (1 p n mode first found d m)
  show ?case
  proof (cases "p < MM2_Total_Pages")
    case True
    then have pe: "p < MM2_Table_Entries * MM2_Table_Entries" by (simp add: MM2_Total_Pages_def MM2_Table_Entries_def)
    obtain a d1 m1 where av: "is_available p d m = (a, d1, m1)" by (metis prod_cases3)
    note ia = is_available_ok [OF 1(3) pe av]
    let ?d = "note_low p a n mode d1"
    have ta: "table_addr ?d = table_addr d" using ia(7) by (auto simp: note_low_def table_addr_def fun_eq_iff)
    have ok: "pd_ok ?d m1" using ia(2) pd_ok_cong [of ?d d1 m1] by simp
    have low: "(if \<not> a \<and> n = 1 \<and> mode AND Mode_Userlow \<noteq> 0
        then (if \<not> a \<and> n = 1 \<and> mode AND Mode_Kernel \<noteq> 0 then d1\<lparr>klowfree := p\<rparr> else d1)\<lparr>ulowfree := p\<rparr>
        else if \<not> a \<and> n = 1 \<and> mode AND Mode_Kernel \<noteq> 0 then d1\<lparr>klowfree := p\<rparr> else d1) = ?d"
      by (simp add: note_low_def Let_def)
    show ?thesis
      using 1(1) [OF True av [symmetric] refl refl refl refl refl low [symmetric]] 1(2) ok ta
      by (auto simp: alloc_search_step [OF True av] Let_def split: if_splits)
  qed (use 1(2) in \<open>simp add: alloc_search.simps\<close>)
qed

text \<open>If there is a run of free page numbers, the first one is mapped.\<close>

lemma pd_alloc_search:
  assumes ok: "pd_ok d m" and guard: "\<not> page_free d m 0" and n: "0 < n" and mode: "mode = Mode_Kernel \<or> mode = Mode_Userlow"
    and s: "s = (if mode = Mode_Userlow then ulowfree d else klowfree d)" and q: "s \<le> q" "free_run_at (page_free d m) n q"
  obtains p d1 m1 where
    "pd_alloc n mode d m = kbind (map_run n (word_of_nat (p * 4096)) (PF_Present OR PF_Writable OR PF_Usermode) d1 m1)
       (\<lambda>(d2, m2). Inr (word_of_nat (p * 4096), d2, m2))"
    and "pd_ok d1 m1" and "same_view d m d1 m1" and "window_page m1 = window_page m" and "pm m1 = pm m"
    and "table_addr d1 = table_addr d" and "s \<le> p" and "p \<le> q" and "free_run_at (page_free d m) n p" and "0 < p"
proof -
  have md: "mode AND Mode_Kernel \<noteq> 0 \<or> mode AND Mode_Userlow \<noteq> 0"
    "(if mode AND Mode_Userlow \<noteq> 0 then ulowfree d else klowfree d) = s"
    using mode s by (auto simp: Mode_Kernel_def Mode_Userlow_def)
  obtain r d1 m1 where as: "alloc_search s n mode 0 0 d m = (r, d1, m1)" by (metis prod_cases3)
  have ff: "pd_ok d1 m1 \<and> same_view d m d1 m1 \<and> window_page m1 = window_page m \<and> pm m1 = pm m
    \<and> (case r of None \<Rightarrow> \<forall>q \<ge> s - 0. \<not> free_run_at (page_free d m) n q
       | Some q \<Rightarrow> s - 0 \<le> q \<and> free_run_at (page_free d m) n q
           \<and> (\<forall>q'. s - 0 \<le> q' \<and> q' < q \<longrightarrow> \<not> free_run_at (page_free d m) n q'))"
    by (rule alloc_search_first_fit_aux [OF as ok n n]) (use guard in auto)
  obtain p where p: "r = Some p" "s \<le> p" "free_run_at (page_free d m) n p" "p \<le> q"
  proof (cases r)
    case None
    then show thesis using ff q by simp
  next
    case (Some p)
    then have "\<not> q < p" using ff q by (simp, blast)
    then show thesis using that [OF Some] ff Some by simp
  qed
  have pn: "p + n \<le> MM2_Total_Pages" "0 < p"
    using p(3) guard n by (auto simp: free_run_at_def intro: gr0I)
  have "unat (word_of_nat (p * 4096) :: u32) = p * 4096"
    by (rule unat_page_word) (use pn(1) n in \<open>simp add: MM2_Total_Pages_def\<close>)
  then have nz: "(word_of_nat (p * 4096) :: u32) \<noteq> 0" using pn(2) by (metis mult_eq_0_iff not_gr0 unat_0 zero_neq_numeral)
  have run: "pd_alloc n mode d m = kbind (map_run n (word_of_nat (p * 4096)) (PF_Present OR PF_Writable OR PF_Usermode) d1 m1)
       (\<lambda>(d2, m2). Inr (word_of_nat (p * 4096), d2, m2))"
    unfolding pd_alloc_def md(2) using md(1) as p(1) nz by (simp add: Let_def)
  show thesis by (rule that [OF run]) (use ff p pn(2) alloc_search_tables [OF as ok] in simp_all)
qed

section \<open>Properties\<close>

text \<open>
  (C5) Storing an entry and looking entries up behave as one array of entries indexed by page
  number. With a spare frame for a missing table, \<^verbatim>\<open>set_table_entry\<close> returns; afterwards
  \<^verbatim>\<open>get_table_entry\<close> gives the stored value for that page and what it gave before for every
  other page, whatever the entry cache and the window held.
\<close>

theorem page_entries_are_array:
  assumes "pd_ok d m" and "valid_page m i" and "valid_page m j" and "spare_page (pm m)"
  shows "\<exists>d' m'. set_table_entry i x d m = Inr (d', m') \<and> pd_ok d' m'
     \<and> fst (get_table_entry j d' m') = (if j = i then x else fst (get_table_entry j d m))"
proof -
  have ir: "i < MM2_Table_Entries * MM2_Table_Entries" "j < MM2_Table_Entries * MM2_Table_Entries"
    using assms(2,3) by (simp_all add: valid_page_def)
  obtain d' m' where r: "set_table_entry i x d m = Inr (d', m')" "pd_ok d' m'"
      "\<forall>j. valid_page m j \<longrightarrow> pte d' m' j = (if j = i then x else pte d m j)" "window_page m' = window_page m"
    by (rule set_table_entry_ok [OF assms(1) ir(1) impI [OF assms(4)], of x])
  have get: "fst (get_table_entry j e n) = pte e n j" if "pd_ok e n" "valid_page n j" for e n
    using get_table_entry_ok(4) [of e n j] that ir(2) by (cases "get_table_entry j e n") (simp add: pd_ok_def)
  have "valid_page m' j" using assms(3) r(4) by (simp add: valid_page_def)
  then show ?thesis using r get [OF r(2)] get [OF assms(1,3)] assms(3) by auto
qed

text \<open>
  (C11) The allocator of virtual pages is first fit and does map what it returns. If some run of
  \<open>n\<close> free page numbers lies at or above the lowest free page recorded for the mode, and there are
  frames for the pages and their tables, \<^verbatim>\<open>alloc\<close> returns the first such run: each of its
  pages was free and now is a present, writable user page on a frame, and no entry outside of the
  run changes. Page 0 is a guard page, which the search relies on.
\<close>

theorem pd_alloc_first_fit:
  assumes "pd_ok d m" and "\<not> page_free d m 0" and "0 < n" and "mode = Mode_Kernel \<or> mode = Mode_Userlow"
    and "2 * n < free_count (pm m)"
    and "(if mode = Mode_Userlow then ulowfree d else klowfree d) \<le> q" and "free_run_at (page_free d m) n q"
  shows "\<exists>p d' m'. pd_alloc n mode d m = Inr (word_of_nat (p * 4096), d', m') \<and> pd_ok d' m'
     \<and> (if mode = Mode_Userlow then ulowfree d else klowfree d) \<le> p \<and> p \<le> q \<and> free_run_at (page_free d m) n p
     \<and> (\<forall>j. valid_page m j \<longrightarrow> p \<le> j \<longrightarrow> j < p + n \<longrightarrow>
          (\<exists>f. f \<noteq> 0 \<and> f AND MM2_Address_Mask = f \<and> pte d' m' j = f OR (PF_Present OR PF_Writable OR PF_Usermode)))
     \<and> (\<forall>j. valid_page m j \<longrightarrow> \<not> (p \<le> j \<and> j < p + n) \<longrightarrow> pte d' m' j = pte d m j)"
proof -
  let ?s = "if mode = Mode_Userlow then ulowfree d else klowfree d" and ?fl = "PF_Present OR PF_Writable OR PF_Usermode"
  obtain p d1 m1 where run: "pd_alloc n mode d m = kbind (map_run n (word_of_nat (p * 4096)) ?fl d1 m1)
       (\<lambda>(d2, m2). Inr (word_of_nat (p * 4096), d2, m2))"
    and r: "pd_ok d1 m1" "same_view d m d1 m1" "window_page m1 = window_page m" "pm m1 = pm m" "table_addr d1 = table_addr d"
      "?s \<le> p" "p \<le> q" "free_run_at (page_free d m) n p" "0 < p"
    by (rule pd_alloc_search [OF assms(1-4) refl assms(6,7)])
  have pn: "p + n \<le> MM2_Total_Pages" using r(8) by (simp add: free_run_at_def)
  obtain d' m' where mr: "map_run n (word_of_nat (p * 4096)) ?fl d1 m1 = Inr (d', m')" "pd_ok d' m'"
    and inr: "\<forall>j. valid_page m1 j \<longrightarrow> p \<le> j \<longrightarrow> j < p + n \<longrightarrow>
          (\<exists>f. f \<noteq> 0 \<and> f AND MM2_Address_Mask = f \<and> pte d' m' j = f OR ?fl)"
    and out: "\<forall>j. valid_page m1 j \<longrightarrow> \<not> (p \<le> j \<and> j < p + n) \<longrightarrow> pte d' m' j = pte d1 m1 j"
    using map_run_ok [of d1 m1 n p ?fl] r(1,4) assms(5) pn by auto
  have vp: "valid_page m1 = valid_page m" using r(3) by (simp add: valid_page_def fun_eq_iff)
  have out': "pte d' m' j = pte d m j" if "valid_page m j" "\<not> (p \<le> j \<and> j < p + n)" for j
    using out r(2) that unfolding vp by (simp add: same_view_def)
  have "pd_alloc n mode d m = Inr (word_of_nat (p * 4096), d', m')" using run mr(1) by simp
  then show ?thesis using mr(2) r inr out' unfolding vp by blast
qed


text \<open>
  (C18) Mapping a page makes exactly its addresses translate: after \<^verbatim>\<open>map_page_at\<close>, every
  address in that page translates to the same offset of one frame, which the physical allocator
  held free before, and addresses of other pages translate as they did.
\<close>

theorem map_then_translate:
  assumes "pd_ok d m" and "3 \<le> free_count (pm m)" and "fl AND MM2_Address_Mask = 0"
    and "valid_page m (unat a div 4096)" and "valid_page m (unat c div 4096)"
  shows "\<exists>d' m' f k. map_page_at a fl d m = Inr (d', m') \<and> free_index (pm m) k
     \<and> f = page_address (physical_pages (pm m) ! k) \<and> f \<noteq> 0
     \<and> fst (virt2phys c d' m') = (if unat c div 4096 = unat a div 4096 then f + (c AND NOT MM2_Address_Mask)
                                  else fst (virt2phys c d m))"
proof -
  obtain d' m' f where run: "map_page_at a fl d m = Inr (d', m')" and ok: "pd_ok d' m'" and wp: "window_page m' = window_page m"
    and v: "\<forall>j. valid_page m j \<longrightarrow> pte d' m' j = (if j = unat a div 4096 then f OR fl else pte d m j)"
    and f: "f AND MM2_Address_Mask = f" "f \<noteq> 0" and ex: "\<exists>k. free_index (pm m) k \<and> page_address (physical_pages (pm m) ! k) = f"
    by (rule map_page_at_ok [OF assms(1,2)])
  have vp: "valid_page m' (unat c div 4096)" using assms(5) wp by (simp add: valid_page_def)
  have "(f OR fl) AND MM2_Address_Mask = f" by (rule frame_of_entry [OF f(1) assms(3)])
  then have "fst (virt2phys c d' m') = (if unat c div 4096 = unat a div 4096 then f + (c AND NOT MM2_Address_Mask)
      else fst (virt2phys c d m))"
    using virt2phys_pte [OF ok vp] virt2phys_pte [OF assms(1,5)] v assms(5) f(2) by (simp add: Let_def)
  then show ?thesis using run f(2) ex by blast
qed

text \<open>
  (C31) Entries of the kernel's shared tables go stale across directories. When a directory has a
  kernel page's entry in its cache and the page is unmapped through another directory that shares
  the table, the first directory still reads the old entry, even after it has taken over the kernel
  half anew: \<^verbatim>\<open>copy_kernelspace\<close> leaves the cache alone.
\<close>

theorem stale_kernel_entry:
  assumes "pd_ok a m" and "pd_ok b m" and "valid_page m i" and "i < MM2_Kernel_Pages"
    and "table_addr b (i div MM2_Table_Entries) = table_addr a (i div MM2_Table_Entries)"
    and "table_addr a (i div MM2_Table_Entries) \<noteq> 0" and "fst (entrycache_get i a) = e" and "e \<noteq> 0"
  shows "\<exists>b' m'. set_table_entry i 0 b m = Inr (b', m') \<and> pte (copy_kernelspace b' a) m' i = 0
     \<and> fst (get_table_entry i (copy_kernelspace b' a) m') = e"
proof -
  let ?t = "i div MM2_Table_Entries"
  have ir: "i < MM2_Table_Entries * MM2_Table_Entries" using assms(3) by (simp add: valid_page_def)
  have sp: "table_addr b ?t = 0 \<longrightarrow> spare_page (pm m)" using assms(5,6) by simp
  obtain b' m' where r: "set_table_entry i 0 b m = Inr (b', m')" "pd_ok b' m'"
      "\<forall>j. valid_page m j \<longrightarrow> pte b' m' j = (if j = i then 0 else pte b m j)"
    by (rule set_table_entry_ok [OF assms(2) ir sp, of 0])
  let ?c = "copy_kernelspace b' a"
  have "length (directory b') = MM2_Table_Entries" using r(2) tables_okD(1) unfolding pd_ok_def by blast
  moreover have "?t < MM2_Kernel_Tables" using assms(4) by (simp add: MM2_Kernel_Pages_def MM2_Kernel_Tables_def MM2_Table_Entries_def)
  ultimately have "table_addr ?c ?t = table_addr b' ?t"
    by (simp add: table_addr_def copy_kernelspace_def nth_append MM2_Kernel_Tables_def MM2_Table_Entries_def)
  then have "pte ?c m' i = pte b' m' i" by (simp add: pte_def)
  moreover have "pte b' m' i = 0" using r(3) assms(3) by simp
  ultimately have z: "pte ?c m' i = 0" by simp
  have "fst (entrycache_get i ?c) = e" using assms(7) by (simp add: entrycache_get_def copy_kernelspace_def split: prod.splits)
  then have "fst (get_table_entry i ?c m') = e"
    using assms(8) by (cases "entrycache_get i ?c") (simp add: get_table_entry_def)
  with r(1) z show ?thesis by blast
qed

section \<open>A small address space\<close>

definition small_dir :: pdir where
  "small_dir = \<lparr>regions = Some [], directory = (replicate 1024 0)[0 := 0x1003], directory_addr = 0x2000,
     directory_physical = 0x2000, current_table = 0, klowfree = 0, ulowfree = MM2_Kernel_Pages, upages = 0,
     entrycache = [\<lparr>cindex = 7, centry = 0x5003, chits = 0\<rparr>, \<lparr>cindex = 0, centry = 0, chits = 0\<rparr>]\<rparr>"

definition small_mm :: mmstate where
  "small_mm = \<lparr>frames = (\<lambda>_. (replicate 1024 0)[0 := PF_Guard_Page, 7 := 0x5003]),
     pm = \<lparr>physical_pages = [0x100000, 0x101000, 0x102000, 0x103000], io_pages = [], end_of_kernel = 0x6000,
           free_pages = 4, lastidx = 0\<rparr>, kpages = 1, window_page = 5\<rparr>"

lemma small_table: "t < 1024 \<Longrightarrow> table_addr small_dir t = (if t = 0 then 0x1000 else 0)"
  by (cases "t = 0") (simp_all add: table_addr_def small_dir_def MM2_Address_Mask_def)

lemma less_4E: "i < (4 :: nat) \<Longrightarrow> i = 0 \<or> i = 1 \<or> i = 2 \<or> i = 3"
  by linarith

lemma small_usable:
  "i < 4 \<Longrightarrow> page_address (physical_pages (pm small_mm) ! i) = [0x100000, 0x101000, 0x102000, 0x103000] ! i
     \<and> page_status (physical_pages (pm small_mm) ! i) = 0 \<and> usable 0xFFFFFFFF (pm small_mm) i"
  by (drule less_4E, elim disjE)
     (simp_all add: small_mm_def page_address_def page_status_def usable_def MM2_Address_Mask_def)

lemma small_free_count: "free_count (pm small_mm) = 4"
proof -
  have "{i. i < length (physical_pages (pm small_mm)) \<and> usable 0xFFFFFFFF (pm small_mm) i} = {..<4}"
    using small_usable by (auto simp: small_mm_def)
  then show ?thesis by (simp add: free_count_def)
qed

lemma small_tables_ok: "tables_ok small_dir small_mm"
proof -
  have w: "window_page small_mm = 5" by (simp add: small_mm_def)
  have inj: "\<forall>t < 1024. \<forall>u < 1024. table_addr small_dir t \<noteq> 0 \<longrightarrow> table_addr small_dir t = table_addr small_dir u \<longrightarrow> t = u"
    by (auto simp: small_table split: if_splits)
  show ?thesis
    unfolding tables_ok_def MM2_Table_Entries_def
  proof (intro conjI inj)
    show "length (directory small_dir) = 1024" by (simp add: small_dir_def)
    show "window_page small_mm < 1024 * 1024" by (simp add: w)
    show "directory small_dir ! (window_page small_mm div 1024) AND PF_Present \<noteq> 0"
      by (simp add: w small_dir_def PF_Present_def)
    show "frame_table small_dir small_mm \<noteq> 0"
      by (simp add: frame_table_alt w MM2_Table_Entries_def small_table)
    show "\<forall>a. length (frames small_mm a) = 1024" by (simp add: small_mm_def)
  qed
qed

lemma small_pte:
  "pte small_dir small_mm 0 = PF_Guard_Page" "pte small_dir small_mm 7 = 0x5003"
  "i \<noteq> 0 \<Longrightarrow> i \<noteq> 7 \<Longrightarrow> i < 1024 \<Longrightarrow> pte small_dir small_mm i = 0"
  by (simp_all add: pte_def MM2_Table_Entries_def small_table) (simp_all add: small_mm_def)

lemma small_pd_ok: "pd_ok small_dir small_mm"
proof -
  have "cache_ok small_dir small_mm"
    using small_pte(2) by (simp add: cache_ok_def) (simp add: small_dir_def small_mm_def)
  moreover have "pool_ok small_dir (pm small_mm)"
  proof -
    have l: "length (physical_pages (pm small_mm)) = 4" by (simp add: small_mm_def)
    have "pmm_ok (pm small_mm)" by (simp add: pmm_ok_def small_mm_def)
    moreover have "page_address (physical_pages (pm small_mm) ! i) \<noteq> 0
        \<and> (\<forall>t < 1024. table_addr small_dir t \<noteq> page_address (physical_pages (pm small_mm) ! i))" if "i < 4" for i
      using small_usable [OF that] less_4E [OF that] by (auto simp: small_table)
    moreover have "j = i" if "i < 4" "j < 4"
      "page_address (physical_pages (pm small_mm) ! j) = page_address (physical_pages (pm small_mm) ! i)" for i j
      using that(3) small_usable [OF that(1)] small_usable [OF that(2)] less_4E [OF that(1)] less_4E [OF that(2)]
      by (elim disjE) simp_all
    ultimately show ?thesis by (simp add: pool_ok_def free_index_def l MM2_Table_Entries_def)
  qed
  ultimately show ?thesis using small_tables_ok by (simp add: pd_ok_def)
qed

lemma small_spare: "spare_page (pm small_mm)"
  by (rule spare_page_count) (simp add: small_free_count)

lemma small_valid: "i < 1024 \<Longrightarrow> i \<noteq> 5 \<Longrightarrow> valid_page small_mm i"
  by (simp add: valid_page_def small_mm_def MM2_Table_Entries_def)

theorem page_entries_are_array_witness:
  "\<exists>d' m'. set_table_entry 9 0x8003 small_dir small_mm = Inr (d', m') \<and> pd_ok d' m' \<and> fst (get_table_entry 9 d' m') = 0x8003"
  using page_entries_are_array [OF small_pd_ok small_valid small_valid small_spare, of 9 9 "0x8003"] by simp

theorem pd_alloc_first_fit_witness:
  "\<exists>p d' m'. pd_alloc 1 Mode_Kernel small_dir small_mm = Inr (word_of_nat (p * 4096), d', m') \<and> p \<le> 1
     \<and> pd_ok d' m'"
proof -
  have nf: "\<not> page_free small_dir small_mm 0"
    by (simp add: page_free_def small_pte(1) PF_Guard_Page_def PF_Do_Not_Use_def)
  have run: "free_run_at (page_free small_dir small_mm) 1 1"
  proof -
    have "page_free small_dir small_mm 1"
      using small_pte(3) [of 1] by (simp add: page_free_def) (simp add: small_mm_def)
    then have "\<forall>i. 1 \<le> i \<and> i < 1 + 1 \<longrightarrow> page_free small_dir small_mm i"
      by (metis One_nat_def add_Suc_right le_antisym less_Suc_eq_le nat_arith.rule0)
    then show ?thesis by (simp add: free_run_at_def MM2_Total_Pages_def)
  qed
  have low: "(if Mode_Kernel = Mode_Userlow then ulowfree small_dir else klowfree small_dir) \<le> 1"
    by (simp add: Mode_Kernel_def Mode_Userlow_def small_dir_def)
  show ?thesis
    using pd_alloc_first_fit [OF small_pd_ok nf _ _ _ low run] by (auto simp: small_free_count)
qed

theorem map_then_translate_witness:
  "\<exists>d' m' f. map_page_at 0x9000 3 small_dir small_mm = Inr (d', m') \<and> f \<noteq> 0 \<and> fst (virt2phys 0x9123 d' m') = f + 0x123"
  using map_then_translate [OF small_pd_ok _ _ small_valid small_valid, of 3 "0x9000" "0x9123"]
  by (auto simp: small_free_count MM2_Address_Mask_def)

theorem stale_kernel_entry_witness:
  "\<exists>b' m'. set_table_entry 7 0 small_dir small_mm = Inr (b', m') \<and> pte (copy_kernelspace b' small_dir) m' 7 = 0
     \<and> fst (get_table_entry 7 (copy_kernelspace b' small_dir) m') = 0x5003"
proof -
  have "fst (entrycache_get 7 small_dir) = 0x5003" by (simp add: entrycache_get_def small_dir_def)
  moreover have "table_addr small_dir (7 div MM2_Table_Entries) \<noteq> 0" by (simp add: small_table MM2_Table_Entries_def)
  moreover have "(7 :: nat) < MM2_Kernel_Pages" by (simp add: MM2_Kernel_Pages_def)
  ultimately show ?thesis
    using stale_kernel_entry [OF small_pd_ok small_pd_ok small_valid, of 7 "0x5003"] by simp
qed

end
