(* ===== verification/Process.thy ===== *)
theory Process
  imports Registries Cstring
begin

unbundle bit_operations_syntax

text \<open>
  Processes, \<^verbatim>\<open>kernel/process.cpp\<close>: the process table, environments, handles, arguments,
  threads of a process, status and the message queues. The kernel reaches a process by its pid and
  works on it under its lock, so each operation is one atomic step here; waiting is the value
  \<open>WouldBlock\<close>. The table's elements stand for the objects the table points to.
  \<^verbatim>\<open>proc_current_process\<close> is the element with the current pid.
\<close>

section \<open>State\<close>

type_synonym pid_t = u64
type_synonym handle_t = u32

definition env_Global :: u8 where "env_Global = 1"

definition env_ReadOnly :: u8 where "env_ReadOnly = 2"

definition env_Private :: u8 where "env_Private = 4"

definition env_NoInherit :: u8 where "env_NoInherit = 8"

definition st_Running :: u32 where "st_Running = 1"

definition st_Ending :: u32 where "st_Ending = 2"

definition st_Starting :: u32 where "st_Starting = 3"

definition st_Ended :: u32 where "st_Ended = 0"

definition st_DoesNotExist :: u32 where "st_DoesNotExist = 0"

definition ht_invalid :: u32 where "ht_invalid = 0"

definition ht_lock :: u32 where "ht_lock = 1"

definition ht_file :: u32 where "ht_file = 2"

definition ht_directory :: u32 where "ht_directory = 3"

definition ht_thread :: u32 where "ht_thread = 4"

record proc_env_var =
  evalue :: string
  eflags :: u8

type_synonym env_t = "(string \<times> proc_env_var) list"

text \<open>
  The value of a handle is a pointer: to a thread id for a thread handle, to some other object
  otherwise.
\<close>

datatype hvalue = HNull | HObj nat | HThread u64

definition invalid_handle :: "hvalue bt_handle_info" where
  "invalid_handle = \<lparr>htype = ht_invalid, hopen = False, hvalue = HNull, hclose = False\<rparr>"

record proc_process =
  ppid :: pid_t
  parent :: pid_t
  environment :: env_t
  pname :: string
  retval :: u32
  pfile :: "nat option"
  pagedir :: nat
  handlecounter :: handle_t
  status :: u32
  handles :: "(handle_t \<times> hvalue bt_handle_info) list"
  child_returns :: "(pid_t \<times> u32) list"
  args :: "string list"
  msg_buffers :: "(pid_t \<times> nat) list"
  msg_q :: "nat list"

record psys =
  proc_processes :: "proc_process list"
  proc_current_pid :: pid_t
  curpid :: pid_t
  active_dir :: nat
  thread_pid :: pid_t

section \<open>The table\<close>

definition proc_get :: "pid_t \<Rightarrow> ('a) psys_scheme \<Rightarrow> proc_process option" where
  "proc_get pid s = List.find (\<lambda>p. ppid p = pid) (proc_processes s)"

fun upd_first :: "pid_t \<Rightarrow> (proc_process \<Rightarrow> proc_process) \<Rightarrow> proc_process list \<Rightarrow> proc_process list" where
  "upd_first pid f [] = []"
| "upd_first pid f (p # ps) = (if ppid p = pid then f p # ps else p # upd_first pid f ps)"

definition upd_proc :: "pid_t \<Rightarrow> (proc_process \<Rightarrow> proc_process) \<Rightarrow> ('a) psys_scheme \<Rightarrow> ('a) psys_scheme" where
  "upd_proc pid f s = s\<lparr>proc_processes := upd_first pid f (proc_processes s)\<rparr>"

definition proc_init :: "nat \<Rightarrow> u32 \<Rightarrow> u32 \<Rightarrow> psys" where
  "proc_init kernel_dir junk_ret junk_ctr =
     \<lparr>proc_processes = [\<lparr>ppid = 0, parent = 0, environment = [], pname = ''KERNEL'', retval = junk_ret, pfile = None,
        pagedir = kernel_dir, handlecounter = junk_ctr, status = st_Running, handles = [], child_returns = [],
        args = [], msg_buffers = [], msg_q = []\<rparr>],
      proc_current_pid = 0, curpid = 0, active_dir = kernel_dir, thread_pid = 0\<rparr>"

definition proc_switch_sch :: "pid_t \<Rightarrow> ('a) psys_scheme \<Rightarrow> ('a) psys_scheme kres" where
  "proc_switch_sch pid s =
     (if pid = proc_current_pid s then Inr s
      else case List.find (\<lambda>p. ppid p = pid) (rev (proc_processes s)) of
             None \<Rightarrow> Inl (Panic ''(PROC) Attempt to switch to unknown process.'')
           | Some p \<Rightarrow> Inr (s\<lparr>proc_current_pid := ppid p, active_dir := pagedir p\<rparr>))"

section \<open>Environments\<close>

definition has_flag :: "u8 \<Rightarrow> u8 \<Rightarrow> bool" where
  "has_flag fl b \<longleftrightarrow> fl AND b \<noteq> 0"

definition proc_copyenv :: "env_t \<Rightarrow> env_t" where
  "proc_copyenv env = filter (\<lambda>(_, v). \<not> has_flag (eflags v) env_NoInherit \<and> \<not> has_flag (eflags v) env_Global) env"

definition env_set :: "string \<Rightarrow> string \<Rightarrow> u8 \<Rightarrow> bool \<Rightarrow> env_t \<Rightarrow> env_t" where
  "env_set name value flags userspace env =
     (case map_of env name of
        Some v \<Rightarrow> if userspace \<and> (has_flag (eflags v) env_Private \<or> has_flag (eflags v) env_ReadOnly) then env
                  else if value \<noteq> [] then map_put name \<lparr>evalue = value, eflags = flags\<rparr> env
                  else map_erase name env
      | None \<Rightarrow> if value \<noteq> [] then map_put name \<lparr>evalue = value, eflags = flags\<rparr> env
                else map_erase name env)"

definition proc_setenv :: "pid_t \<Rightarrow> string \<Rightarrow> string \<Rightarrow> u8 \<Rightarrow> bool \<Rightarrow> ('a) psys_scheme \<Rightarrow> ('a) psys_scheme kres" where
  "proc_setenv pid oname value flags userspace s =
     (let target = (if has_flag flags env_Global then 0 else pid)
      in case proc_get target s of
           None \<Rightarrow> Inl OutOfBounds
         | Some p \<Rightarrow> Inr (upd_proc target
             (\<lambda>p. p\<lparr>environment := env_set (to_upper oname) value flags userspace (environment p)\<rparr>) s))"

definition visible :: "bool \<Rightarrow> proc_env_var \<Rightarrow> string" where
  "visible userspace v = (if \<not> userspace \<or> \<not> has_flag (eflags v) env_Private then evalue v else [])"

definition proc_getenv :: "pid_t \<Rightarrow> string \<Rightarrow> bool \<Rightarrow> ('a) psys_scheme \<Rightarrow> string kres" where
  "proc_getenv pid oname userspace s =
     (let name = to_upper oname
      in case proc_get 0 s of
           None \<Rightarrow> Inl OutOfBounds
         | Some k \<Rightarrow>
             (case map_of (environment k) name of
                Some v \<Rightarrow>
                  if has_flag (eflags v) env_Global then Inr (visible userspace v)
                  else (case proc_get pid s of
                          None \<Rightarrow> Inl OutOfBounds
                        | Some p \<Rightarrow> Inr (case map_of (environment p) name of Some w \<Rightarrow> visible userspace w | None \<Rightarrow> []))
              | None \<Rightarrow>
                  (case proc_get pid s of
                     None \<Rightarrow> Inl OutOfBounds
                   | Some p \<Rightarrow> Inr (case map_of (environment p) name of Some w \<Rightarrow> visible userspace w | None \<Rightarrow> []))))"

section \<open>Creation\<close>

definition proc_new ::
  "string \<Rightarrow> string list \<Rightarrow> pid_t \<Rightarrow> nat option \<Rightarrow> nat \<Rightarrow> u32 \<Rightarrow> ('a) psys_scheme \<Rightarrow> (pid_t \<times> ('a) psys_scheme) kres" where
  "proc_new name argv parent_pid file newdir junk_ret s =
     (case proc_get parent_pid s of
        None \<Rightarrow> Inl OutOfBounds
      | Some pp \<Rightarrow>
          (let p = \<lparr>ppid = curpid s + 1, parent = ppid pp, environment = proc_copyenv (environment pp), pname = name,
                 retval = junk_ret, pfile = file, pagedir = newdir, handlecounter = 0, status = st_Starting, handles = [],
                 child_returns = [], args = name # argv, msg_buffers = [], msg_q = []\<rparr>
           in Inr (ppid p, s\<lparr>curpid := curpid s + 1, proc_processes := proc_processes s @ [p]\<rparr>)))"

section \<open>Handles\<close>

text \<open>
  The search for an unused handle: the counter is increased until it is neither zero nor in use.
  The first argument bounds the rounds; a search through all \<open>2^32\<close> values never ends.
\<close>

fun next_handle :: "nat \<Rightarrow> handle_t \<Rightarrow> (handle_t \<times> 'v) list \<Rightarrow> handle_t kres" where
  "next_handle 0 h m = Inl Diverges"
| "next_handle (Suc fuel) h m =
     (if h + 1 = 0 \<or> map_has_key m (h + 1) then next_handle fuel (h + 1) m else Inr (h + 1))"

definition proc_add_handle :: "hvalue bt_handle_info \<Rightarrow> pid_t \<Rightarrow> ('a) psys_scheme \<Rightarrow> (handle_t \<times> ('a) psys_scheme) kres" where
  "proc_add_handle handle pid s =
     (case proc_get pid s of
        None \<Rightarrow> Inr (0, s)
      | Some p \<Rightarrow>
          kbind (next_handle (2 ^ 32) (handlecounter p) (handles p))
            (\<lambda>ret. Inr (ret, upd_proc pid (\<lambda>p. p\<lparr>handlecounter := ret, handles := map_put ret handle (handles p)\<rparr>) s)))"

definition proc_get_handle :: "handle_t \<Rightarrow> pid_t \<Rightarrow> ('a) psys_scheme \<Rightarrow> hvalue bt_handle_info" where
  "proc_get_handle h pid s =
     (case proc_get pid s of
        None \<Rightarrow> invalid_handle
      | Some p \<Rightarrow> (case map_of (handles p) h of Some i \<Rightarrow> i | None \<Rightarrow> invalid_handle))"

definition proc_remove_handle :: "handle_t \<Rightarrow> pid_t \<Rightarrow> ('a) psys_scheme \<Rightarrow> ('a) psys_scheme" where
  "proc_remove_handle h pid s = upd_proc pid (\<lambda>p. p\<lparr>handles := map_erase h (handles p)\<rparr>) s"

definition proc_add_lock :: "nat \<Rightarrow> pid_t \<Rightarrow> ('a) psys_scheme \<Rightarrow> (handle_t \<times> ('a) psys_scheme) kres" where
  "proc_add_lock l pid s = proc_add_handle (create_handle ht_lock (HObj l) True) pid s"

definition handle_obj :: "u32 \<Rightarrow> hvalue bt_handle_info \<Rightarrow> hvalue" where
  "handle_obj ty h = (if htype h = ty then hvalue h else HNull)"

definition proc_get_lock :: "handle_t \<Rightarrow> pid_t \<Rightarrow> ('a) psys_scheme \<Rightarrow> hvalue" where
  "proc_get_lock h pid s = handle_obj ht_lock (proc_get_handle h pid s)"

definition proc_remove_lock :: "handle_t \<Rightarrow> pid_t \<Rightarrow> ('a) psys_scheme \<Rightarrow> ('a) psys_scheme" where
  "proc_remove_lock h pid s = proc_remove_handle h pid s"

definition proc_add_file :: "nat \<Rightarrow> pid_t \<Rightarrow> ('a) psys_scheme \<Rightarrow> (handle_t \<times> ('a) psys_scheme) kres" where
  "proc_add_file f pid s = proc_add_handle (create_handle ht_file (HObj f) True) pid s"

definition proc_get_file :: "handle_t \<Rightarrow> pid_t \<Rightarrow> ('a) psys_scheme \<Rightarrow> hvalue" where
  "proc_get_file h pid s = handle_obj ht_file (proc_get_handle h pid s)"

definition proc_remove_file :: "handle_t \<Rightarrow> pid_t \<Rightarrow> ('a) psys_scheme \<Rightarrow> ('a) psys_scheme" where
  "proc_remove_file h pid s = proc_remove_handle h pid s"

definition proc_add_dir :: "nat \<Rightarrow> pid_t \<Rightarrow> ('a) psys_scheme \<Rightarrow> (handle_t \<times> ('a) psys_scheme) kres" where
  "proc_add_dir d pid s = proc_add_handle (create_handle ht_directory (HObj d) True) pid s"

definition proc_get_dir :: "handle_t \<Rightarrow> pid_t \<Rightarrow> ('a) psys_scheme \<Rightarrow> hvalue" where
  "proc_get_dir h pid s = handle_obj ht_directory (proc_get_handle h pid s)"

definition proc_remove_dir :: "handle_t \<Rightarrow> pid_t \<Rightarrow> ('a) psys_scheme \<Rightarrow> ('a) psys_scheme" where
  "proc_remove_dir h pid s = proc_remove_handle h pid s"

section \<open>Status, return values and arguments\<close>

definition proc_set_status :: "u32 \<Rightarrow> pid_t \<Rightarrow> ('a) psys_scheme \<Rightarrow> ('a) psys_scheme" where
  "proc_set_status st pid s = upd_proc pid (\<lambda>p. p\<lparr>status := st\<rparr>) s"

definition proc_get_status :: "pid_t \<Rightarrow> ('a) psys_scheme \<Rightarrow> u32" where
  "proc_get_status pid s = (case proc_get pid s of None \<Rightarrow> st_DoesNotExist | Some p \<Rightarrow> status p)"

text \<open>
  A switch first associates the thread with the process, which panics for a pid that is not in the
  table, so the switch itself never fails to find it.
\<close>

definition sch_setpid :: "pid_t \<Rightarrow> ('a) psys_scheme \<Rightarrow> ('a) psys_scheme kres" where
  "sch_setpid pid s =
     (if proc_get_status pid s = st_DoesNotExist
      then Inl (Panic ''(SCH) Attempt to associate thread to non existent process!'')
      else Inr (s\<lparr>thread_pid := pid\<rparr>))"

definition proc_switch :: "pid_t \<Rightarrow> ('a) psys_scheme \<Rightarrow> (bool \<times> ('a) psys_scheme) kres" where
  "proc_switch pid s0 =
     kbind (sch_setpid pid s0)
       (\<lambda>s. if pid = proc_current_pid s then Inr (True, s)
            else case proc_get pid s of
                   None \<Rightarrow> Inr (False, s)
                 | Some p \<Rightarrow> Inr (True, s\<lparr>proc_current_pid := ppid p, active_dir := pagedir p\<rparr>))"

definition proc_setreturn :: "u32 \<Rightarrow> pid_t \<Rightarrow> ('a) psys_scheme \<Rightarrow> ('a) psys_scheme" where
  "proc_setreturn ret pid s = upd_proc pid (\<lambda>p. if status p = st_Running then p\<lparr>retval := ret\<rparr> else p) s"

definition proc_wait_blockcheck :: "pid_t \<Rightarrow> ('a) psys_scheme \<Rightarrow> bool" where
  "proc_wait_blockcheck pid s \<longleftrightarrow> list_all (\<lambda>p. ppid p \<noteq> pid) (proc_processes s)"

definition proc_wait :: "pid_t \<Rightarrow> ('a) psys_scheme \<Rightarrow> u32 kres" where
  "proc_wait pid s =
     (if \<not> proc_wait_blockcheck pid s then Inl WouldBlock
      else case proc_get (proc_current_pid s) s of
             None \<Rightarrow> Inl OutOfBounds
           | Some p \<Rightarrow> Inr (case map_of (child_returns p) pid of Some r \<Rightarrow> r | None \<Rightarrow> 0))"

definition proc_get_argc :: "pid_t \<Rightarrow> ('a) psys_scheme \<Rightarrow> nat" where
  "proc_get_argc pid s = (case proc_get pid s of None \<Rightarrow> 0 | Some p \<Rightarrow> length (args p))"

definition c_bytes :: "string \<Rightarrow> u8 list" where
  "c_bytes str = map (\<lambda>c. word_of_nat (of_char c)) (str_buf str)"

text \<open>
  The index is not checked against the number of arguments. \<open>buf\<close> is the caller's buffer from the
  pointer on; the result is its new contents and the argument's length.
\<close>

definition proc_get_arg :: "nat \<Rightarrow> u8 list \<Rightarrow> u32 \<Rightarrow> pid_t \<Rightarrow> ('a) psys_scheme \<Rightarrow> (nat \<times> u8 list) kres" where
  "proc_get_arg i buf sz pid s =
     (case proc_get pid s of
        None \<Rightarrow> Inr (0, buf)
      | Some p \<Rightarrow>
          if length (args p) \<le> i then Inl OutOfBounds
          else kbind (strncpy buf (c_bytes (args p ! i)) sz) (\<lambda>b. Inr (length (args p ! i), b)))"

section \<open>Threads of a process\<close>

definition proc_get_thread_handle :: "u64 \<Rightarrow> pid_t \<Rightarrow> ('a) psys_scheme \<Rightarrow> handle_t" where
  "proc_get_thread_handle tid pid s =
     (case proc_get pid s of
        None \<Rightarrow> 0
      | Some p \<Rightarrow>
          (case List.find (\<lambda>(_, i). htype i = ht_thread \<and> hvalue i = HThread tid) (handles p) of
             Some (h, _) \<Rightarrow> h | None \<Rightarrow> 0))"

definition proc_add_thread :: "u64 \<Rightarrow> pid_t \<Rightarrow> ('a) psys_scheme \<Rightarrow> (handle_t \<times> ('a) psys_scheme) kres" where
  "proc_add_thread tid pid s =
     (if proc_get_thread_handle tid pid s \<noteq> 0 then Inr (proc_get_thread_handle tid pid s, s)
      else if proc_get_status pid s = st_Ending then Inr (0, s)
      else proc_add_handle (create_handle ht_thread (HThread tid) True) pid s)"

definition proc_get_thread :: "handle_t \<Rightarrow> pid_t \<Rightarrow> ('a) psys_scheme \<Rightarrow> u64" where
  "proc_get_thread h pid s = (case handle_obj ht_thread (proc_get_handle h pid s) of HThread t \<Rightarrow> t | _ \<Rightarrow> 0)"

definition proc_remove_thread :: "u64 \<Rightarrow> pid_t \<Rightarrow> ('a) psys_scheme \<Rightarrow> ('a) psys_scheme" where
  "proc_remove_thread tid pid s =
     (let h = proc_get_thread_handle tid pid s in if h \<noteq> 0 then proc_remove_handle h pid s else s)"

definition proc_remove_thread_handle :: "handle_t \<Rightarrow> pid_t \<Rightarrow> ('a) psys_scheme \<Rightarrow> ('a) psys_scheme" where
  "proc_remove_thread_handle h pid s = proc_remove_handle h pid s"

section \<open>Message queues\<close>

text \<open>Queue elements are addresses of message headers.\<close>

definition proc_get_msg :: "nat \<Rightarrow> pid_t \<Rightarrow> ('a) psys_scheme \<Rightarrow> nat option" where
  "proc_get_msg index pid s =
     (case proc_get pid s of
        None \<Rightarrow> None
      | Some p \<Rightarrow> if length (msg_q p) \<le> index then None else Some (msg_q p ! index))"

definition proc_add_msg :: "nat \<Rightarrow> pid_t \<Rightarrow> ('a) psys_scheme \<Rightarrow> ('a) psys_scheme" where
  "proc_add_msg msg to s = upd_proc to (\<lambda>p. p\<lparr>msg_q := msg_q p @ [msg]\<rparr>) s"

definition proc_remove_msg :: "nat \<Rightarrow> pid_t \<Rightarrow> ('a) psys_scheme \<Rightarrow> ('a) psys_scheme" where
  "proc_remove_msg msg to s = upd_proc to (\<lambda>p. p\<lparr>msg_q := remove1 msg (msg_q p)\<rparr>) s"

definition proc_free_message_buffer :: "pid_t \<Rightarrow> pid_t \<Rightarrow> ('a) psys_scheme \<Rightarrow> nat option \<times> ('a) psys_scheme" where
  "proc_free_message_buffer topid pid s =
     (case proc_get pid s of
        None \<Rightarrow> (None, s)
      | Some p \<Rightarrow> (map_of (msg_buffers p) topid,
                   upd_proc pid (\<lambda>p. p\<lparr>msg_buffers := map_erase topid (msg_buffers p)\<rparr>) s))"

definition proc_message_wait :: "pid_t \<Rightarrow> ('a) psys_scheme \<Rightarrow> unit kres" where
  "proc_message_wait pid s =
     (case proc_get pid s of
        None \<Rightarrow> Inr ()
      | Some p \<Rightarrow> if msg_buffers p = [] then Inr () else Inl WouldBlock)"

section \<open>Well-formed tables\<close>

text \<open>
  The invariant of the table: pids are unique and were handed out by the counter, process 0 and the
  current process exist, handles are unique and never zero, and each environment names a variable
  once.
\<close>

definition proc_ok :: "proc_process \<Rightarrow> bool" where
  "proc_ok p \<longleftrightarrow> distinct (map_keys (handles p)) \<and> 0 \<notin> set (map_keys (handles p))
     \<and> distinct (map_keys (environment p)) \<and> distinct (map_keys (msg_buffers p))"

definition procs_ok :: "('a) psys_scheme \<Rightarrow> bool" where
  "procs_ok s \<longleftrightarrow> distinct (map ppid (proc_processes s)) \<and> (\<forall>p \<in> set (proc_processes s). proc_ok p \<and> ppid p \<le> curpid s)
     \<and> proc_get 0 s \<noteq> None \<and> proc_get (proc_current_pid s) s \<noteq> None"

lemma ppid_upd_first: "(\<And>p. ppid (f p) = ppid p) \<Longrightarrow> map ppid (upd_first pid f ps) = map ppid ps"
  by (induction ps) simp_all

lemma set_upd_first: "x \<in> set (upd_first pid f ps) \<Longrightarrow> x \<in> set ps \<or> (\<exists>p \<in> set ps. ppid p = pid \<and> x = f p)"
  by (induction ps) (auto split: if_splits)

lemma find_upd_first:
  "(\<And>p. ppid (f p) = ppid p) \<Longrightarrow> List.find (\<lambda>p. ppid p = q) (upd_first pid f ps)
     = (if q = pid then map_option f (List.find (\<lambda>p. ppid p = q) ps) else List.find (\<lambda>p. ppid p = q) ps)"
  by (induction ps) auto

lemma find_unique: "distinct (map ppid ps) \<Longrightarrow> p \<in> set ps \<Longrightarrow> List.find (\<lambda>x. ppid x = ppid p) ps = Some p"
  by (induction ps) (auto simp: image_iff)

lemma proc_get_upd [simp]:
  "(\<And>p. ppid (f p) = ppid p) \<Longrightarrow>
     proc_get q (upd_proc pid f s) = (if q = pid then map_option f (proc_get q s) else proc_get q s)"
  by (simp add: proc_get_def upd_proc_def find_upd_first)

lemma upd_proc_fields [simp]:
  "proc_current_pid (upd_proc pid f s) = proc_current_pid s" "curpid (upd_proc pid f s) = curpid s"
  "active_dir (upd_proc pid f s) = active_dir s" "thread_pid (upd_proc pid f s) = thread_pid s"
  by (simp_all add: upd_proc_def)

lemma proc_get_in: "proc_get pid s = Some p \<Longrightarrow> p \<in> set (proc_processes s) \<and> ppid p = pid"
  by (auto simp: proc_get_def find_Some_iff)

lemma upd_first_absent: "List.find (\<lambda>p. ppid p = pid) ps = None \<Longrightarrow> upd_first pid f ps = ps"
  by (induction ps) (auto split: if_splits)

lemma procs_ok_upd [inv_intros]:
  assumes "procs_ok s" and "\<And>p. ppid (f p) = ppid p" and "\<And>p. proc_get pid s = Some p \<Longrightarrow> proc_ok p \<Longrightarrow> proc_ok (f p)"
  shows "procs_ok (upd_proc pid f s)"
proof -
  have "proc_ok x \<and> ppid x \<le> curpid s" if x: "x \<in> set (upd_first pid f (proc_processes s))" for x
  proof -
    consider "x \<in> set (proc_processes s)" | p where "p \<in> set (proc_processes s)" "ppid p = pid" "x = f p"
      using set_upd_first [OF x] by blast
    then show ?thesis
    proof cases
      case 1
      then show ?thesis using assms(1) by (simp add: procs_ok_def)
    next
      case 2
      have "proc_get pid s = Some p"
        using find_unique [OF _ 2(1)] assms(1) 2(2) by (simp add: proc_get_def procs_ok_def)
      then show ?thesis using assms 2 by (auto simp: procs_ok_def)
    qed
  qed
  moreover have "distinct (map ppid (upd_first pid f (proc_processes s)))"
    using assms(1) by (simp add: ppid_upd_first [OF assms(2)] procs_ok_def)
  moreover have "proc_get 0 (upd_proc pid f s) \<noteq> None" "proc_get (proc_current_pid s) (upd_proc pid f s) \<noteq> None"
    using assms(1) by (auto simp: assms(2) procs_ok_def)
  ultimately show ?thesis by (simp add: procs_ok_def) (simp add: upd_proc_def)
qed

section \<open>The search for a handle\<close>

definition handle_usable :: "(handle_t \<times> 'v) list \<Rightarrow> handle_t \<Rightarrow> bool" where
  "handle_usable m h \<longleftrightarrow> h \<noteq> 0 \<and> h \<notin> set (map_keys m)"

lemma next_handle_sound: "next_handle fuel h m = Inr r \<Longrightarrow> handle_usable m r"
  by (induction fuel arbitrary: h) (auto simp: handle_usable_def map_has_key_iff split: if_splits)

lemma next_handle_ends:
  "0 < k \<Longrightarrow> k \<le> fuel \<Longrightarrow> handle_usable m (h + word_of_nat k) \<Longrightarrow> \<exists>r. next_handle fuel h m = Inr r"
proof (induction fuel arbitrary: h k)
  case (Suc fuel)
  show ?case
  proof (cases "h + 1 = 0 \<or> map_has_key m (h + 1)")
    case True
    have "k \<noteq> 1" by (rule notI) (use True Suc.prems(3) in \<open>simp add: handle_usable_def map_has_key_iff\<close>)
    then have k: "0 < k - 1" "k - 1 \<le> fuel" using Suc.prems(1,2) by simp_all
    have "h + 1 + word_of_nat (k - 1) = h + word_of_nat k" using Suc.prems(1) by (simp add: of_nat_diff)
    then have "handle_usable m (h + 1 + word_of_nat (k - 1))" using Suc.prems(3) by (simp only:)
    from Suc.IH [OF k this] show ?thesis using True by simp
  qed simp
qed simp

lemma next_handle_loops: "(\<And>h. \<not> handle_usable m h) \<Longrightarrow> next_handle fuel h m = Inl Diverges"
  by (induction fuel arbitrary: h) (auto simp: handle_usable_def map_has_key_iff)

lemma next_handle_iff:
  "(\<exists>r. next_handle (2 ^ 32) h m = Inr r) \<longleftrightarrow> (\<exists>v. handle_usable m v)"
proof
  assume "\<exists>v. handle_usable m v"
  then obtain v where v: "handle_usable m v" by blast
  define k where "k = (if v = h then 2 ^ 32 else unat (v - h))"
  have w: "word_of_nat (2 ^ 32) = (0 :: handle_t)" by simp
  have "0 < k" by (simp add: k_def unat_gt_0)
  moreover have "k \<le> 2 ^ 32" using unsigned_less [of "v - h", where 'a = nat] by (simp add: k_def)
  moreover have "h + word_of_nat k = v" using w by (simp add: k_def)
  ultimately show "\<exists>r. next_handle (2 ^ 32) h m = Inr r" using next_handle_ends v by metis
next
  assume "\<exists>r. next_handle (2 ^ 32) h m = Inr r"
  then show "\<exists>v. handle_usable m v" using next_handle_sound by blast
qed

section \<open>All operations keep the table well formed\<close>

lemma distinct_put_erase:
  "distinct (map_keys m) \<Longrightarrow> distinct (map_keys (map_put k v m))"
  "distinct (map_keys m) \<Longrightarrow> distinct (map_keys (map_erase k m))"
  by (rule em.invar_put, assumption) (rule em.invar_erase, assumption)

lemma keys_erase_subset: "set (map_keys (map_erase k m)) \<subseteq> set (map_keys m)"
  using set_map_erase [of k m] by auto

lemma keys_put: "fst ` set (map_put k v m) = insert k (fst ` set m)"
  by (induction m) auto

lemma distinct_env_set: "distinct (map_keys e) \<Longrightarrow> distinct (map_keys (env_set n v fl u e))"
  by (auto simp: env_set_def distinct_put_erase split: option.splits)

lemma distinct_copyenv: "distinct (map_keys e) \<Longrightarrow> distinct (map_keys (proc_copyenv e))"
  unfolding proc_copyenv_def by (rule distinct_map_filter)

text \<open>
  One step of the process manager: any of its operations that changes the table. Pids come from a
  64-bit counter, which is taken not to have wrapped.
\<close>

inductive pstep :: "psys \<Rightarrow> psys \<Rightarrow> bool" where
  p_new: "curpid s + 1 \<noteq> 0 \<Longrightarrow> proc_new name argv pp file dir junk s = Inr (pid, s') \<Longrightarrow> pstep s s'"
| p_switch: "proc_switch pid s = Inr (b, s') \<Longrightarrow> pstep s s'"
| p_switch_sch: "proc_switch_sch pid s = Inr s' \<Longrightarrow> pstep s s'"
| p_setenv: "proc_setenv pid n v fl u s = Inr s' \<Longrightarrow> pstep s s'"
| p_add_handle: "proc_add_handle i pid s = Inr (h, s') \<Longrightarrow> pstep s s'"
| p_remove_handle: "pstep s (proc_remove_handle h pid s)"
| p_set_status: "pstep s (proc_set_status st pid s)"
| p_setreturn: "pstep s (proc_setreturn r pid s)"
| p_add_thread: "proc_add_thread tid pid s = Inr (h, s') \<Longrightarrow> pstep s s'"
| p_remove_thread: "pstep s (proc_remove_thread tid pid s)"
| p_add_msg: "pstep s (proc_add_msg msg pid s)"
| p_remove_msg: "pstep s (proc_remove_msg msg pid s)"
| p_free_buffer: "proc_free_message_buffer topid pid s = (r, s') \<Longrightarrow> pstep s s'"

inductive preach :: "psys \<Rightarrow> bool" where
  init: "preach (proc_init dir r c)"
| step: "preach s \<Longrightarrow> pstep s s' \<Longrightarrow> preach s'"

lemma procs_ok_init: "procs_ok (proc_init dir r c)"
  by (simp add: procs_ok_def proc_init_def proc_ok_def proc_get_def)

lemma procs_ok_add_handle:
  assumes "procs_ok s" and "proc_add_handle i pid s = Inr (h, s')"
  shows "procs_ok s'"
proof (cases "proc_get pid s")
  case None
  then show ?thesis using assms by (simp add: proc_add_handle_def)
next
  case (Some p)
  then have n: "next_handle (2 ^ 32) (handlecounter p) (handles p) = Inr h"
    and s': "s' = upd_proc pid (\<lambda>p. p\<lparr>handlecounter := h, handles := map_put h i (handles p)\<rparr>) s"
    using assms(2) by (auto simp: proc_add_handle_def kbind_Inr_iff simp del: next_handle.simps)
  have "h \<noteq> 0" using next_handle_sound [OF n] by (simp add: handle_usable_def)
  then show ?thesis unfolding s'
    by (intro procs_ok_upd [OF assms(1)]) (simp_all add: proc_ok_def distinct_put_erase keys_put)
qed

lemma procs_ok_remove_handle: "procs_ok s \<Longrightarrow> procs_ok (proc_remove_handle h pid s)"
  unfolding proc_remove_handle_def
proof (rule procs_ok_upd)
  fix p
  assume "proc_ok p"
  moreover from this have "0 \<notin> set (map_keys (map_erase h (handles p)))"
    using keys_erase_subset [of h "handles p"] unfolding proc_ok_def by blast
  ultimately show "proc_ok (p\<lparr>handles := map_erase h (handles p)\<rparr>)" by (simp add: proc_ok_def distinct_put_erase)
qed simp_all

lemma procs_ok_setenv:
  assumes "procs_ok s" and "proc_setenv pid n v fl u s = Inr s'"
  shows "procs_ok s'"
proof -
  obtain t where "s' = upd_proc t (\<lambda>p. p\<lparr>environment := env_set (to_upper n) v fl u (environment p)\<rparr>) s"
    using assms(2) by (auto simp: proc_setenv_def Let_def split: option.splits)
  then show ?thesis using assms(1) by (auto intro!: procs_ok_upd simp: proc_ok_def distinct_env_set)
qed

lemma procs_ok_new:
  assumes ok: "procs_ok s" and nw: "curpid s + 1 \<noteq> 0" and r: "proc_new name argv pp file dir junk s = Inr (pid, s')"
  shows "procs_ok s'" and "pid = curpid s + 1" and "proc_get pid s = None"
proof -
  obtain q where q: "proc_get pp s = Some q" using r by (auto simp: proc_new_def split: option.splits)
  define p where "p = \<lparr>ppid = curpid s + 1, parent = ppid q, environment = proc_copyenv (environment q), pname = name,
     retval = junk, pfile = file, pagedir = dir, handlecounter = 0, status = st_Starting, handles = [],
     child_returns = [], args = name # argv, msg_buffers = [], msg_q = []\<rparr>"
  have s': "s' = s\<lparr>curpid := curpid s + 1, proc_processes := proc_processes s @ [p]\<rparr>" and pid: "pid = curpid s + 1"
    using r q unfolding proc_new_def p_def Let_def by auto
  have lt: "curpid s < curpid s + 1" using nw unatSuc [of "curpid s"] by (simp add: word_less_nat_alt add.commute)
  have older: "ppid x \<noteq> curpid s + 1" "ppid x \<le> curpid s + 1" if "x \<in> set (proc_processes s)" for x
  proof -
    have "ppid x \<le> curpid s" using that ok by (simp add: procs_ok_def)
    then have "ppid x < curpid s + 1" using lt by (rule le_less_trans)
    then show "ppid x \<noteq> curpid s + 1" "ppid x \<le> curpid s + 1" by auto
  qed
  show none: "proc_get pid s = None" using older(1) by (auto simp: proc_get_def find_None_iff pid)
  have keep: "proc_get x s' = proc_get x s" if "proc_get x s \<noteq> None" for x
  proof -
    have "List.find P (xs @ ys) = List.find P xs" if "List.find P xs \<noteq> None" for P and xs ys :: "proc_process list"
      using that by (induction xs) auto
    then show ?thesis using that by (simp add: proc_get_def s')
  qed
  have "proc_ok q" using proc_get_in [OF q] ok by (simp add: procs_ok_def)
  then have "proc_ok p" by (simp add: proc_ok_def p_def distinct_copyenv)
  moreover have "proc_get 0 s' \<noteq> None" "proc_get (proc_current_pid s) s' \<noteq> None"
    using ok keep by (simp_all add: procs_ok_def)
  moreover have "distinct (map ppid (proc_processes s'))"
  proof -
    have "curpid s + 1 \<notin> ppid ` set (proc_processes s)" using older(1) by fastforce
    then show ?thesis using ok by (simp add: s' procs_ok_def p_def)
  qed
  ultimately show "procs_ok s'"
    using ok older(2) unfolding procs_ok_def by (simp add: s' p_def)
  show "pid = curpid s + 1" by (rule pid)
qed

lemma procs_ok_switch:
  assumes "procs_ok s" and "proc_get pid s = Some p"
  shows "procs_ok (s\<lparr>proc_current_pid := ppid p, active_dir := a\<rparr>)"
  using assms proc_get_in [OF assms(2)] by (simp add: procs_ok_def) (simp add: proc_get_def)

lemma find_rev_unique:
  "distinct (map ppid ps) \<Longrightarrow> List.find (\<lambda>p. ppid p = pid) (rev ps) = List.find (\<lambda>p. ppid p = pid) ps"
proof (cases "List.find (\<lambda>p. ppid p = pid) (rev ps)")
  case None
  then have "List.find (\<lambda>p. ppid p = pid) ps = None" by (simp add: find_None_iff)
  with None show ?thesis by simp
next
  case (Some p)
  assume d: "distinct (map ppid ps)"
  have "p \<in> set (rev ps) \<and> ppid p = pid" using Some by (metis (mono_tags, lifting) find_Some_iff nth_mem)
  then have "List.find (\<lambda>p. ppid p = pid) ps = Some p" using find_unique [OF d, of p] by auto
  with Some show ?thesis by simp
qed

lemma pstep_ok: "pstep s s' \<Longrightarrow> procs_ok s \<Longrightarrow> procs_ok s'"
proof (induction rule: pstep.induct)
  case (p_new s name argv pp f dir junk pid s')
  then show ?case using procs_ok_new(1) by blast
next
  case (p_switch pid s b s')
  let ?s = "s\<lparr>thread_pid := pid\<rparr>"
  have t: "procs_ok ?s" using p_switch(2) by (simp add: procs_ok_def proc_get_def)
  have set: "sch_setpid pid s = Inr ?s" using p_switch(1) by (simp add: proc_switch_def sch_setpid_def split: if_splits)
  note run = p_switch(1) [unfolded proc_switch_def set kbind_simps]
  show ?case
  proof (cases "pid = proc_current_pid s \<or> proc_get pid ?s = None")
    case True
    then have "s' = ?s" using run by (elim disjE) (simp_all split: if_splits)
    then show ?thesis using t by simp
  next
    case False
    then obtain p where p: "proc_get pid ?s = Some p" by blast
    then have "s' = ?s\<lparr>proc_current_pid := ppid p, active_dir := pagedir p\<rparr>"
      using run False by simp
    then show ?thesis using procs_ok_switch [OF t p, where a = "pagedir p"] by simp
  qed
next
  case (p_switch_sch pid s s')
  then have d: "distinct (map ppid (proc_processes s))" by (simp add: procs_ok_def)
  show ?case
  proof (cases "pid = proc_current_pid s")
    case True
    then show ?thesis using p_switch_sch by (simp add: proc_switch_sch_def)
  next
    case False
    then obtain p where "proc_get pid s = Some p" "s' = s\<lparr>proc_current_pid := ppid p, active_dir := pagedir p\<rparr>"
      using p_switch_sch(1) by (auto simp: proc_switch_sch_def find_rev_unique [OF d] proc_get_def split: option.splits)
    then show ?thesis using procs_ok_switch [OF p_switch_sch(2), of pid p, where a = "pagedir p"] by simp
  qed
next
  case (p_setenv pid n v fl u s s')
  then show ?case using procs_ok_setenv by blast
next
  case (p_add_handle i pid s h s')
  then show ?case using procs_ok_add_handle by blast
next
  case (p_remove_handle s h pid)
  then show ?case by (rule procs_ok_remove_handle)
next
  case (p_add_thread tid pid s h s')
  then show ?case using procs_ok_add_handle by (auto simp: proc_add_thread_def split: if_splits)
next
  case (p_remove_thread s tid pid)
  then show ?case by (simp add: proc_remove_thread_def Let_def procs_ok_remove_handle)
next
  case (p_free_buffer topid pid s r s')
  then show ?case
    by (auto simp: proc_free_message_buffer_def proc_ok_def distinct_put_erase intro!: procs_ok_upd split: option.splits)
qed (auto simp: proc_set_status_def proc_setreturn_def proc_add_msg_def proc_remove_msg_def proc_ok_def intro!: procs_ok_upd)

lemma preach_ok: "preach s \<Longrightarrow> procs_ok s"
  by (induction rule: preach.induct) (use procs_ok_init pstep_ok in blast)+

section \<open>Environments seen from user mode\<close>

text \<open>Everything a user-mode reader may learn: private variables with their values blanked.\<close>

definition hide_env :: "env_t \<Rightarrow> env_t" where
  "hide_env env = map (\<lambda>(n, v). (n, if has_flag (eflags v) env_Private then v\<lparr>evalue := []\<rparr> else v)) env"

definition user_view :: "('a) psys_scheme \<Rightarrow> ('a) psys_scheme" where
  "user_view s = s\<lparr>proc_processes := map (\<lambda>p. p\<lparr>environment := hide_env (environment p)\<rparr>) (proc_processes s)\<rparr>"

lemma map_of_hide:
  "map_of (hide_env env) n = map_option (\<lambda>v. if has_flag (eflags v) env_Private then v\<lparr>evalue := []\<rparr> else v) (map_of env n)"
  by (induction env) (auto simp: hide_env_def)

lemma find_map_pid:
  "List.find (\<lambda>p. ppid p = q) (map (\<lambda>p. p\<lparr>environment := f p\<rparr>) ps)
     = map_option (\<lambda>p. p\<lparr>environment := f p\<rparr>) (List.find (\<lambda>p. ppid p = q) ps)"
  by (induction ps) simp_all

lemma proc_get_user_view:
  "proc_get q (user_view s) = map_option (\<lambda>p. p\<lparr>environment := hide_env (environment p)\<rparr>) (proc_get q s)"
  by (simp add: proc_get_def user_view_def find_map_pid)

lemma visible_hidden:
  "visible True (if has_flag (eflags v) env_Private then v\<lparr>evalue := []\<rparr> else v) = visible True v"
  by (simp add: visible_def)

lemma eflags_hidden [simp]: "eflags (if b then v\<lparr>evalue := x\<rparr> else v) = eflags v"
  by simp

lemma getenv_user_view: "proc_getenv pid n True (user_view s) = proc_getenv pid n True s"
proof -
  show ?thesis
  proof (cases "proc_get 0 s")
    case None
    then show ?thesis by (simp add: proc_getenv_def proc_get_user_view)
  next
    case (Some k)
    then show ?thesis
      by (cases "map_of (environment k) (to_upper n)"; cases "proc_get pid s")
        (simp_all add: proc_getenv_def proc_get_user_view map_of_hide visible_hidden Let_def, auto simp: visible_hidden simp del: eflags_hidden split: option.split)
  qed
qed

lemma env_set_read_only:
  assumes "map_of env n = Some v" and "has_flag (eflags v) env_ReadOnly \<or> has_flag (eflags v) env_Private"
  shows "env_set n value fl True env = env"
  using assms by (auto simp: env_set_def)

lemma map_of_env_set_new:
  "map_of env n = None \<Longrightarrow> value \<noteq> [] \<Longrightarrow> map_of (env_set n value fl u env) n = Some \<lparr>evalue = value, eflags = fl\<rparr>"
  by (simp add: env_set_def map_of_put)

lemma map_of_copyenv:
  assumes "distinct (map_keys env)"
  shows "map_of (proc_copyenv env) n = (case map_of env n of
     None \<Rightarrow> None
   | Some v \<Rightarrow> if has_flag (eflags v) env_NoInherit \<or> has_flag (eflags v) env_Global then None else Some v)"
  using assms
  by (induction env) (auto simp: proc_copyenv_def map_of_eq_None_iff split: option.splits dest: map_of_SomeD)

lemma proc_new_inherits:
  assumes ok: "procs_ok s" and nw: "curpid s + 1 \<noteq> 0" and q: "proc_get pp s = Some q"
  shows "\<exists>pid s' c. proc_new name argv pp file dir junk s = Inr (pid, s') \<and> proc_get pid s = None \<and> procs_ok s'
     \<and> proc_get pid s' = Some c \<and> parent c = pp
     \<and> (\<forall>n. map_of (environment c) n = (case map_of (environment q) n of
           None \<Rightarrow> None
         | Some v \<Rightarrow> if has_flag (eflags v) env_NoInherit \<or> has_flag (eflags v) env_Global then None else Some v))"
proof -
  obtain pid s' where r: "proc_new name argv pp file dir junk s = Inr (pid, s')"
    using q by (auto simp: proc_new_def Let_def)
  note n = procs_ok_new [OF ok nw r]
  have "List.find (\<lambda>p. ppid p = pid) (proc_processes s) = None" using n(3) by (simp add: proc_get_def)
  moreover have "List.find P (xs @ [c]) = Some c" if "List.find P xs = None" "P c" for P and xs :: "proc_process list" and c
    using that by (induction xs) (auto split: if_splits)
  ultimately have app: "List.find (\<lambda>p. ppid p = pid) (proc_processes s @ [c]) = Some c" if "ppid c = pid" for c
    using that by blast
  obtain c where c: "proc_get pid s' = Some c" "parent c = pp" "environment c = proc_copyenv (environment q)"
    using r q proc_get_in [OF q] app n(2) by (auto simp: proc_new_def Let_def proc_get_def)
  have "distinct (map_keys (environment q))" using ok proc_get_in [OF q] by (simp add: procs_ok_def proc_ok_def)
  then show ?thesis using r n c map_of_copyenv by fastforce
qed

section \<open>Properties\<close>



text \<open>
  (C23) Adding a handle ends exactly when some non-zero handle is unused, and loops for ever
  otherwise. When it ends the handle is new and not zero, \<^verbatim>\<open>proc_get_handle\<close> returns the
  stored information for it, and no other handle of any process changes.
\<close>

theorem proc_add_handle_fresh:
  assumes "procs_ok s" and "proc_get pid s = Some p"
  shows "(if \<exists>v. v \<noteq> 0 \<and> v \<notin> set (map_keys (handles p))
          then \<exists>h s'. proc_add_handle i pid s = Inr (h, s') \<and> h \<noteq> 0 \<and> h \<notin> set (map_keys (handles p))
             \<and> proc_get_handle h pid s' = i
             \<and> (\<forall>q h'. (q, h') \<noteq> (pid, h) \<longrightarrow> proc_get_handle h' q s' = proc_get_handle h' q s)
          else proc_add_handle i pid s = Inl Diverges)"
proof (cases "\<exists>v. handle_usable (handles p) v")
  case True
  then obtain h where n: "next_handle (2 ^ 32) (handlecounter p) (handles p) = Inr h" using next_handle_iff by blast
  let ?s = "upd_proc pid (\<lambda>p. p\<lparr>handlecounter := h, handles := map_put h i (handles p)\<rparr>) s"
  have r: "proc_add_handle i pid s = Inr (h, ?s)" using n assms(2) by (simp add: proc_add_handle_def del: next_handle.simps)
  have u: "h \<noteq> 0 \<and> h \<notin> set (map_keys (handles p))" using next_handle_sound [OF n] by (simp add: handle_usable_def)
  have g: "proc_get_handle h' q ?s = (if (q, h') = (pid, h) then i else proc_get_handle h' q s)" for q h'
    using assms(2) by (simp add: proc_get_handle_def map_of_put)
  show ?thesis using True r u g by (simp add: handle_usable_def)
next
  case False
  then have "next_handle (2 ^ 32) (handlecounter p) (handles p) = Inl Diverges" by (intro next_handle_loops) blast
  then have "proc_add_handle i pid s = Inl Diverges" using assms(2) by (simp add: proc_add_handle_def del: next_handle.simps)
  then show ?thesis using False by (auto simp: handle_usable_def)
qed

theorem proc_add_handle_fresh_witness:
  "\<exists>h s'. proc_add_handle (create_handle ht_lock (HObj 1) True) 0 (proc_init 0 0 0) = Inr (h, s') \<and> h \<noteq> 0
     \<and> proc_get_handle h 0 s' = create_handle ht_lock (HObj 1) True"
proof -
  obtain p where p: "proc_get 0 (proc_init 0 0 0) = Some p" "handles p = []" by (simp add: proc_init_def proc_get_def)
  have "\<exists>v :: u32. v \<noteq> 0 \<and> v \<notin> set (map_keys (handles p))" using p(2) by (intro exI [of _ 1]) simp
  then show ?thesis
    using proc_add_handle_fresh [OF procs_ok_init p(1), of "create_handle ht_lock (HObj 1) True"] by auto
qed



text \<open>
  (C38) A read-only variable of a process does not hold up against user mode. Setting it directly is
  ignored, but setting it with the global flag writes the kernel's environment instead, which every
  process then sees first: after that call each process, the owner included, reads the caller's
  value.
\<close>

theorem read_only_env_shadowed:
  assumes "proc_get pid s = Some p" and "map_of (environment p) (to_upper n) = Some v"
    and "has_flag (eflags v) env_ReadOnly" and "proc_get 0 s = Some k" and "map_of (environment k) (to_upper n) = None"
    and "value \<noteq> []"
  shows "\<exists>t s'. proc_setenv pid n value 0 True s = Inr t \<and> proc_getenv pid n True t = proc_getenv pid n True s
     \<and> proc_setenv pid n value env_Global True s = Inr s'
     \<and> (\<forall>q. proc_get q s \<noteq> None \<longrightarrow> proc_getenv q n True s' = Inr value)"
proof -
  let ?t = "upd_proc pid (\<lambda>p. p\<lparr>environment := env_set (to_upper n) value 0 True (environment p)\<rparr>) s"
  let ?s = "upd_proc 0 (\<lambda>p. p\<lparr>environment := env_set (to_upper n) value env_Global True (environment p)\<rparr>) s"
  have "pid \<noteq> 0" using assms(1,2,4,5) by auto
  have z: "\<not> has_flag 0 env_Global" "has_flag env_Global env_Global" "\<not> has_flag env_Global env_Private"
    by (simp_all add: has_flag_def env_Global_def env_Private_def)
  have t: "proc_setenv pid n value 0 True s = Inr ?t" using assms(1) z by (simp add: proc_setenv_def)
  have same: "proc_get q ?t = proc_get q s" for q
    using assms(1) env_set_read_only [OF assms(2)] assms(3) by simp
  have gt: "proc_getenv pid n True ?t = proc_getenv pid n True s" by (simp only: proc_getenv_def same)
  have s': "proc_setenv pid n value env_Global True s = Inr ?s" using assms(4) z by (simp add: proc_setenv_def)
  have "proc_getenv q n True ?s = Inr value" for q
    using assms(4) map_of_env_set_new [OF assms(5,6)] z by (simp add: proc_getenv_def visible_def)
  then show ?thesis using t gt s' by blast
qed

theorem read_only_env_shadowed_witness:
  "\<exists>s s' :: psys. proc_getenv 1 ''A'' True s = Inr ''x'' \<and> proc_setenv 1 ''A'' ''y'' env_Global True s = Inr s'
     \<and> proc_getenv 1 ''A'' True s' = Inr ''y''"
proof -
  define s where "s = (proc_init 0 0 0)\<lparr>proc_processes := map (\<lambda>(i, e). \<lparr>ppid = i, parent = 0, environment = e,
     pname = [], retval = 0, pfile = None, pagedir = 0, handlecounter = 0, status = st_Running, handles = [],
     child_returns = [], args = [], msg_buffers = [], msg_q = []\<rparr>)
     [(0, []), (1, [(''A'', \<lparr>evalue = ''x'', eflags = env_ReadOnly\<rparr>)])]\<rparr>"
  have a: "to_upper ''A'' = ''A''" by code_simp
  obtain k p where k: "proc_get 0 s = Some k" "environment k = []"
    and p: "proc_get 1 s = Some p" "environment p = [(''A'', \<lparr>evalue = ''x'', eflags = env_ReadOnly\<rparr>)]"
    by (simp add: s_def proc_get_def)
  have "proc_getenv 1 ''A'' True s = Inr ''x''"
    using k p by (simp add: proc_getenv_def a visible_def has_flag_def env_ReadOnly_def env_Private_def)
  moreover have "\<exists>t s'. proc_setenv 1 ''A'' ''y'' 0 True s = Inr t \<and> proc_getenv 1 ''A'' True t = proc_getenv 1 ''A'' True s
     \<and> proc_setenv 1 ''A'' ''y'' env_Global True s = Inr s'
     \<and> (\<forall>q. proc_get q s \<noteq> None \<longrightarrow> proc_getenv q ''A'' True s' = Inr ''y'')"
    by (rule read_only_env_shadowed [OF p(1) _ _ k(1), where v = "\<lparr>evalue = ''x'', eflags = env_ReadOnly\<rparr>"])
      (use k p in \<open>simp_all add: a has_flag_def env_ReadOnly_def\<close>)
  ultimately show ?thesis using p(1) by blast
qed

end
