(* ===== verification/Messaging.thy ===== *)
theory Messaging
  imports Process "HOL-Library.Multiset"
begin

unbundle bit_operations_syntax

text \<open>
  Messages between processes, \<^verbatim>\<open>kernel/messaging.cpp\<close>, with the sending side of
  \<^verbatim>\<open>kernel/process.cpp\<close>. Headers and message contents live in memory and are named by
  address; queues hold addresses of headers, and unused headers are kept in a pool. Every operation
  runs under the message lock and is one atomic step; waiting is \<open>WouldBlock\<close>. Yielding to the
  receiver and the scheduler's note of a thread's message status have no counterpart here.
\<close>

section \<open>State\<close>

definition mf_UserSpace :: u32 where "mf_UserSpace = 1"

definition mf_Reply :: u32 where "mf_Reply = 2"

definition ff_From :: u32 where "ff_From = 1"

definition ff_Reply :: u32 where "ff_Reply = 2"

definition ff_Type :: u32 where "ff_Type = 4"

definition ff_Source :: u32 where "ff_Source = 8"

definition ff_NonReply :: u32 where "ff_NonReply = 16"

definition ff_Invert :: u32 where "ff_Invert = 0x80000000"

definition km_MessageReceipt :: u32 where "km_MessageReceipt = 3"

record bt_msg_header =
  valid :: bool
  mid :: u64
  reply_id :: u64
  mflags :: u32
  source :: u16
  mfrom :: u64
  mto :: u64
  mtype :: u32
  mlength :: u32
  critical :: bool
  recieved :: bool
  replied :: bool
  content :: nat

record bt_msg_filter =
  fflags :: u32
  fpid :: u64
  reply_to :: u64
  ftype :: u32
  fsource :: u32

definition pool_min :: nat where "pool_min = 16"

definition pool_max :: nat where "pool_max = pool_min * 2"

text \<open>
  What a block of message content holds: bytes copied from a sender, or a copy of a header in a
  receipt. Address 0 is the null pointer.
\<close>

datatype block = Bytes "u8 list" | HeaderCopy bt_msg_header

record msys = psys +
  hdrs :: "nat \<Rightarrow> bt_msg_header"
  header_pool :: "nat list"
  next_hdr :: nat
  blocks :: "nat \<Rightarrow> block option"
  next_block :: nat
  id_counter :: u64
  msg_subscribers :: "(pid_t \<times> u32 list) list"

definition malloc_block :: "block \<Rightarrow> msys \<Rightarrow> nat \<times> msys" where
  "malloc_block b s = (next_block s, s\<lparr>blocks := (blocks s)(next_block s := Some b), next_block := Suc (next_block s)\<rparr>)"

definition free_block :: "nat \<Rightarrow> msys \<Rightarrow> msys" where
  "free_block a s = s\<lparr>blocks := (blocks s)(a := None)\<rparr>"

section \<open>The header pool\<close>

definition refill_pool :: "msys \<Rightarrow> msys" where
  "refill_pool s = s\<lparr>header_pool := header_pool s @ [next_hdr s..<next_hdr s + pool_min], next_hdr := next_hdr s + pool_min\<rparr>"

definition copy_msg_header :: "bt_msg_header \<Rightarrow> msys \<Rightarrow> nat \<times> msys" where
  "copy_msg_header h s0 =
     (let s = (if header_pool s0 = [] then refill_pool s0 else s0);
          ret = last (header_pool s)
      in (ret, s\<lparr>header_pool := butlast (header_pool s), hdrs := (hdrs s)(ret := h)\<rparr>))"

definition release_msg_header :: "nat \<Rightarrow> msys \<Rightarrow> msys" where
  "release_msg_header h s =
     (if pool_max \<le> length (header_pool s) then s\<lparr>header_pool := take (Suc pool_min) (header_pool s)\<rparr>
      else s\<lparr>header_pool := header_pool s @ [h]\<rparr>)"

definition msg_init :: "psys \<Rightarrow> (nat \<Rightarrow> bt_msg_header) \<Rightarrow> msys" where
  "msg_init p junk = psys.extend p
     \<lparr>hdrs = junk, header_pool = [1..<Suc pool_min], next_hdr = Suc pool_min, blocks = (\<lambda>_. None), next_block = 1,
      id_counter = 0, msg_subscribers = []\<rparr>"

section \<open>Sending\<close>

definition queue :: "pid_t \<Rightarrow> ('a) psys_scheme \<Rightarrow> nat list" where
  "queue pid s = (case proc_get pid s of None \<Rightarrow> [] | Some p \<Rightarrow> msg_q p)"

text \<open>
  The walks \<^verbatim>\<open>for(i = 0; msg = proc_get_msg(i, pid); ++i)\<close> visit the queue in order.
\<close>

definition find_msg :: "(bt_msg_header \<Rightarrow> bool) \<Rightarrow> pid_t \<Rightarrow> msys \<Rightarrow> nat option" where
  "find_msg P pid s = List.find (\<lambda>a. P (hdrs s a)) (queue pid s)"

definition msg_get :: "u64 \<Rightarrow> pid_t \<Rightarrow> msys \<Rightarrow> bt_msg_header option" where
  "msg_get ident pid s = map_option (hdrs s) (find_msg (\<lambda>h. mid h = ident) pid s)"

definition mark_replied :: "u64 \<Rightarrow> pid_t \<Rightarrow> msys \<Rightarrow> msys" where
  "mark_replied ident pid s =
     s\<lparr>hdrs := (\<lambda>a. if a \<in> set (queue pid s) \<and> mid (hdrs s a) = ident then (hdrs s a)\<lparr>replied := True\<rparr> else hdrs s a)\<rparr>"

definition enqueue_msg :: "bt_msg_header \<Rightarrow> msys \<Rightarrow> u64 \<times> msys" where
  "enqueue_msg msg s =
     (let ident = id_counter s + 1;
          m = msg\<lparr>mid := ident, valid := True, recieved := False, replied := False\<rparr>;
          (ptr, s1) = copy_msg_header m (s\<lparr>id_counter := ident\<rparr>)
      in (ident, proc_add_msg ptr (mto m) s1))"

definition msg_send :: "bt_msg_header \<Rightarrow> msys \<Rightarrow> u64 \<times> msys" where
  "msg_send msg s =
     (if mto msg \<noteq> 0 \<and> proc_get_status (mto msg) s = st_DoesNotExist then (0, s)
      else if mflags msg AND mf_Reply \<noteq> 0 then
        (case msg_get (reply_id msg) (proc_current_pid s) s of
           None \<Rightarrow> (0, s)
         | Some prev \<Rightarrow>
             if mto prev \<noteq> mfrom msg \<or> mfrom prev \<noteq> mto msg then (0, s)
             else if replied prev then (0, s)
             else enqueue_msg msg (mark_replied (mid prev) (mfrom msg) s))
      else enqueue_msg msg s)"

text \<open>
  Sending from user mode. A reply gets a block of its own; any other message goes into the sender's
  buffer for that receiver, of which there is one at a time. The sender waits while that buffer is
  in use. \<open>bytes\<close> are the sender's bytes, as many as the header says.
\<close>

definition proc_send_message :: "bt_msg_header \<Rightarrow> u8 list \<Rightarrow> pid_t \<Rightarrow> msys \<Rightarrow> (u64 \<times> msys) kres" where
  "proc_send_message header bytes pid s =
     (if mflags header AND mf_Reply \<noteq> 0 then
        (case malloc_block (Bytes bytes) s of (a, s1) \<Rightarrow> Inr (msg_send (header\<lparr>content := a\<rparr>) s1))
      else case (proc_get pid s, proc_get (mto header) s) of
             (Some p, Some t) \<Rightarrow>
               if map_has_key (msg_buffers p) (mto header) then Inl WouldBlock
               else (case malloc_block (Bytes bytes) s of (a, s1) \<Rightarrow>
                       Inr (msg_send (header\<lparr>content := a\<rparr>)
                             (upd_proc pid (\<lambda>p. p\<lparr>msg_buffers := map_put (mto header) a (msg_buffers p)\<rparr>) s1)))
           | _ \<Rightarrow> Inr (0, s))"

section \<open>Receiving\<close>

definition set_recieved :: "nat \<Rightarrow> msys \<Rightarrow> msys" where
  "set_recieved a s = s\<lparr>hdrs := (hdrs s)(a := (hdrs s a)\<lparr>recieved := True\<rparr>)\<rparr>"

definition msg_recv :: "pid_t \<Rightarrow> msys \<Rightarrow> (bt_msg_header option) \<times> msys" where
  "msg_recv pid s = (case queue pid s of [] \<Rightarrow> (None, s) | a # _ \<Rightarrow> (Some (hdrs s a), set_recieved a s))"

definition msg_recv_block :: "pid_t \<Rightarrow> msys \<Rightarrow> (bt_msg_header \<times> msys) kres" where
  "msg_recv_block pid s =
     (case msg_recv pid s of (Some h, s') \<Rightarrow> Inr (h, s') | (None, _) \<Rightarrow> Inl WouldBlock)"

definition is_reply_to :: "u64 \<Rightarrow> bt_msg_header \<Rightarrow> bool" where
  "is_reply_to ident h \<longleftrightarrow> mto h = 0 \<and> mflags h AND mf_Reply \<noteq> 0 \<and> reply_id h = ident"

definition msg_recv_reply :: "u64 \<Rightarrow> msys \<Rightarrow> (bt_msg_header option) \<times> msys" where
  "msg_recv_reply ident s =
     (case find_msg (is_reply_to ident) (proc_current_pid s) s of
        None \<Rightarrow> (None, s)
      | Some a \<Rightarrow> (Some (hdrs s a), set_recieved a s))"

definition msg_recv_reply_block :: "u64 \<Rightarrow> msys \<Rightarrow> (bt_msg_header \<times> msys) kres" where
  "msg_recv_reply_block ident s =
     (case msg_recv_reply ident s of (Some h, s') \<Rightarrow> Inr (h, s') | (None, _) \<Rightarrow> Inl WouldBlock)"

definition msg_is_match :: "bt_msg_header \<Rightarrow> bt_msg_filter \<Rightarrow> bool" where
  "msg_is_match msg f =
     (if critical msg then True
      else
        let ret = (\<not> (fflags f AND ff_NonReply \<noteq> 0 \<and> mflags msg AND mf_Reply \<noteq> 0)
                 \<and> \<not> (fflags f AND ff_From \<noteq> 0 \<and> mfrom msg \<noteq> fpid f)
                 \<and> \<not> (fflags f AND ff_Reply \<noteq> 0 \<and> reply_id msg \<noteq> reply_to f)
                 \<and> \<not> (fflags f AND ff_Type \<noteq> 0 \<and> mtype msg \<noteq> ftype f)
                 \<and> \<not> (fflags f AND ff_Source \<noteq> 0 \<and> ucast (source msg) \<noteq> fsource f))
        in if fflags f AND ff_Invert \<noteq> 0 then \<not> ret else ret)"

definition msg_recv_filtered :: "bt_msg_filter \<Rightarrow> pid_t \<Rightarrow> msys \<Rightarrow> bt_msg_header kres" where
  "msg_recv_filtered f pid s =
     (case find_msg (\<lambda>h. mto h = pid \<and> msg_is_match h f) (proc_current_pid s) s of
        Some a \<Rightarrow> Inr (hdrs s a) | None \<Rightarrow> Inl WouldBlock)"

text \<open>
  The receiver of content is not checked: the header the caller passes says whose queue is
  searched. Reading more bytes than the block holds leaves it.
\<close>

fun block_bytes :: "nat \<Rightarrow> block option \<Rightarrow> block kres" where
  "block_bytes n (Some (Bytes bs)) = (if n \<le> length bs then Inr (Bytes (take n bs)) else Inl OutOfBounds)"
| "block_bytes n (Some (HeaderCopy h)) = Inr (HeaderCopy h)"
| "block_bytes n None = Inl OutOfBounds"

definition msg_getcontent :: "bt_msg_header \<Rightarrow> u32 \<Rightarrow> msys \<Rightarrow> (u32 \<times> block option) kres" where
  "msg_getcontent msg buffersize s =
     (case msg_get (mid msg) (mto msg) s of
        None \<Rightarrow> Inr (0, None)
      | Some r \<Rightarrow>
          (let sz = (if buffersize > mlength r then mlength r else buffersize)
           in if sz = 0 then Inr (0, Some (Bytes []))
              else kbind (block_bytes (unat sz) (blocks s (content r))) (\<lambda>b. Inr (sz, Some b))))"

section \<open>Events and acknowledgement\<close>

definition msg_subscribe :: "u32 \<Rightarrow> pid_t \<Rightarrow> msys \<Rightarrow> msys" where
  "msg_subscribe message pid s =
     (let m = msg_subscribers s;
          v = (case map_of m pid of None \<Rightarrow> [] | Some v \<Rightarrow> v)
      in s\<lparr>msg_subscribers := map_put pid (if message \<in> set v then v else v @ [message]) m\<rparr>)"

definition msg_unsubscribe :: "u32 \<Rightarrow> pid_t \<Rightarrow> msys \<Rightarrow> msys" where
  "msg_unsubscribe message pid s =
     (case map_of (msg_subscribers s) pid of
        None \<Rightarrow> s
      | Some v \<Rightarrow> s\<lparr>msg_subscribers := map_put pid (remove1 message v) (msg_subscribers s)\<rparr>)"

text \<open>
  An event goes to every subscriber in turn. The header's length and reply id are not set there:
  \<open>junk\<close> is what it holds before.
\<close>

definition event_header :: "bt_msg_header \<Rightarrow> u32 \<Rightarrow> pid_t \<Rightarrow> nat \<Rightarrow> bt_msg_header" where
  "event_header junk message to a =
     junk\<lparr>mtype := message, mto := to, content := a, source := 0, mfrom := 0, mflags := 0, critical := False\<rparr>"

definition send_event_to :: "bt_msg_header \<Rightarrow> u32 \<Rightarrow> u8 list \<Rightarrow> pid_t \<times> u32 list \<Rightarrow> msys \<Rightarrow> msys" where
  "send_event_to junk message bytes sub s =
     (if message \<in> set (snd sub)
      then (case malloc_block (Bytes bytes) s of (a, s1) \<Rightarrow> snd (msg_send (event_header junk message (fst sub) a) s1))
      else s)"

definition msg_send_event :: "bt_msg_header \<Rightarrow> u32 \<Rightarrow> u8 list \<Rightarrow> msys \<Rightarrow> msys" where
  "msg_send_event junk message bytes s = fold (send_event_to junk message bytes) (msg_subscribers s) s"

definition header_size :: u32 where "header_size = 60"

definition send_receipt_to :: "bt_msg_header \<Rightarrow> bt_msg_header \<Rightarrow> pid_t \<times> u32 list \<Rightarrow> msys \<Rightarrow> msys" where
  "send_receipt_to junk omsg sub s =
     (if fst sub = mfrom omsg \<and> km_MessageReceipt \<in> set (snd sub)
      then (case malloc_block (HeaderCopy (omsg\<lparr>content := 0\<rparr>)) s of (a, s1) \<Rightarrow>
              snd (msg_send ((event_header junk km_MessageReceipt (fst sub) a)\<lparr>mlength := header_size\<rparr>) s1))
      else s)"

definition msg_send_receipt :: "bt_msg_header \<Rightarrow> bt_msg_header \<Rightarrow> msys \<Rightarrow> msys" where
  "msg_send_receipt junk omsg s = fold (send_receipt_to junk omsg) (msg_subscribers s) s"

text \<open>
  Acknowledging removes the message from the queue the caller's header names, returns the header
  to the pool, frees the content and sends a receipt. The result is the caller's header, which is
  overwritten by the queued one.
\<close>

definition free_content :: "bt_msg_header \<Rightarrow> msys \<Rightarrow> msys" where
  "free_content h s =
     (if mflags h AND mf_Reply = 0 \<and> mflags h AND mf_UserSpace \<noteq> 0
      then (case proc_free_message_buffer (mto h) (mfrom h) s of
              (Some a, s1) \<Rightarrow> (if a \<noteq> 0 then free_block a s1 else s1) | (None, s1) \<Rightarrow> s1)
      else free_block (content h) s)"

definition msg_acknowledge :: "bt_msg_header \<Rightarrow> bt_msg_header \<Rightarrow> msys \<Rightarrow> bt_msg_header \<times> msys" where
  "msg_acknowledge junk msg s =
     (case find_msg (\<lambda>h. mid h = mid msg) (mto msg) s of
        None \<Rightarrow> (msg, s)
      | Some a \<Rightarrow>
          (let h = hdrs s a;
               s1 = release_msg_header a (proc_remove_msg a (mto h) s)
           in if content h = 0 then (h, s1)
              else (h, msg_send_receipt junk h (free_content h s1))))"

definition msg_nextmessage :: "bt_msg_header \<Rightarrow> bt_msg_header \<Rightarrow> msys \<Rightarrow> (bt_msg_header \<times> msys) kres" where
  "msg_nextmessage junk msg s = (case msg_acknowledge junk msg s of (_, s1) \<Rightarrow> msg_recv_block (proc_current_pid s1) s1)"

definition msg_nextmessage_filtered ::
  "bt_msg_header \<Rightarrow> bt_msg_filter \<Rightarrow> bt_msg_header \<Rightarrow> msys \<Rightarrow> (bt_msg_header \<times> msys) kres" where
  "msg_nextmessage_filtered junk f msg s =
     (case msg_acknowledge junk msg s of (_, s1) \<Rightarrow>
        kbind (msg_recv_filtered f (proc_current_pid s1) s1) (\<lambda>h. Inr (h, s1)))"

text \<open>
  \<^verbatim>\<open>msg_clear\<close> acknowledges the message at index 0, then, the queue having moved up, the one
  at index 1, and so on. The first argument of the loop bounds its rounds.
\<close>

fun clear_loop :: "nat \<Rightarrow> nat \<Rightarrow> bt_msg_header \<Rightarrow> pid_t \<Rightarrow> msys \<Rightarrow> msys kres" where
  "clear_loop 0 i junk pid s = Inl Diverges"
| "clear_loop (Suc fuel) i junk pid s =
     (case proc_get_msg i pid s of
        None \<Rightarrow> Inr s
      | Some a \<Rightarrow> clear_loop fuel (Suc i) junk pid (snd (msg_acknowledge junk (hdrs s a) s)))"

definition msg_clear :: "bt_msg_header \<Rightarrow> pid_t \<Rightarrow> msys \<Rightarrow> msys kres" where
  "msg_clear junk pid s =
     kbind (clear_loop (Suc (length (queue pid s))) 0 junk pid s)
       (\<lambda>s1. Inr (s1\<lparr>msg_subscribers := map_erase pid (msg_subscribers s1)\<rparr>))"

definition proc_get_msg_by_id :: "u64 \<Rightarrow> msys \<Rightarrow> nat option" where
  "proc_get_msg_by_id ident s =
     fold (\<lambda>p ret. case List.find (\<lambda>a. mid (hdrs s a) = ident) (msg_q p) of Some a \<Rightarrow> Some a | None \<Rightarrow> ret)
       (proc_processes s) None"

definition msg_query_recieved :: "u64 \<Rightarrow> msys \<Rightarrow> bool" where
  "msg_query_recieved ident s \<longleftrightarrow> proc_get_msg_by_id ident s = None"

section \<open>Where headers are\<close>

definition qptrs :: "('a) psys_scheme \<Rightarrow> nat list" where
  "qptrs s = concat (map msg_q (proc_processes s))"

lemma mset_concat_upd:
  "List.find (\<lambda>p. ppid p = pid) ps = Some p \<Longrightarrow>
     mset (concat (map msg_q (upd_first pid f ps))) + mset (msg_q p) = mset (concat (map msg_q ps)) + mset (msg_q (f p))"
  by (induction ps) (auto split: if_splits)

lemma qptrs_upd:
  assumes "proc_get pid s = Some p"
  shows "mset (qptrs (upd_proc pid f s)) + mset (msg_q p) = mset (qptrs s) + mset (msg_q (f p))"
  using mset_concat_upd assms by (simp add: qptrs_def upd_proc_def proc_get_def)

lemma qptrs_upd_other: "(\<And>p. msg_q (f p) = msg_q p) \<Longrightarrow> qptrs (upd_proc pid f s) = qptrs s"
proof -
  assume "\<And>p. msg_q (f p) = msg_q p"
  then have "map msg_q (upd_first pid f ps) = map msg_q ps" for ps by (induction ps) simp_all
  then show ?thesis by (simp add: qptrs_def upd_proc_def)
qed

lemma qptrs_add:
  "proc_get to s = Some p \<Longrightarrow> mset (qptrs (proc_add_msg a to s)) = add_mset a (mset (qptrs s))"
  using qptrs_upd [of to s p "\<lambda>p. p\<lparr>msg_q := msg_q p @ [a]\<rparr>"] by (simp add: proc_add_msg_def)

lemma qptrs_remove:
  assumes "proc_get to s = Some p" and "a \<in> set (msg_q p)"
  shows "add_mset a (mset (qptrs (proc_remove_msg a to s))) = mset (qptrs s)"
proof -
  have "mset (remove1 a (msg_q p)) + {#a#} = mset (msg_q p)" using assms(2) by simp
  then have "mset (qptrs (proc_remove_msg a to s)) + (mset (remove1 a (msg_q p)) + {#a#})
      = mset (qptrs s) + mset (remove1 a (msg_q p))"
    using qptrs_upd [OF assms(1), of "\<lambda>p. p\<lparr>msg_q := remove1 a (msg_q p)\<rparr>"]
    unfolding proc_remove_msg_def by simp
  then show ?thesis by (simp add: add.commute add.left_commute)
qed

lemma queue_in_qptrs: "a \<in> set (queue pid s) \<Longrightarrow> a \<in> set (qptrs s)"
  by (cases "proc_get pid s") (auto simp: queue_def qptrs_def dest!: proc_get_in)

lemma qptrs_queue:
  assumes "procs_ok s"
  shows "a \<in> set (qptrs s) \<longleftrightarrow> (\<exists>pid. a \<in> set (queue pid s))"
proof
  assume "a \<in> set (qptrs s)"
  then obtain p where p: "p \<in> set (proc_processes s)" "a \<in> set (msg_q p)" by (auto simp: qptrs_def)
  have "proc_get (ppid p) s = Some p"
    using find_unique [OF _ p(1)] assms by (simp add: proc_get_def procs_ok_def)
  then show "\<exists>pid. a \<in> set (queue pid s)" using p(2) by (intro exI [of _ "ppid p"]) (simp add: queue_def)
qed (use queue_in_qptrs in blast)

lemma find_in_queue: "find_msg P pid s = Some a \<Longrightarrow> a \<in> set (queue pid s) \<and> P (hdrs s a)"
  unfolding find_msg_def by (metis (mono_tags, lifting) find_Some_iff nth_mem)

section \<open>The invariant\<close>

text \<open>
  Every header is in one queue or in the pool, once; pool and addresses are bounded; a queued
  message is addressed to the owner of the queue and its id was handed out by the counter; no two
  queued messages have the same id.
\<close>

definition msgs_ok :: "msys \<Rightarrow> bool" where
  "msgs_ok s \<longleftrightarrow> procs_ok s \<and> distinct (qptrs s @ header_pool s) \<and> (\<forall>a \<in> set (qptrs s @ header_pool s). a < next_hdr s)
     \<and> length (header_pool s) \<le> pool_max
     \<and> (\<forall>pid a. a \<in> set (queue pid s) \<longrightarrow> mto (hdrs s a) = pid \<and> mid (hdrs s a) \<le> id_counter s)
     \<and> inj_on (\<lambda>a. mid (hdrs s a)) (set (qptrs s))"

lemma msgs_okD:
  assumes "msgs_ok s"
  shows "procs_ok s" and "distinct (qptrs s @ header_pool s)" and "a \<in> set (qptrs s) \<union> set (header_pool s) \<Longrightarrow> a < next_hdr s"
    and "length (header_pool s) \<le> pool_max" and "a \<in> set (queue pid s) \<Longrightarrow> mto (hdrs s a) = pid"
    and "a \<in> set (queue pid s) \<Longrightarrow> mid (hdrs s a) \<le> id_counter s" and "inj_on (\<lambda>a. mid (hdrs s a)) (set (qptrs s))"
  using assms unfolding msgs_ok_def by auto

lemma refill_ok:
  assumes "msgs_ok s" and "header_pool s = []"
  shows "msgs_ok (refill_pool s)"
proof -
  have p: "procs_ok (refill_pool s) = procs_ok s" "qptrs (refill_pool s) = qptrs s" "queue pid (refill_pool s) = queue pid s"
    "hdrs (refill_pool s) = hdrs s" "id_counter (refill_pool s) = id_counter s" for pid
    by (simp_all add: refill_pool_def procs_ok_def proc_get_def qptrs_def queue_def)
  have "a < next_hdr s" if "a \<in> set (qptrs s)" for a using msgs_okD(3) [OF assms(1)] that by blast
  then show ?thesis using assms unfolding msgs_ok_def p
    by (auto simp: refill_pool_def pool_max_def pool_min_def intro: less_trans trans_less_add1)
qed

lemma take_header:
  assumes "msgs_ok s0" and "copy_msg_header h s0 = (a, s)"
  obtains s1 where "msgs_ok s1" and "header_pool s1 \<noteq> []" and "a = last (header_pool s1)"
    and "s = s1\<lparr>header_pool := butlast (header_pool s1), hdrs := (hdrs s1)(a := h)\<rparr>"
    and "proc_processes s1 = proc_processes s0" and "hdrs s1 = hdrs s0" and "id_counter s1 = id_counter s0"
    and "proc_current_pid s1 = proc_current_pid s0" and "msg_subscribers s1 = msg_subscribers s0" and "blocks s1 = blocks s0"
proof -
  let ?s = "if header_pool s0 = [] then refill_pool s0 else s0"
  have "msgs_ok ?s" using assms(1) refill_ok by simp
  moreover have "header_pool ?s \<noteq> []" by (simp add: refill_pool_def pool_min_def)
  ultimately show thesis
    by (rule that) (use assms(2) in \<open>auto simp: copy_msg_header_def Let_def refill_pool_def\<close>)
qed

lemma queue_cong: "proc_processes s' = proc_processes s \<Longrightarrow> queue pid s' = queue pid s"
  by (simp add: queue_def proc_get_def)

lemma queue_add:
  "proc_get to s = Some p \<Longrightarrow> queue pid (proc_add_msg a to s) = (if pid = to then queue pid s @ [a] else queue pid s)"
  by (simp add: queue_def proc_add_msg_def)

lemma queue_remove: "queue pid (proc_remove_msg a to s) = (if pid = to then remove1 a (queue pid s) else queue pid s)"
  by (cases "proc_get to s"; cases "pid = to") (simp_all add: queue_def proc_remove_msg_def)

lemma procs_ok_same:
  "proc_processes s' = proc_processes s \<Longrightarrow> curpid s' = curpid s \<Longrightarrow> proc_current_pid s' = proc_current_pid s \<Longrightarrow>
     procs_ok s' = procs_ok s"
  by (simp add: procs_ok_def proc_get_def)

lemma enqueue_ok:
  assumes ok: "msgs_ok s" and ex: "proc_get (mto msg) s \<noteq> None" and nw: "id_counter s + 1 \<noteq> 0"
    and r: "enqueue_msg msg s = (i, s')"
  shows "msgs_ok s'" and "i = id_counter s + 1" and "i \<noteq> 0"
    and "\<exists>a. a \<notin> set (qptrs s) \<and> (\<forall>pid. queue pid s' = (if pid = mto msg then queue pid s @ [a] else queue pid s))
       \<and> hdrs s' = (hdrs s)(a := msg\<lparr>mid := i, valid := True, recieved := False, replied := False\<rparr>)"
    and "msg_subscribers s' = msg_subscribers s" and "proc_current_pid s' = proc_current_pid s" and "blocks s' = blocks s"
    and "id_counter s' = i"
proof -
  define h where "h = msg\<lparr>mid := id_counter s + 1, valid := True, recieved := False, replied := False\<rparr>"
  define s0 where "s0 = s\<lparr>id_counter := id_counter s + 1\<rparr>"
  have lt: "id_counter s < id_counter s + 1" using nw unatSuc [of "id_counter s"] by (simp add: word_less_nat_alt add.commute)
  have q0: "queue pid s0 = queue pid s" "qptrs s0 = qptrs s" for pid by (simp_all add: s0_def queue_def proc_get_def qptrs_def)
  have f0: "hdrs s0 = hdrs s" "header_pool s0 = header_pool s" "next_hdr s0 = next_hdr s" "id_counter s0 = id_counter s + 1"
    by (simp_all add: s0_def)
  have "procs_ok s0" using msgs_okD(1) [OF ok] by (simp add: s0_def procs_ok_def proc_get_def)
  moreover have "mto (hdrs s a) = pid \<and> mid (hdrs s a) \<le> id_counter s + 1" if "a \<in> set (queue pid s)" for pid a
    using msgs_okD(5,6) [OF ok that] lt by (metis order.trans less_imp_le)
  ultimately have ok0: "msgs_ok s0" using ok unfolding msgs_ok_def q0 f0 by blast
  obtain a s2 where c: "copy_msg_header h s0 = (a, s2)" by (cases "copy_msg_header h s0")
  obtain s1 where s1: "msgs_ok s1" "header_pool s1 \<noteq> []" "a = last (header_pool s1)"
      "s2 = s1\<lparr>header_pool := butlast (header_pool s1), hdrs := (hdrs s1)(a := h)\<rparr>"
      "proc_processes s1 = proc_processes s0" "hdrs s1 = hdrs s0" "id_counter s1 = id_counter s0"
      "proc_current_pid s1 = proc_current_pid s0" "msg_subscribers s1 = msg_subscribers s0" "blocks s1 = blocks s0"
    by (rule take_header [OF ok0 c])
  have s': "s' = proc_add_msg a (mto msg) s2" and i: "i = id_counter s + 1"
    using r c by (simp_all add: enqueue_msg_def Let_def h_def s0_def)
  have pool: "header_pool s1 = butlast (header_pool s1) @ [a]" using s1(2,3) by simp
  have q1: "queue pid s2 = queue pid s" "qptrs s2 = qptrs s" "qptrs s1 = qptrs s" for pid
    using s1(4,5) by (simp_all add: s0_def queue_def proc_get_def qptrs_def)
  have d1: "distinct (qptrs s @ butlast (header_pool s1) @ [a])" using msgs_okD(2) [OF s1(1)] pool q1(3) by metis
  then have fresh: "a \<notin> set (qptrs s)" by auto
  obtain p where p: "proc_get (mto msg) s2 = Some p" using ex s1(4,5) by (auto simp: proc_get_def s0_def)
  have q: "queue pid s' = (if pid = mto msg then queue pid s @ [a] else queue pid s)" for pid
    using queue_add [OF p] q1(1) by (simp add: s')
  have ms: "mset (qptrs s') = add_mset a (mset (qptrs s))" using qptrs_add [OF p] q1(2) by (simp add: s')
  have st: "set (qptrs s') = insert a (set (qptrs s))" using ms by (metis set_mset_add_mset_insert set_mset_mset)
  have fl: "header_pool s' = butlast (header_pool s1)" "hdrs s' = (hdrs s)(a := h)" "id_counter s' = i"
      "next_hdr s' = next_hdr s1" "msg_subscribers s' = msg_subscribers s" "proc_current_pid s' = proc_current_pid s"
      "blocks s' = blocks s"
    using s1 by (simp_all add: s' proc_add_msg_def upd_proc_def i s0_def)
  have "mset (qptrs s' @ header_pool s') = mset (qptrs s @ butlast (header_pool s1) @ [a])" using ms by (simp add: fl)
  then have dist: "distinct (qptrs s' @ header_pool s')" using d1 mset_eq_imp_distinct_iff by blast
  have hs: "hdrs s' b = hdrs s b" if "b \<in> set (qptrs s)" for b using fresh that by (auto simp: fl)
  have bound: "b < next_hdr s'" if "b \<in> set (qptrs s' @ header_pool s')" for b
  proof -
    have "b \<in> set (qptrs s1) \<union> set (header_pool s1)"
      using that st pool q1(3) s1(2,3) by (auto simp: fl dest: in_set_butlastD)
    then show ?thesis using msgs_okD(3) [OF s1(1)] by (simp add: fl)
  qed
  have old: "mto (hdrs s b) = pid \<and> mid (hdrs s b) \<le> id_counter s" if "b \<in> set (queue pid s)" for pid b
    using msgs_okD(5,6) [OF ok that] by simp
  have each: "mto (hdrs s' b) = pid \<and> mid (hdrs s' b) \<le> i" if "b \<in> set (queue pid s')" for pid b
  proof (cases "b = a")
    case True
    have "a \<notin> set (queue pid s)" using fresh queue_in_qptrs by blast
    then have "pid = mto msg" using that q True by (simp split: if_splits)
    then show ?thesis using True by (simp add: fl h_def i)
  next
    case False
    then have b: "b \<in> set (queue pid s)" using that q by (simp split: if_splits)
    have "mid (hdrs s b) \<le> i" using old [OF b] lt i by (metis order.trans less_imp_le)
    then show ?thesis using old [OF b] False by (simp add: fl)
  qed
  have less: "mid (hdrs s b) \<noteq> i" if "b \<in> set (qptrs s)" for b
    using that qptrs_queue [OF msgs_okD(1) [OF ok]] old lt i by (metis leD)
  have inj: "inj_on (\<lambda>b. mid (hdrs s' b)) (set (qptrs s'))"
  proof (unfold st, rule inj_on_insert [THEN iffD2], intro conjI)
    show "inj_on (\<lambda>b. mid (hdrs s' b)) (set (qptrs s))"
      using msgs_okD(7) [OF ok] hs by (simp add: inj_on_def)
    have "mid (hdrs s' a) = i" by (simp add: fl h_def i)
    moreover have "mid (hdrs s' b) \<noteq> i" if "b \<in> set (qptrs s) - {a}" for b using less hs that by simp
    ultimately show "mid (hdrs s' a) \<notin> (\<lambda>b. mid (hdrs s' b)) ` (set (qptrs s) - {a})" by fastforce
  qed
  have "procs_ok s2" using msgs_okD(1) [OF s1(1)] by (simp add: s1(4) procs_ok_def proc_get_def)
  then have pok: "procs_ok s'" unfolding s' proc_add_msg_def by (rule procs_ok_upd) (simp_all add: proc_ok_def)
  have len: "length (header_pool s') \<le> pool_max" using msgs_okD(4) [OF s1(1)] by (simp add: fl)
  show "msgs_ok s'" unfolding msgs_ok_def fl(3) using pok dist bound len each inj by blast
  show "i = id_counter s + 1" "i \<noteq> 0" using i nw by simp_all
  show "\<exists>a. a \<notin> set (qptrs s) \<and> (\<forall>pid. queue pid s' = (if pid = mto msg then queue pid s @ [a] else queue pid s))
     \<and> hdrs s' = (hdrs s)(a := msg\<lparr>mid := i, valid := True, recieved := False, replied := False\<rparr>)"
    using fresh q fl(2) unfolding h_def i by blast
  show "msg_subscribers s' = msg_subscribers s" "proc_current_pid s' = proc_current_pid s" "blocks s' = blocks s" "id_counter s' = i"
    by (simp_all add: fl)
qed

section \<open>Operations keep the invariant\<close>

definition room :: "nat \<Rightarrow> msys \<Rightarrow> bool" where
  "room n s \<longleftrightarrow> unat (id_counter s) + n < 2 ^ 64"

lemma room_Suc: "room (Suc n) s \<Longrightarrow> id_counter s + 1 \<noteq> 0"
proof -
  assume "room (Suc n) s"
  then have "unat (id_counter s) \<noteq> 2 ^ 64 - 1" by (simp add: room_def)
  moreover have "unat (- 1 :: u64) = 2 ^ 64 - 1" by (simp add: unsigned_minus_1_eq_mask mask_eq_exp_minus_1)
  ultimately have "id_counter s \<noteq> - 1" by metis
  then show ?thesis by (metis add_eq_0_iff add.commute)
qed

lemma msgs_ok_cong:
  assumes "proc_processes s' = proc_processes s" and "curpid s' = curpid s" and "proc_current_pid s' = proc_current_pid s"
    and "\<forall>a. mid (hdrs s' a) = mid (hdrs s a) \<and> mto (hdrs s' a) = mto (hdrs s a)" and "header_pool s' = header_pool s"
    and "next_hdr s' = next_hdr s" and "id_counter s' = id_counter s"
  shows "msgs_ok s' = msgs_ok s"
proof -
  have "procs_ok s' = procs_ok s" "qptrs s' = qptrs s" "queue pid s' = queue pid s" for pid
    using assms(1-3) by (simp_all add: procs_ok_def proc_get_def qptrs_def queue_def)
  then show ?thesis using assms(4-7) by (simp add: msgs_ok_def)
qed

lemma queue_upd_other: "(\<And>p. msg_q (f p) = msg_q p) \<Longrightarrow> (\<And>p. ppid (f p) = ppid p) \<Longrightarrow> queue q (upd_proc pid f s) = queue q s"
  by (cases "proc_get pid s"; cases "q = pid") (simp_all add: queue_def)

lemma msgs_ok_upd:
  assumes "msgs_ok s" and "\<And>p. msg_q (f p) = msg_q p" and "\<And>p. ppid (f p) = ppid p"
    and "\<And>p. proc_ok p \<Longrightarrow> proc_ok (f p)"
  shows "msgs_ok (upd_proc pid f s)"
proof -
  have p: "procs_ok (upd_proc pid f s)" by (rule procs_ok_upd) (use assms msgs_okD(1) in auto)
  have f: "hdrs (upd_proc pid f s) = hdrs s" "header_pool (upd_proc pid f s) = header_pool s"
    "next_hdr (upd_proc pid f s) = next_hdr s" "id_counter (upd_proc pid f s) = id_counter s"
    by (simp_all add: upd_proc_def)
  show ?thesis
    using assms(1) p unfolding msgs_ok_def f qptrs_upd_other [OF assms(2)] queue_upd_other [OF assms(2,3)] by blast
qed

lemma malloc_ok: "malloc_block b s = (a, s') \<Longrightarrow> msgs_ok s' = msgs_ok s \<and> id_counter s' = id_counter s
    \<and> msg_subscribers s' = msg_subscribers s \<and> proc_processes s' = proc_processes s \<and> proc_current_pid s' = proc_current_pid s"
  by (intro conjI msgs_ok_cong) (auto simp: malloc_block_def)

lemma mark_replied_ok: "msgs_ok (mark_replied i pid s) = msgs_ok s"
  by (rule msgs_ok_cong) (simp_all add: mark_replied_def)

lemma set_recieved_ok: "msgs_ok (set_recieved a s) = msgs_ok s"
  by (rule msgs_ok_cong) (simp_all add: set_recieved_def)

lemma msg_send_ok:
  assumes "msgs_ok s" and "room (Suc n) s" and "msg_send msg s = (i, s')"
  shows "msgs_ok s'" and "room n s'" and "msg_subscribers s' = msg_subscribers s" and "proc_current_pid s' = proc_current_pid s"
proof -
  consider "s' = s" | t where "enqueue_msg msg t = (i, s')" "msgs_ok t" "id_counter t = id_counter s"
      "proc_get (mto msg) t \<noteq> None" "msg_subscribers t = msg_subscribers s" "proc_current_pid t = proc_current_pid s"
  proof (cases "mto msg \<noteq> 0 \<and> proc_get_status (mto msg) s = st_DoesNotExist")
    case True
    then show ?thesis using assms(3) that(1) by (simp add: msg_send_def)
  next
    case False
    then have ex: "proc_get (mto msg) s \<noteq> None"
      using msgs_okD(1) [OF assms(1)]
      by (cases "proc_get (mto msg) s") (auto simp: procs_ok_def proc_get_status_def)
    show ?thesis
    proof (cases "mflags msg AND mf_Reply = 0")
      case True
      then have "enqueue_msg msg s = (i, s')" using assms(3) False by (simp add: msg_send_def)
      then show ?thesis using that(2) assms(1) ex by blast
    next
      case rep: False
      show ?thesis
      proof (cases "msg_get (reply_id msg) (proc_current_pid s) s")
        case None
        then show ?thesis using assms(3) False rep that(1) by (simp add: msg_send_def)
      next
        case (Some prev)
        let ?t = "mark_replied (mid prev) (mfrom msg) s"
        have "s' = s \<or> enqueue_msg msg ?t = (i, s')"
          using assms(3) False rep Some by (auto simp: msg_send_def split: if_splits)
        moreover have "proc_get (mto msg) ?t \<noteq> None" using ex by (simp add: mark_replied_def proc_get_def)
        moreover have "msgs_ok ?t" using assms(1) mark_replied_ok by simp
        ultimately show ?thesis using that by (auto simp: mark_replied_def)
      qed
    qed
  qed
  then have "msgs_ok s' \<and> room n s' \<and> msg_subscribers s' = msg_subscribers s \<and> proc_current_pid s' = proc_current_pid s"
  proof cases
    case 1
    then show ?thesis using assms(1,2) by (simp add: room_def)
  next
    case (2 t)
    have nw: "id_counter t + 1 \<noteq> 0" using room_Suc [OF assms(2)] 2(3) by simp
    note e = enqueue_ok [OF 2(2,4) nw 2(1)]
    have "unat (id_counter s') = Suc (unat (id_counter s))"
      using e(2,8) 2(3) nw unatSuc [of "id_counter t"] by (simp add: add.commute)
    then show ?thesis using e assms(2) 2 by (simp add: room_def)
  qed
  then show "msgs_ok s'" and "room n s'" and "msg_subscribers s' = msg_subscribers s" and "proc_current_pid s' = proc_current_pid s"
    by blast+
qed

lemma fold_send_ok:
  assumes "\<And>sub t n. msgs_ok t \<Longrightarrow> room (Suc n) t \<Longrightarrow> msgs_ok (f sub t) \<and> room n (f sub t)"
  shows "msgs_ok s \<Longrightarrow> room (length subs + n) s \<Longrightarrow> msgs_ok (fold f subs s) \<and> room n (fold f subs s)"
proof (induction subs arbitrary: s)
  case (Cons sub subs)
  then show ?case using assms [of s "length subs + n" sub] by simp
qed simp

lemma room_mono: "room (Suc n) s \<Longrightarrow> room n s"
  by (simp add: room_def)

lemma send_event_ok:
  "msgs_ok s \<Longrightarrow> room (Suc n) s \<Longrightarrow> msgs_ok (send_event_to junk e bs sub s) \<and> room n (send_event_to junk e bs sub s)"
proof -
  assume ok: "msgs_ok s" and rm: "room (Suc n) s"
  obtain a t where m: "malloc_block (Bytes bs) s = (a, t)" by (cases "malloc_block (Bytes bs) s")
  have t: "msgs_ok t" "room (Suc n) t" using malloc_ok [OF m] ok rm by (simp_all add: room_def)
  have "msgs_ok (snd (msg_send x t)) \<and> room n (snd (msg_send x t))" for x
    using msg_send_ok [OF t] by (cases "msg_send x t") simp
  then show ?thesis using m ok room_mono [OF rm] by (simp add: send_event_to_def)
qed

lemma send_receipt_ok:
  "msgs_ok s \<Longrightarrow> room (Suc n) s \<Longrightarrow> msgs_ok (send_receipt_to junk h sub s) \<and> room n (send_receipt_to junk h sub s)"
proof -
  assume ok: "msgs_ok s" and rm: "room (Suc n) s"
  let ?b = "HeaderCopy (h\<lparr>content := 0\<rparr>)"
  obtain a t where m: "malloc_block ?b s = (a, t)" by (cases "malloc_block ?b s")
  have t: "msgs_ok t" "room (Suc n) t" using malloc_ok [OF m] ok rm by (simp_all add: room_def)
  have "msgs_ok (snd (msg_send x t)) \<and> room n (snd (msg_send x t))" for x
    using msg_send_ok [OF t] by (cases "msg_send x t") simp
  then show ?thesis using m ok room_mono [OF rm] by (simp add: send_receipt_to_def)
qed

text \<open>Taking a queued message out and returning its header to the pool.\<close>

lemma remove_release_ok:
  assumes ok: "msgs_ok s" and a: "a \<in> set (queue pid s)"
  defines "s1 \<equiv> release_msg_header a (proc_remove_msg a pid s)"
  shows "msgs_ok s1" and "queue q s1 = (if q = pid then remove1 a (queue q s) else queue q s)"
    and "hdrs s1 = hdrs s" and "id_counter s1 = id_counter s" and "msg_subscribers s1 = msg_subscribers s"
    and "blocks s1 = blocks s" and "proc_current_pid s1 = proc_current_pid s"
proof -
  obtain p where p: "proc_get pid s = Some p" "a \<in> set (msg_q p)"
    using a by (cases "proc_get pid s") (simp_all add: queue_def)
  define s0 where "s0 = proc_remove_msg a pid s"
  have f0: "hdrs s0 = hdrs s" "header_pool s0 = header_pool s" "next_hdr s0 = next_hdr s" "id_counter s0 = id_counter s"
    "msg_subscribers s0 = msg_subscribers s" "blocks s0 = blocks s" "proc_current_pid s0 = proc_current_pid s"
    by (simp_all add: s0_def proc_remove_msg_def upd_proc_def)
  have f1: "hdrs s1 = hdrs s0" "next_hdr s1 = next_hdr s0" "id_counter s1 = id_counter s0" "msg_subscribers s1 = msg_subscribers s0"
    "blocks s1 = blocks s0" "proc_current_pid s1 = proc_current_pid s0" "proc_processes s1 = proc_processes s0" "curpid s1 = curpid s0"
    by (simp_all add: s1_def s0_def release_msg_header_def)
  have q0: "queue q s1 = queue q s0" "qptrs s1 = qptrs s0" for q using f1(7) by (simp_all add: queue_def proc_get_def qptrs_def)
  show q: "queue q s1 = (if q = pid then remove1 a (queue q s) else queue q s)" for q
    unfolding q0 s0_def by (rule queue_remove)
  have ms: "add_mset a (mset (qptrs s0)) = mset (qptrs s)" unfolding s0_def by (rule qptrs_remove [OF p])
  have sub: "set (queue q s1) \<subseteq> set (queue q s)" for q using q [of q] by (auto dest: set_remove1_subset [THEN subsetD])
  have qs: "set (qptrs s0) \<subseteq> set (qptrs s)" using ms by (metis set_mset_mset subset_insertI set_mset_add_mset_insert)
  have full: "distinct (a # qptrs s0 @ header_pool s)"
  proof -
    have "mset (a # qptrs s0 @ header_pool s) = mset (qptrs s @ header_pool s)" using ms by simp
    then show ?thesis using msgs_okD(2) [OF ok] mset_eq_imp_distinct_iff by blast
  qed
  have aq: "a \<in> set (qptrs s)" by (rule queue_in_qptrs [OF a])
  have pl: "set (header_pool s1) \<subseteq> insert a (set (header_pool s))"
    by (auto simp: s1_def s0_def [symmetric] release_msg_header_def f0 dest: in_set_takeD)
  have dist: "distinct (qptrs s1 @ header_pool s1)"
  proof (cases "pool_max \<le> length (header_pool s)")
    case True
    then have "header_pool s1 = take (Suc pool_min) (header_pool s)" by (simp add: s1_def s0_def [symmetric] release_msg_header_def f0)
    then show ?thesis using full q0(2) by (auto dest: in_set_takeD)
  next
    case False
    then have "header_pool s1 = header_pool s @ [a]" by (simp add: s1_def s0_def [symmetric] release_msg_header_def f0)
    then show ?thesis using full q0(2) by auto
  qed
  have len: "length (header_pool s1) \<le> pool_max"
    by (simp add: s1_def s0_def [symmetric] release_msg_header_def f0 pool_max_def pool_min_def)
  have bound: "b < next_hdr s1" if "b \<in> set (qptrs s1 @ header_pool s1)" for b
  proof -
    have "b \<in> set (qptrs s) \<union> set (header_pool s)" using that q0(2) qs pl aq by auto
    then show ?thesis using msgs_okD(3) [OF ok] f1(2) f0(3) by simp
  qed
  have "procs_ok s0" unfolding s0_def proc_remove_msg_def
    by (rule procs_ok_upd) (use msgs_okD(1) [OF ok] in \<open>simp_all add: proc_ok_def\<close>)
  then have pok: "procs_ok s1" using procs_ok_same [OF f1(7,8,6)] by simp
  have inj: "inj_on (\<lambda>a. mid (hdrs s a)) (set (qptrs s1))" using msgs_okD(7) [OF ok] qs q0(2) by (metis inj_on_subset)
  have each: "mto (hdrs s b) = q \<and> mid (hdrs s b) \<le> id_counter s" if "b \<in> set (queue q s1)" for q b
    using msgs_okD(5,6) [OF ok] sub that by blast
  show "hdrs s1 = hdrs s" "id_counter s1 = id_counter s" "msg_subscribers s1 = msg_subscribers s" "blocks s1 = blocks s"
    "proc_current_pid s1 = proc_current_pid s" using f0 f1 by simp_all
  then show "msgs_ok s1" unfolding msgs_ok_def using pok dist bound len each inj by metis
qed

lemma free_block_ok: "msgs_ok (free_block a s) = msgs_ok s"
  by (rule msgs_ok_cong) (simp_all add: free_block_def)

lemma free_buffer_ok:
  assumes "msgs_ok s" and "proc_free_message_buffer t pid s = (r, s')"
  shows "msgs_ok s'" and "id_counter s' = id_counter s" and "msg_subscribers s' = msg_subscribers s"
    and "hdrs s' = hdrs s" and "queue q s' = queue q s" and "proc_current_pid s' = proc_current_pid s"
proof -
  let ?f = "\<lambda>p. p\<lparr>msg_buffers := map_erase t (msg_buffers p)\<rparr>"
  have "s' = s \<or> s' = upd_proc pid ?f s"
    using assms(2) by (cases "proc_get pid s") (auto simp: proc_free_message_buffer_def)
  moreover have "msgs_ok (upd_proc pid ?f s)"
    by (rule msgs_ok_upd [OF assms(1)]) (simp_all add: proc_ok_def distinct_put_erase)
  moreover have "queue q (upd_proc pid ?f s) = queue q s" by (rule queue_upd_other) simp_all
  ultimately show "msgs_ok s'" and "id_counter s' = id_counter s" and "msg_subscribers s' = msg_subscribers s"
    and "hdrs s' = hdrs s" and "queue q s' = queue q s" and "proc_current_pid s' = proc_current_pid s"
    using assms(1) by (auto simp: upd_proc_def)
qed

lemma free_content_ok:
  assumes "msgs_ok s"
  shows "msgs_ok (free_content h s)" and "id_counter (free_content h s) = id_counter s"
    and "msg_subscribers (free_content h s) = msg_subscribers s" and "hdrs (free_content h s) = hdrs s"
    and "queue q (free_content h s) = queue q s"
proof -
  obtain r s1 where f: "proc_free_message_buffer (mto h) (mfrom h) s = (r, s1)" by fastforce
  note fb = free_buffer_ok [OF assms f]
  have q: "queue q (free_block a t) = queue q t" for a t q by (rule queue_cong) (simp add: free_block_def)
  have e: "id_counter (free_block a t) = id_counter t" "msg_subscribers (free_block a t) = msg_subscribers t"
    "hdrs (free_block a t) = hdrs t" for a t by (simp_all add: free_block_def)
  show "msgs_ok (free_content h s)" and "id_counter (free_content h s) = id_counter s"
    and "msg_subscribers (free_content h s) = msg_subscribers s" and "hdrs (free_content h s) = hdrs s"
    and "queue q (free_content h s) = queue q s"
    using assms fb by (cases r; simp add: free_content_def f free_block_ok q e)+
qed

lemma msg_acknowledge_ok:
  assumes ok: "msgs_ok s" and rm: "room (length (msg_subscribers s)) s"
  shows "msgs_ok (snd (msg_acknowledge junk msg s))"
proof (cases "find_msg (\<lambda>h. mid h = mid msg) (mto msg) s")
  case None
  then show ?thesis using ok by (simp add: msg_acknowledge_def)
next
  case (Some a)
  have a: "a \<in> set (queue (mto msg) s)" using find_in_queue [OF Some] by simp
  have to: "mto (hdrs s a) = mto msg" by (rule msgs_okD(5) [OF ok a])
  let ?s1 = "release_msg_header a (proc_remove_msg a (mto msg) s)"
  note r = remove_release_ok [OF ok a]
  let ?s2 = "free_content (hdrs s a) ?s1"
  note f = free_content_ok [OF r(1), where h = "hdrs s a"]
  have "msgs_ok (msg_send_receipt junk (hdrs s a) ?s2)"
    unfolding msg_send_receipt_def
    using fold_send_ok [of "send_receipt_to junk (hdrs s a)" ?s2 "msg_subscribers ?s2" 0] send_receipt_ok f r rm
    by (simp add: room_def)
  then show ?thesis using Some r(1) by (simp add: msg_acknowledge_def to Let_def)
qed

lemma msgs_ok_new:
  assumes ok: "msgs_ok s" and nw: "curpid s + 1 \<noteq> 0" and r: "proc_new name argv pp fl dir junk s = Inr (pid, s')"
  shows "msgs_ok s'"
proof -
  note n = procs_ok_new [OF msgs_okD(1) [OF ok] nw r]
  obtain p where s': "s' = s\<lparr>curpid := curpid s + 1, proc_processes := proc_processes s @ [p]\<rparr>" "msg_q p = []" "ppid p = curpid s + 1"
    using r by (auto simp: proc_new_def Let_def split: option.splits)
  have q: "qptrs s' = qptrs s" by (simp add: qptrs_def s')
  have find: "List.find P (xs @ [p]) = (case List.find P xs of None \<Rightarrow> (if P p then Some p else None) | Some x \<Rightarrow> Some x)"
    for P and xs :: "proc_process list" by (induction xs) simp_all
  have "queue x s' = queue x s" for x
    unfolding queue_def proc_get_def s'(1)
    by (cases "List.find (\<lambda>p. ppid p = x) (proc_processes s)") (simp_all add: find s')
  moreover have "hdrs s' = hdrs s" "header_pool s' = header_pool s" "next_hdr s' = next_hdr s" "id_counter s' = id_counter s"
    by (simp_all add: s')
  ultimately show ?thesis using ok n(1) q by (simp add: msgs_ok_def)
qed

lemma proc_send_ok:
  assumes ok: "msgs_ok s" and rm: "room 1 s" and r: "proc_send_message h bs pid s = Inr (i, s')"
  shows "msgs_ok s'"
proof -
  obtain a s1 where m: "malloc_block (Bytes bs) s = (a, s1)" by fastforce
  have s1: "msgs_ok s1" "room (Suc 0) s1" using malloc_ok [OF m] ok rm by (simp_all add: room_def)
  let ?u = "upd_proc pid (\<lambda>p. p\<lparr>msg_buffers := map_put (mto h) a (msg_buffers p)\<rparr>) s1"
  have u: "msgs_ok ?u" "room (Suc 0) ?u"
    using msgs_ok_upd [OF s1(1), of "\<lambda>p. p\<lparr>msg_buffers := map_put (mto h) a (msg_buffers p)\<rparr>"] s1(2)
    by (simp_all add: proc_ok_def distinct_put_erase room_def) (simp add: upd_proc_def)
  have "s' = s \<or> (\<exists>x. msg_send x s1 = (i, s')) \<or> (\<exists>x. msg_send x ?u = (i, s'))"
    using r m by (auto simp: proc_send_message_def split: if_splits option.splits)
  then show ?thesis using ok msg_send_ok(1) [OF s1] msg_send_ok(1) [OF u] by blast
qed

text \<open>
  One step of the message system. Message ids and pids come from 64-bit counters, which are taken
  not to have wrapped.
\<close>

inductive mstep :: "msys \<Rightarrow> msys \<Rightarrow> bool" where
  m_send: "room 1 s \<Longrightarrow> msg_send msg s = (i, s') \<Longrightarrow> mstep s s'"
| m_proc_send: "room 1 s \<Longrightarrow> proc_send_message h bs pid s = Inr (i, s') \<Longrightarrow> mstep s s'"
| m_recv: "msg_recv pid s = (r, s') \<Longrightarrow> mstep s s'"
| m_recv_reply: "msg_recv_reply i s = (r, s') \<Longrightarrow> mstep s s'"
| m_ack: "room (length (msg_subscribers s)) s \<Longrightarrow> msg_acknowledge junk msg s = (r, s') \<Longrightarrow> mstep s s'"
| m_subscribe: "mstep s (msg_subscribe e pid s)"
| m_unsubscribe: "mstep s (msg_unsubscribe e pid s)"
| m_event: "room (length (msg_subscribers s)) s \<Longrightarrow> mstep s (msg_send_event junk e bs s)"
| m_new: "curpid s + 1 \<noteq> 0 \<Longrightarrow> proc_new name argv pp fl dir jr s = Inr (pid, s') \<Longrightarrow> mstep s s'"

inductive mreach :: "msys \<Rightarrow> bool" where
  m_init: "mreach (msg_init (proc_init dir r c) junk)"
| m_step: "mreach s \<Longrightarrow> mstep s s' \<Longrightarrow> mreach s'"

lemma msgs_ok_init: "msgs_ok (msg_init (proc_init dir r c) junk)"
proof -
  have p: "proc_processes (msg_init (proc_init dir r c) junk) = proc_processes (proc_init dir r c)"
    "curpid (msg_init (proc_init dir r c) junk) = curpid (proc_init dir r c)"
    "proc_current_pid (msg_init (proc_init dir r c) junk) = proc_current_pid (proc_init dir r c)"
    by (simp_all add: msg_init_def psys.defs)
  have "procs_ok (msg_init (proc_init dir r c) junk)"
    using procs_ok_init [of dir r c] p by (simp add: procs_ok_def proc_get_def)
  moreover have "qptrs (msg_init (proc_init dir r c) junk) = []" "queue pid (msg_init (proc_init dir r c) junk) = []" for pid
    by (simp_all add: qptrs_def queue_def proc_get_def p) (simp_all add: proc_init_def)
  ultimately show ?thesis by (simp add: msgs_ok_def) (auto simp: msg_init_def psys.defs pool_max_def pool_min_def)
qed

lemma mstep_ok: "mstep s s' \<Longrightarrow> msgs_ok s \<Longrightarrow> msgs_ok s'"
proof (induction rule: mstep.induct)
  case (m_send s msg i s')
  then show ?case using msg_send_ok(1) [of s 0 msg i s'] by simp
next
  case (m_proc_send s h bs pid i s')
  then show ?case using proc_send_ok by blast
next
  case (m_recv pid s r s')
  then show ?case by (auto simp: msg_recv_def set_recieved_ok split: list.splits)
next
  case (m_recv_reply i s r s')
  then show ?case by (auto simp: msg_recv_reply_def set_recieved_ok split: option.splits)
next
  case (m_ack s junk msg r s')
  then show ?case using msg_acknowledge_ok [of s junk msg] by simp
next
  case (m_subscribe s e pid)
  have "msgs_ok (msg_subscribe e pid s) = msgs_ok s" by (rule msgs_ok_cong) (simp_all add: msg_subscribe_def Let_def)
  with m_subscribe show ?case by simp
next
  case (m_unsubscribe s e pid)
  have "msgs_ok (msg_unsubscribe e pid s) = msgs_ok s"
    by (rule msgs_ok_cong) (simp_all add: msg_unsubscribe_def split: option.splits)
  with m_unsubscribe show ?case by simp
next
  case (m_event s junk e bs)
  then show ?case
    using fold_send_ok [of "send_event_to junk e bs" s "msg_subscribers s" 0] send_event_ok
    by (simp add: msg_send_event_def)
next
  case (m_new s name argv pp fl dir jr pid s')
  then show ?case using msgs_ok_new by blast
qed

lemma mreach_ok: "mreach s \<Longrightarrow> msgs_ok s"
  by (induction rule: mreach.induct) (use msgs_ok_init mstep_ok in blast)+

section \<open>Properties\<close>

definition messages :: "pid_t \<Rightarrow> msys \<Rightarrow> bt_msg_header list" where
  "messages pid s = map (hdrs s) (queue pid s)"

definition stamped :: "u64 \<Rightarrow> bt_msg_header \<Rightarrow> bt_msg_header" where
  "stamped i msg = msg\<lparr>mid := i, valid := True, recieved := False, replied := False\<rparr>"

lemma enqueue_messages:
  assumes "msgs_ok s" and "proc_get (mto msg) s \<noteq> None" and "id_counter s + 1 \<noteq> 0" and "enqueue_msg msg s = (i, s')"
  shows "messages pid s' = (if pid = mto msg then messages pid s @ [stamped i msg] else messages pid s)"
proof -
  obtain a where a: "a \<notin> set (qptrs s)" "\<forall>pid. queue pid s' = (if pid = mto msg then queue pid s @ [a] else queue pid s)"
    "hdrs s' = (hdrs s)(a := stamped i msg)"
    using enqueue_ok(4) [OF assms] unfolding stamped_def by blast
  have "map (hdrs s') (queue pid s) = map (hdrs s) (queue pid s)"
    using a(1,3) queue_in_qptrs [of _ pid s] by (auto simp: map_eq_conv)
  then show ?thesis using a(2,3) by (simp add: messages_def)
qed


definition blank_header :: bt_msg_header where
  "blank_header = \<lparr>valid = False, mid = 0, reply_id = 0, mflags = 0, source = 0, mfrom = 0, mto = 0, mtype = 0,
     mlength = 0, critical = False, recieved = False, replied = False, content = 0\<rparr>"

definition boot_msgs :: msys where
  "boot_msgs = msg_init (proc_init 0 0 0) (\<lambda>_. blank_header)"

lemma boot_msgs_facts: "msgs_ok boot_msgs" "id_counter boot_msgs = 0" "queue pid boot_msgs = []" "proc_get 0 boot_msgs \<noteq> None"
  "proc_current_pid boot_msgs = 0" "msg_subscribers boot_msgs = []" "room n boot_msgs = (n < 2 ^ 64)"
  using msgs_ok_init [of 0 0 0 "\<lambda>_. blank_header"]
  by (simp_all add: boot_msgs_def [symmetric]) (simp_all add: boot_msgs_def msg_init_def psys.defs queue_def proc_get_def proc_init_def room_def)

lemma boot_send:
  obtains s where "msg_send blank_header boot_msgs = (1, s)" and "msgs_ok s" and "messages 0 s = [stamped 1 blank_header]"
proof -
  obtain i s where e: "enqueue_msg blank_header boot_msgs = (i, s)" by fastforce
  have z: "mto blank_header = 0" "mflags blank_header = 0" by (simp_all add: blank_header_def)
  have nw: "id_counter boot_msgs + 1 \<noteq> 0" by (simp add: boot_msgs_facts)
  have ex: "proc_get (mto blank_header) boot_msgs \<noteq> None" using boot_msgs_facts(4) by (simp add: z)
  note eo = enqueue_ok [OF boot_msgs_facts(1) ex nw e]
  have "i = 1" using eo(2) by (simp add: boot_msgs_facts)
  moreover have "messages 0 s = [stamped i blank_header]"
    using enqueue_messages [OF boot_msgs_facts(1) ex nw e, of 0] by (simp add: z messages_def boot_msgs_facts)
  ultimately show thesis using that [of s] e eo(1) z by (simp add: msg_send_def)
qed


text \<open>
  (C21) Queues are first in, first out. A message that is not a reply, sent to an existing process,
  is given the next id and added at the end of the receiver's queue, all other queues and queued
  messages staying as they are; \<^verbatim>\<open>msg_recv\<close> returns the oldest message of a queue and leaves
  it there.
\<close>

theorem messages_fifo:
  assumes "msgs_ok s" and "room 1 s" and "mflags msg AND mf_Reply = 0" and "proc_get (mto msg) s = Some p"
    and "status p \<noteq> st_DoesNotExist"
  shows "\<exists>s'. msg_send msg s = (id_counter s + 1, s') \<and> msgs_ok s'
     \<and> (\<forall>pid. messages pid s' = (if pid = mto msg then messages pid s @ [stamped (id_counter s + 1) msg] else messages pid s))
     \<and> fst (msg_recv (mto msg) s') = Some (hd (messages (mto msg) s @ [stamped (id_counter s + 1) msg]))
     \<and> (\<forall>pid. queue pid (snd (msg_recv (mto msg) s')) = queue pid s')"
proof -
  have nw: "id_counter s + 1 \<noteq> 0" using room_Suc [of 0 s] assms(2) by simp
  obtain i s' where e: "enqueue_msg msg s = (i, s')" by fastforce
  have ex: "proc_get (mto msg) s \<noteq> None" using assms(4) by simp
  note eo = enqueue_ok [OF assms(1) ex nw e]
  have send: "msg_send msg s = (i, s')" using e assms(3-5) by (simp add: msg_send_def proc_get_status_def)
  have ms: "messages pid s' = (if pid = mto msg then messages pid s @ [stamped i msg] else messages pid s)" for pid
    by (rule enqueue_messages [OF assms(1) ex nw e])
  obtain a q where q: "queue (mto msg) s' = a # q" using ms [of "mto msg"] by (cases "queue (mto msg) s'") (simp_all add: messages_def)
  then have "messages (mto msg) s' = hdrs s' a # map (hdrs s') q" by (simp add: messages_def)
  then have "hdrs s' a = hd (messages (mto msg) s @ [stamped i msg])" using ms [of "mto msg"] by (metis list.sel(1))
  moreover have "msg_recv (mto msg) s' = (Some (hdrs s' a), set_recieved a s')" using q by (simp add: msg_recv_def)
  moreover have "queue pid (set_recieved a s') = queue pid s'" for pid by (rule queue_cong) (simp add: set_recieved_def)
  ultimately show ?thesis using send ms eo(1,2) by simp
qed

theorem messages_fifo_witness:
  "\<exists>s'. msg_send blank_header boot_msgs = (1, s') \<and> fst (msg_recv 0 s') = Some (stamped 1 blank_header)"
proof -
  obtain p where p: "proc_get 0 boot_msgs = Some p" "status p = st_Running"
    by (simp add: boot_msgs_def msg_init_def psys.defs proc_get_def proc_init_def)
  have z: "mto blank_header = 0" "mflags blank_header AND mf_Reply = 0" by (simp_all add: blank_header_def)
  have "room 1 boot_msgs" by (simp add: boot_msgs_facts)
  then show ?thesis
    using messages_fifo [OF boot_msgs_facts(1) _ z(2), of p] p z(1)
    by (auto simp: boot_msgs_facts messages_def st_Running_def st_DoesNotExist_def)
qed

text \<open>
  (C22) A message is answered at most once. After a reply has been accepted, any further reply to
  the same message by the same process is refused, whatever its other fields are.
\<close>

theorem reply_at_most_once:
  assumes "msgs_ok s" and "room 1 s" and "mflags msg AND mf_Reply \<noteq> 0" and "msg_send msg s = (i, s')" and "i \<noteq> 0"
    and "mflags msg' AND mf_Reply \<noteq> 0" and "reply_id msg' = reply_id msg"
  shows "msg_send msg' s' = (0, s')"
proof -
  let ?c = "proc_current_pid s" and ?r = "reply_id msg"
  obtain prev where prev: "msg_get ?r ?c s = Some prev" "mto prev = mfrom msg" "\<not> replied prev"
    and e: "enqueue_msg msg (mark_replied (mid prev) (mfrom msg) s) = (i, s')"
    and st: "\<not> (mto msg \<noteq> 0 \<and> proc_get_status (mto msg) s = st_DoesNotExist)"
    using assms(3-5) by (auto simp: msg_send_def split: if_splits option.splits)
  obtain a where a: "find_msg (\<lambda>h. mid h = ?r) ?c s = Some a" "prev = hdrs s a" using prev(1) by (auto simp: msg_get_def)
  have aq: "a \<in> set (queue ?c s)" "mid prev = ?r" using find_in_queue [OF a(1)] a(2) by simp_all
  have cur: "mfrom msg = ?c" using msgs_okD(5) [OF assms(1) aq(1)] prev(2) a(2) by simp
  let ?t = "mark_replied (mid prev) (mfrom msg) s"
  have t: "msgs_ok ?t" using assms(1) mark_replied_ok by simp
  have qt: "queue pid ?t = queue pid s" for pid by (rule queue_cong) (simp add: mark_replied_def)
  have ct: "id_counter ?t = id_counter s" "proc_get x ?t = proc_get x s" "proc_current_pid ?t = ?c" for x
    by (simp_all add: mark_replied_def proc_get_def)
  have nw: "id_counter ?t + 1 \<noteq> 0" using room_Suc [of 0 s] assms(2) ct(1) by simp
  have ex: "proc_get (mto msg) ?t \<noteq> None"
    using st msgs_okD(1) [OF assms(1)] unfolding ct(2)
    by (cases "proc_get (mto msg) s") (auto simp: procs_ok_def proc_get_status_def)
  note eo = enqueue_ok [OF t ex nw e]
  obtain b where b: "b \<notin> set (qptrs ?t)" "\<forall>pid. queue pid s' = (if pid = mto msg then queue pid ?t @ [b] else queue pid ?t)"
    "hdrs s' = (hdrs ?t)(b := msg\<lparr>mid := i, valid := True, recieved := False, replied := False\<rparr>)"
    using eo(4) by blast
  have same: "mid (hdrs s' x) = mid (hdrs s x)" if "x \<in> set (queue ?c s)" for x
    using that b(1,3) queue_in_qptrs [of x ?c ?t] qt by (auto simp: mark_replied_def)
  have "List.find (\<lambda>x. mid (hdrs s' x) = ?r) (queue ?c s) = List.find (\<lambda>x. mid (hdrs s x) = ?r) (queue ?c s)"
    using same by (intro find_cong) simp_all
  then have f: "List.find (\<lambda>x. mid (hdrs s' x) = ?r) (queue ?c s) = Some a" using a(1) by (simp add: find_msg_def)
  have app: "List.find P (xs @ ys) = Some x" if "List.find P xs = Some x" for P and xs ys :: "nat list" and x
    using that by (induction xs) (auto split: if_splits)
  have "find_msg (\<lambda>h. mid h = ?r) ?c s' = Some a" using f app [OF f, of "[b]"] b(2) qt by (cases "?c = mto msg") (simp_all add: find_msg_def)
  moreover have "replied (hdrs s' a)"
    using aq b(1,3) queue_in_qptrs [of a ?c ?t] qt cur a(2) by (auto simp: mark_replied_def)
  moreover have "proc_current_pid s' = ?c" using eo(6) ct(3) by simp
  ultimately show ?thesis using assms(6,7) by (simp add: msg_send_def msg_get_def)
qed

theorem reply_at_most_once_witness:
  "\<exists>s s'. messages 0 s = [stamped 1 blank_header]
     \<and> msg_send (blank_header\<lparr>mflags := mf_Reply, reply_id := 1\<rparr>) s = (2, s')
     \<and> msg_send (blank_header\<lparr>mflags := mf_Reply, reply_id := 1\<rparr>) s' = (0, s')"
proof -
  let ?h = "blank_header\<lparr>mflags := mf_Reply, reply_id := 1\<rparr>"
  obtain s where s: "msg_send blank_header boot_msgs = (1, s)" "msgs_ok s" "messages 0 s = [stamped 1 blank_header]"
    by (rule boot_send)
  have rm: "room 1 s" "proc_current_pid s = 0"
    using msg_send_ok(2,4) [OF boot_msgs_facts(1) _ s(1), of 1] by (simp_all add: boot_msgs_facts)
  obtain a where a: "queue 0 s = [a]" "hdrs s a = stamped 1 blank_header" using s(3) by (auto simp: messages_def)
  have g: "msg_get 1 0 s = Some (stamped 1 blank_header)" using a by (simp add: msg_get_def find_msg_def stamped_def)
  let ?t = "mark_replied 1 0 s"
  obtain i s' where e: "enqueue_msg ?h ?t = (i, s')" by fastforce
  have h: "mto ?h = 0" "mfrom ?h = 0" "reply_id ?h = 1" "mflags ?h AND mf_Reply \<noteq> 0" by (simp_all add: blank_header_def mf_Reply_def)
  have send: "msg_send ?h s = (i, s')"
    using g rm(2) e by (simp add: msg_send_def stamped_def) (simp add: blank_header_def mf_Reply_def)
  have "id_counter s = 1" using enqueue_ok(8) [OF boot_msgs_facts(1), of blank_header 1 s] s(1) boot_msgs_facts(4)
    by (simp add: msg_send_def blank_header_def boot_msgs_facts)
  then have i: "i = 2"
    using e by (auto simp: enqueue_msg_def Let_def mark_replied_def split: prod.splits)
  then have "msg_send ?h s' = (0, s')" using reply_at_most_once [OF s(2) rm(1) h(4) send _ h(4)] by simp
  then show ?thesis using s(3) send i by blast
qed

text \<open>
  (C39) Message content is not protected from other processes. \<^verbatim>\<open>msg_getcontent\<close> takes the
  receiver from the header the caller passes and does not look at the current process: whoever
  names the id of a queued message and the pid of its receiver gets the content.
\<close>

theorem content_read_by_any_process:
  assumes "msg_get i pid s = Some r" and "blocks s (content r) = Some (Bytes bs)" and "unat (mlength r) \<le> length bs"
    and "0 < mlength r" and "pid \<noteq> proc_current_pid s"
  shows "msg_getcontent (blank_header\<lparr>mid := i, mto := pid\<rparr>) (mlength r) s
     = Inr (mlength r, Some (Bytes (take (unat (mlength r)) bs)))"
  using assms(1-4) by (auto simp: msg_getcontent_def Let_def)

theorem content_read_by_any_process_witness:
  "\<exists>s. proc_current_pid s = 7
     \<and> msg_getcontent (blank_header\<lparr>mid := 1, mto := 0\<rparr>) 2 s = Inr (2, Some (Bytes [0x41, 0x42]))"
proof -
  define s where "s = boot_msgs\<lparr>proc_current_pid := 7, blocks := (\<lambda>_. Some (Bytes [0x41, 0x42])),
     proc_processes := map (\<lambda>p. p\<lparr>msg_q := [1]\<rparr>) (proc_processes boot_msgs),
     hdrs := (\<lambda>_. blank_header\<lparr>mid := 1, mlength := 2, content := 1\<rparr>)\<rparr>"
  have "queue 0 s = [1]"
    by (simp add: s_def queue_def proc_get_def boot_msgs_def msg_init_def psys.defs proc_init_def)
  then have g: "msg_get 1 0 s = Some (blank_header\<lparr>mid := 1, mlength := 2, content := 1\<rparr>)"
    by (simp add: msg_get_def find_msg_def) (simp add: s_def)
  have b: "blocks s x = Some (Bytes [0x41, 0x42])" "proc_current_pid s = 7" for x by (simp_all add: s_def)
  show ?thesis using content_read_by_any_process [OF g b(1)] b(2) by auto
qed

end
