(* ===== verification/Scheduler.thy ===== *)
theory Scheduler imports Prelude begin

text \<open>
  The thread scheduler, \<^verbatim>\<open>kernel/scheduler.cpp\<close>. Threads are named by their external ids; the
  list holds the thread records in the order of the kernel's vector. A special thread, the
  prescheduler, links the threads to run next into a chain through their \<^verbatim>\<open>next\<close> fields, and
  every switch follows that chain. The check a blocked thread waits for is a function pointer: it
  is a parameter \<open>bc\<close> that says which checks hold. Each operation runs under the scheduler lock and
  is one atomic step. Stacks, the FPU and debug registers and the saved user context are not part
  of the state.
\<close>

section \<open>State\<close>

definition default_priority :: u32 where "default_priority = 10"

definition modifier_limit :: u32 where "modifier_limit = 128"

definition cstart :: u32 where "cstart = 5"

datatype sch_thread_status = Runnable | Blocked | DebugStopped | DebugBlocked | Ending | Special

record 'b sch_thread =
  t_status :: sch_thread_status
  t_priority :: u32
  t_dynpriority :: u32
  t_modifier :: u32
  t_ext_id :: u64
  t_pid :: u64
  t_blockcheck :: "'b option"
  t_abortlevel :: int
  t_user_abort :: bool
  t_next :: "u64 option"
  t_sch_cycle :: u32
  t_msgstatus :: u32

record 'b sched =
  threads :: "'b sch_thread list"
  current_thread :: u64
  reaper_thread :: u64
  prescheduler_thread :: u64
  idle_thread :: u64
  cur_ext_id :: u64
  preferred_next_pid :: u64
  preferred_return_pid :: u64
  lcycle :: u32
  counter :: u32
  deferred :: bool

definition sch_get :: "u64 \<Rightarrow> 'b sched \<Rightarrow> 'b sch_thread option" where
  "sch_get ext_id s = List.find (\<lambda>t. t_ext_id t = ext_id) (threads s)"

definition upd_thread :: "u64 \<Rightarrow> ('b sch_thread \<Rightarrow> 'b sch_thread) \<Rightarrow> 'b sched \<Rightarrow> 'b sched" where
  "upd_thread ext_id f s = s\<lparr>threads := map (\<lambda>t. if t_ext_id t = ext_id then f t else t) (threads s)\<rparr>"

section \<open>Threads\<close>

definition new_thread :: "u64 \<Rightarrow> 'b sch_thread" where
  "new_thread ext_id =
     \<lparr>t_status = Runnable, t_priority = default_priority, t_dynpriority = 0, t_modifier = 0, t_ext_id = ext_id, t_pid = 0,
      t_blockcheck = None, t_abortlevel = 2, t_user_abort = False, t_next = None, t_sch_cycle = 0, t_msgstatus = 0\<rparr>"

definition sch_new_thread :: "'b sched \<Rightarrow> u64 \<times> 'b sched" where
  "sch_new_thread s =
     (let ext_id = cur_ext_id s + 1
      in (ext_id, s\<lparr>cur_ext_id := ext_id, threads := threads s @ [new_thread ext_id]\<rparr>))"

text \<open>One pass of the reaper removes the first ending thread; it repeats until there is none.\<close>

fun reap_first :: "'b sch_thread list \<Rightarrow> ('b sch_thread list) option" where
  "reap_first [] = None"
| "reap_first (t # ts) = (if t_status t = Ending then Some ts else map_option ((#) t) (reap_first ts))"

lemma reap_first_shorter: "reap_first ts = Some ts' \<Longrightarrow> length ts = Suc (length ts')"
  by (induction ts arbitrary: ts') (auto split: if_splits)

function thread_reaper :: "'b sch_thread list \<Rightarrow> 'b sch_thread list" where
  "thread_reaper ts = (case reap_first ts of None \<Rightarrow> ts | Some ts' \<Rightarrow> thread_reaper ts')"
  by pat_completeness auto
termination
  by (relation "measure length") (auto dest: reap_first_shorter)

declare thread_reaper.simps [simp del]

definition sch_end_thread :: "'b sched \<Rightarrow> 'b sched" where
  "sch_end_thread s =
     upd_thread (reaper_thread s) (\<lambda>t. t\<lparr>t_status := Runnable\<rparr>)
       (upd_thread (current_thread s) (\<lambda>t. t\<lparr>t_status := Ending\<rparr>) s)"

definition sch_set_priority :: "u32 \<Rightarrow> 'b sched \<Rightarrow> 'b sched" where
  "sch_set_priority pri s = upd_thread (current_thread s) (\<lambda>t. t\<lparr>t_priority := pri\<rparr>) s"

definition sch_block :: "'b sched \<Rightarrow> 'b sched" where
  "sch_block s = upd_thread (current_thread s) (\<lambda>t. t\<lparr>t_status := Blocked\<rparr>) s"

definition sch_unblock :: "u64 \<Rightarrow> 'b sched \<Rightarrow> 'b sched" where
  "sch_unblock ext_id s =
     upd_thread ext_id (\<lambda>t. if t_status t = Blocked then t\<lparr>t_status := Runnable\<rparr> else t) s"

definition sch_clearblock :: "'b sched \<Rightarrow> 'b sched" where
  "sch_clearblock s = upd_thread (current_thread s) (\<lambda>t. t\<lparr>t_blockcheck := None\<rparr>) s"

text \<open>
  Blocking on a check up to the switch to another thread; when the check holds already the thread
  goes on. The flag says whether the thread blocked, in which case the abort level was lowered.
\<close>

definition sch_setblock :: "('b \<Rightarrow> bool) \<Rightarrow> 'b \<Rightarrow> 'b sched \<Rightarrow> bool \<times> 'b sched" where
  "sch_setblock bc check s =
     (if bc check then (False, s)
      else (True, sch_block (upd_thread (current_thread s)
              (\<lambda>t. let t' = t\<lparr>t_blockcheck := Some check\<rparr>
                   in if t_abortlevel t' \<noteq> 0 then t'\<lparr>t_abortlevel := max 0 (t_abortlevel t' - 1)\<rparr> else t') s)))"

definition sch_wait_blockcheck :: "u64 \<Rightarrow> 'b sched \<Rightarrow> bool" where
  "sch_wait_blockcheck ext_id s \<longleftrightarrow> sch_get ext_id s = None"

definition sch_abort_blockcheck :: "u64 \<Rightarrow> 'b sched \<Rightarrow> bool" where
  "sch_abort_blockcheck ext_id s = (case sch_get ext_id s of Some t \<Rightarrow> t_abortlevel t > 0 | None \<Rightarrow> True)"

text \<open>
  One round of \<^verbatim>\<open>sch_abort\<close>: it has finished, or it goes on to wait for its check and tries
  again.
\<close>

definition abort_round :: "u64 \<Rightarrow> 'b sched \<Rightarrow> bool \<times> 'b sched" where
  "abort_round ext_id s =
     (case sch_get ext_id s of
        None \<Rightarrow> (True, s)
      | Some t \<Rightarrow>
          if t_abortlevel t = 0
          then (True, upd_thread (reaper_thread s) (\<lambda>t. t\<lparr>t_status := Runnable\<rparr>)
                        (upd_thread ext_id (\<lambda>t. t\<lparr>t_status := Ending\<rparr>) s))
          else (False, upd_thread ext_id (\<lambda>t. t\<lparr>t_user_abort := True\<rparr>) s))"

definition sch_abort :: "u64 \<Rightarrow> 'b sched \<Rightarrow> (bool \<times> 'b sched) kres" where
  "sch_abort ext_id s =
     (if ext_id = current_thread s then Inl (Panic ''(SCH) Thread attempting to abort itself!'')
      else Inr (abort_round ext_id s))"

definition sch_user_abort :: "'b sched \<Rightarrow> bool" where
  "sch_user_abort s = (case sch_get (current_thread s) s of Some t \<Rightarrow> t_user_abort t | None \<Rightarrow> False)"

definition sch_set_msgstaus :: "u32 \<Rightarrow> u64 \<Rightarrow> 'b sched \<Rightarrow> 'b sched kres" where
  "sch_set_msgstaus st ext_id s =
     (if sch_get ext_id s = None then Inl OutOfBounds else Inr (upd_thread ext_id (\<lambda>t. t\<lparr>t_msgstatus := st\<rparr>) s))"

definition sch_get_msgstatus :: "u64 \<Rightarrow> 'b sched \<Rightarrow> u32 kres" where
  "sch_get_msgstatus ext_id s = (case sch_get ext_id s of None \<Rightarrow> Inl OutOfBounds | Some t \<Rightarrow> Inr (t_msgstatus t))"

definition sch_get_pid_threadcount :: "u64 \<Rightarrow> bool \<Rightarrow> u64 \<Rightarrow> 'b sched \<Rightarrow> nat" where
  "sch_get_pid_threadcount pid ignore_current ext_id s =
     length (filter (\<lambda>t. t_pid t = pid \<and> (\<not> ignore_current \<or> t_ext_id t \<noteq> ext_id)) (threads s))"

definition debug_stop_status :: "sch_thread_status \<Rightarrow> sch_thread_status" where
  "debug_stop_status st = (if st = Runnable then DebugStopped else if st = Blocked then DebugBlocked else st)"

definition debug_resume_status :: "sch_thread_status \<Rightarrow> sch_thread_status" where
  "debug_resume_status st = (if st = DebugStopped then Runnable else if st = DebugBlocked then Blocked else st)"

definition sch_debug_stop :: "u64 \<Rightarrow> 'b sched \<Rightarrow> 'b sched" where
  "sch_debug_stop pid s =
     s\<lparr>threads := map (\<lambda>c. if t_pid c = pid then c\<lparr>t_status := debug_stop_status (t_status c)\<rparr> else c) (threads s)\<rparr>"

definition sch_debug_resume :: "u64 \<Rightarrow> 'b sched \<Rightarrow> 'b sched" where
  "sch_debug_resume pid s =
     s\<lparr>threads := map (\<lambda>c. if t_pid c = pid then c\<lparr>t_status := debug_resume_status (t_status c)\<rparr> else c) (threads s)\<rparr>"

definition sch_yield_to :: "u64 \<Rightarrow> u64 \<Rightarrow> 'b sched \<Rightarrow> 'b sched" where
  "sch_yield_to pid proc_current_pid s =
     (if pid \<noteq> 0 then s\<lparr>preferred_next_pid := pid, preferred_return_pid := proc_current_pid\<rparr> else s)"

text \<open>
  The timer interrupt, when it gets the scheduler lock: every \<open>cstart\<close>-th tick yields, which is
  the flag of the result. The interrupted thread cannot be aborted until it has been resumed.
\<close>

definition sch_isr_tick :: "'b sched \<Rightarrow> bool \<times> 'b sched" where
  "sch_isr_tick s =
     (let c = counter s - 1
      in if c = 0
         then (True, upd_thread (current_thread s) (\<lambda>t. t\<lparr>t_abortlevel := max 0 (t_abortlevel t + 1)\<rparr>) (s\<lparr>counter := cstart\<rparr>))
         else (False, s\<lparr>counter := c\<rparr>))"

section \<open>Choosing a thread\<close>

text \<open>
  The first pass over the threads. Line 279 compares a truth value with \<^verbatim>\<open>0xFFFFFFFF\<close>; blocked
  threads are looked at once per cycle.
\<close>

definition wake :: "('b \<Rightarrow> bool) \<Rightarrow> bool \<Rightarrow> 'b sch_thread \<Rightarrow> 'b sch_thread" where
  "wake bc fresh t0 =
     (let t = (if (if t_priority t0 = 0 then 1 else 0 :: u32) = 0xFFFFFFFF then t0\<lparr>t_dynpriority := 0xFFFFFFFF\<rparr> else t0)
      in if fresh \<and> t_status t = Blocked \<and> (case t_blockcheck t of Some c \<Rightarrow> bc c | None \<Rightarrow> False)
         then t\<lparr>t_status := Runnable\<rparr> else t)"

definition min_dynpriority :: "'b sch_thread list \<Rightarrow> u32" where
  "min_dynpriority ts =
     fold (\<lambda>t m. if t_status t = Runnable \<and> t_dynpriority t < m then t_dynpriority t else m) ts 0xFFFFFFFF"

text \<open>
  The pass that looks for the preferred process does not stop at the first thread it finds; it goes
  on with the pid to return to. The accumulator is the thread found and the two preferred pids.
\<close>

definition prefer_step :: "'b sch_thread \<Rightarrow> u64 option \<times> u64 \<times> u64 \<Rightarrow> u64 option \<times> u64 \<times> u64" where
  "prefer_step t acc =
     (case acc of (torun, next_pid, return_pid) \<Rightarrow>
        if t_status t = Runnable \<and> t_pid t = next_pid then (Some (t_ext_id t), return_pid, 0) else acc)"

definition sub_dynpriority :: "u32 \<Rightarrow> 'b sch_thread \<Rightarrow> u32" where
  "sub_dynpriority mn t = (if t_dynpriority t \<noteq> 0 then t_dynpriority t - mn else t_dynpriority t)"

definition picked :: "u64 \<Rightarrow> u32 \<Rightarrow> 'b sch_thread \<Rightarrow> bool" where
  "picked cur mn t \<longleftrightarrow> t_status t = Runnable \<and> t_ext_id t \<noteq> cur \<and> sub_dynpriority mn t = 0"

definition dec_modifier :: "'b sch_thread \<Rightarrow> 'b sch_thread" where
  "dec_modifier t = (if t_modifier t \<noteq> 0 then t\<lparr>t_modifier := t_modifier t - 1\<rparr> else t)"

definition age :: "u64 \<Rightarrow> u32 \<Rightarrow> 'b sch_thread \<Rightarrow> 'b sch_thread" where
  "age cur mn t =
     (let t' = (if t_status t = Runnable then t\<lparr>t_dynpriority := sub_dynpriority mn t\<rparr> else t)
      in if picked cur mn t then t' else dec_modifier t')"

definition inc_modifier :: "'b sch_thread \<Rightarrow> 'b sch_thread" where
  "inc_modifier t = (if t_modifier t < modifier_limit then t\<lparr>t_modifier := t_modifier t + 1\<rparr> else t)"

definition sch_find_thread :: "('b \<Rightarrow> bool) \<Rightarrow> u32 \<Rightarrow> 'b sched \<Rightarrow> (u64 option \<times> 'b sched) kres" where
  "sch_find_thread bc cycle s0 =
     (let ts = map (wake bc (lcycle s0 \<noteq> cycle)) (threads s0);
          s = s0\<lparr>threads := ts, lcycle := cycle\<rparr>
      in if list_ex (\<lambda>t. t_status t = Runnable \<and> t_priority t = 0) ts
         then Inl (Panic ''(SCH) Thread priority 0 is not allowed.'')
         else if \<not> list_ex (\<lambda>t. t_status t = Runnable) ts then Inr (None, s)
         else
           let (pref, next_pid, return_pid) =
                 (if preferred_next_pid s \<noteq> 0
                  then fold prefer_step ts (None, preferred_next_pid s, preferred_return_pid s)
                  else (None, preferred_next_pid s, preferred_return_pid s));
               s1 = s\<lparr>preferred_next_pid := next_pid, preferred_return_pid := return_pid\<rparr>
           in case pref of
                Some t \<Rightarrow> Inr (Some t, upd_thread t inc_modifier s1)
              | None \<Rightarrow>
                  (let mn = min_dynpriority ts;
                       s2 = s1\<lparr>threads := map (age (current_thread s) mn) ts\<rparr>;
                       torun = (case List.find (picked (current_thread s) mn) (rev ts) of
                                  Some t \<Rightarrow> t_ext_id t | None \<Rightarrow> current_thread s)
                   in Inr (Some torun, upd_thread torun inc_modifier s2)))"

section \<open>The prescheduler\<close>

definition charge :: "u32 \<Rightarrow> 'b sch_thread \<Rightarrow> 'b sch_thread" where
  "charge cycle t0 =
     (let t = inc_modifier t0
      in t\<lparr>t_dynpriority := (if t_priority t + t_modifier t \<ge> t_priority t then t_priority t + t_modifier t else 0xFFFFFFFF),
           t_sch_cycle := cycle\<rparr>)"

text \<open>
  One cycle of the prescheduler links threads behind \<open>cur\<close> until a thread comes up a second time.
  The first argument bounds the rounds.
\<close>

fun presched_loop :: "nat \<Rightarrow> ('b \<Rightarrow> bool) \<Rightarrow> u32 \<Rightarrow> u64 \<Rightarrow> nat \<Rightarrow> 'b sched \<Rightarrow> 'b sched kres" where
  "presched_loop 0 bc cycle cur cnt s = Inl Diverges"
| "presched_loop (Suc fuel) bc cycle cur cnt s =
     kbind (sch_find_thread bc cycle s)
       (\<lambda>(r, s1). case r of
          None \<Rightarrow> Inr s1
        | Some nxt \<Rightarrow>
            (case sch_get nxt s1 of
               None \<Rightarrow> Inl OutOfBounds
             | Some t \<Rightarrow>
                 if t_sch_cycle t = cycle \<or> (cnt \<noteq> 0 \<and> nxt = idle_thread s1) then Inr s1
                 else presched_loop fuel bc cycle nxt (Suc cnt)
                        (upd_thread nxt (charge cycle) (upd_thread cur (\<lambda>t. t\<lparr>t_next := Some nxt\<rparr>) s1))))"

definition sch_prescheduler_cycle :: "nat \<Rightarrow> ('b \<Rightarrow> bool) \<Rightarrow> u32 \<Rightarrow> 'b sched \<Rightarrow> 'b sched kres" where
  "sch_prescheduler_cycle fuel bc cycle s = presched_loop fuel bc cycle (current_thread s) 0 s"

text \<open>
  The switch. The thread to run is the next one of the chain, or the one after it when that is not
  runnable any more, or the prescheduler at the end of the chain.
\<close>

definition sch_schedule :: "'b sched \<Rightarrow> 'b sched kres" where
  "sch_schedule s =
     (case sch_get (current_thread s) s of
        None \<Rightarrow> Inl OutOfBounds
      | Some c \<Rightarrow>
          (let s1 = upd_thread (current_thread s) (\<lambda>t. t\<lparr>t_next := None\<rparr>) s;
               torun = (case t_next c of
                          None \<Rightarrow> None
                        | Some n \<Rightarrow> (case sch_get n s1 of
                                       None \<Rightarrow> Some n
                                     | Some t \<Rightarrow> if t_status t \<noteq> Runnable then t_next t else Some n));
               n = (case torun of Some n \<Rightarrow> n | None \<Rightarrow> prescheduler_thread s1)
           in if sch_get n s1 = None then Inl OutOfBounds
              else if n = 0 then Inl (Panic ''(SCH) Thread with no ID?'')
              else Inr (s1\<lparr>current_thread := n, deferred := False\<rparr>)))"

section \<open>What choosing a thread leaves alone\<close>

definition thread_keys :: "'b sch_thread list \<Rightarrow> (u64 \<times> u32 \<times> u32) list" where
  "thread_keys ts = map (\<lambda>t. (t_ext_id t, t_sch_cycle t, t_priority t)) ts"

lemma key_fields [simp]:
  "t_ext_id (wake bc b t) = t_ext_id t" "t_sch_cycle (wake bc b t) = t_sch_cycle t" "t_priority (wake bc b t) = t_priority t"
  "t_ext_id (age c mn t) = t_ext_id t" "t_sch_cycle (age c mn t) = t_sch_cycle t" "t_priority (age c mn t) = t_priority t"
  "t_ext_id (inc_modifier t) = t_ext_id t" "t_sch_cycle (inc_modifier t) = t_sch_cycle t"
  "t_priority (inc_modifier t) = t_priority t"
  "t_ext_id (charge cyc t) = t_ext_id t" "t_sch_cycle (charge cyc t) = cyc" "t_priority (charge cyc t) = t_priority t"
  by (simp_all add: wake_def age_def dec_modifier_def inc_modifier_def charge_def Let_def)

lemma thread_keys_map:
  "(\<And>t. t_ext_id (f t) = t_ext_id t \<and> t_sch_cycle (f t) = t_sch_cycle t \<and> t_priority (f t) = t_priority t) \<Longrightarrow>
     thread_keys (map f ts) = thread_keys ts"
  by (simp add: thread_keys_def)

lemma thread_keys_upd:
  "(\<And>t. t_ext_id (f t) = t_ext_id t \<and> t_sch_cycle (f t) = t_sch_cycle t \<and> t_priority (f t) = t_priority t) \<Longrightarrow>
     thread_keys (threads (upd_thread i f s)) = thread_keys (threads s)"
  by (simp add: thread_keys_def upd_thread_def)

lemma upd_thread_fields [simp]:
  "current_thread (upd_thread i f s) = current_thread s" "idle_thread (upd_thread i f s) = idle_thread s"
  "lcycle (upd_thread i f s) = lcycle s" "reaper_thread (upd_thread i f s) = reaper_thread s"
  "prescheduler_thread (upd_thread i f s) = prescheduler_thread s"
  by (simp_all add: upd_thread_def)

lemma ids_of_keys: "map t_ext_id ts = map fst (thread_keys ts)"
  by (simp add: thread_keys_def)

lemma prefer_in:
  "fold prefer_step ts acc = (r, a, b) \<Longrightarrow> r = fst acc \<or> (\<exists>i \<in> t_ext_id ` set ts. r = Some i)"
  by (induction ts arbitrary: acc) (force simp: prefer_step_def split: prod.splits if_splits)+

lemma find_in_set: "List.find P xs = Some x \<Longrightarrow> x \<in> set xs \<and> P x"
  by (metis (mono_tags, lifting) find_Some_iff nth_mem)

lemma sch_find_thread_keeps:
  assumes "sch_find_thread bc cycle s = Inr (r, s')"
  shows "thread_keys (threads s') = thread_keys (threads s)" and "current_thread s' = current_thread s"
    and "idle_thread s' = idle_thread s" and "r = Some n \<Longrightarrow> n \<in> t_ext_id ` set (threads s) \<or> n = current_thread s"
proof -
  define ts where "ts = map (wake bc (lcycle s \<noteq> cycle)) (threads s)"
  define s0 where "s0 = s\<lparr>threads := ts, lcycle := cycle\<rparr>"
  have k: "thread_keys ts = thread_keys (threads s)" unfolding ts_def by (rule thread_keys_map) simp
  have ids: "t_ext_id ` set ts = t_ext_id ` set (threads s)" by (simp add: ts_def image_image)
  obtain pref np rp where p: "(if preferred_next_pid s0 \<noteq> 0
      then fold prefer_step ts (None, preferred_next_pid s0, preferred_return_pid s0)
      else (None, preferred_next_pid s0, preferred_return_pid s0)) = (pref, np, rp)" by (metis prod_cases3)
  define s1 where "s1 = s0\<lparr>preferred_next_pid := np, preferred_return_pid := rp\<rparr>"
  define mn where "mn = min_dynpriority ts"
  define s2 where "s2 = s1\<lparr>threads := map (age (current_thread s0) mn) ts\<rparr>"
  define torun where "torun = (case List.find (picked (current_thread s0) mn) (rev ts) of
      Some t \<Rightarrow> t_ext_id t | None \<Rightarrow> current_thread s0)"
  have res: "(r = None \<and> s' = s0) \<or> (\<exists>t. pref = Some t \<and> r = Some t \<and> s' = upd_thread t inc_modifier s1)
      \<or> (r = Some torun \<and> s' = upd_thread torun inc_modifier s2)"
    using assms unfolding sch_find_thread_def ts_def [symmetric] s0_def [symmetric] Let_def p
    by (auto simp: s1_def s2_def mn_def torun_def s0_def split: if_splits option.splits)
  have k1: "thread_keys (threads s0) = thread_keys (threads s)" "thread_keys (threads s1) = thread_keys (threads s)"
    using k by (simp_all add: s0_def s1_def)
  have "thread_keys (map (age (current_thread s0) mn) ts) = thread_keys ts" by (rule thread_keys_map) simp
  then have k2: "thread_keys (threads s2) = thread_keys (threads s)" using k by (simp add: s2_def)
  have ku: "thread_keys (threads (upd_thread i inc_modifier x)) = thread_keys (threads x)" for i and x :: "'a sched"
    by (rule thread_keys_upd) simp
  show "thread_keys (threads s') = thread_keys (threads s)" using res k1 k2 ku by auto
  show "current_thread s' = current_thread s" "idle_thread s' = idle_thread s"
    using res by (auto simp: s0_def s1_def s2_def)
  have "torun \<in> t_ext_id ` set ts \<or> torun = current_thread s"
    by (auto simp: torun_def s0_def split: option.splits dest!: find_in_set)
  moreover have "t \<in> t_ext_id ` set ts" if "pref = Some t" for t
    using p that prefer_in [of ts "(None, preferred_next_pid s0, preferred_return_pid s0)" pref np rp]
    by (auto split: if_splits)
  ultimately show "n \<in> t_ext_id ` set (threads s) \<or> n = current_thread s" if "r = Some n"
    using res that ids by auto
qed

lemma sch_find_thread_returns:
  assumes "\<forall>t \<in> set (threads s). t_priority t \<noteq> 0"
  shows "\<exists>r s'. sch_find_thread bc cycle s = Inr (r, s')"
proof -
  let ?ts = "map (wake bc (lcycle s \<noteq> cycle)) (threads s)"
  have "\<not> list_ex (\<lambda>t. t_status t = Runnable \<and> t_priority t = 0) ?ts"
    using assms by (auto simp: list_ex_iff)
  then show ?thesis unfolding sch_find_thread_def Let_def by (auto split: prod.splits option.splits)
qed

section \<open>The prescheduler's cycle ends\<close>

definition unmarked :: "u32 \<Rightarrow> 'b sched \<Rightarrow> nat" where
  "unmarked cycle s = length (filter (\<lambda>(_, c, _). c \<noteq> cycle) (thread_keys (threads s)))"

lemma unmarked_charge:
  assumes d: "distinct (map t_ext_id (threads s))" and t: "t \<in> set (threads s)" "t_ext_id t = n" "t_sch_cycle t \<noteq> cycle"
  shows "unmarked cycle s = Suc (unmarked cycle (upd_thread n (charge cycle) s))"
proof -
  have "length (filter (\<lambda>(_, c, _). c \<noteq> cycle) (thread_keys ts))
      = Suc (length (filter (\<lambda>(_, c, _). c \<noteq> cycle) (thread_keys (map (\<lambda>t. if t_ext_id t = n then charge cycle t else t) ts))))"
    if "distinct (map t_ext_id ts)" "t \<in> set ts" for ts
    using that
  proof (induction ts)
    case (Cons x ts)
    show ?case
    proof (cases "x = t")
      case True
      then have "\<forall>y \<in> set ts. t_ext_id y \<noteq> n" using Cons.prems(1) t(2) by (auto simp: image_iff)
      then have "map (\<lambda>t. if t_ext_id t = n then charge cycle t else t) ts = ts" by (simp add: map_idI)
      then show ?thesis using True t(2,3) by (simp add: thread_keys_def)
    next
      case False
      then have "t \<in> set ts" using Cons.prems(2) by simp
      moreover from this have "t_ext_id x \<noteq> n" using Cons.prems(1) t(2) by (auto simp: image_iff)
      ultimately show ?thesis using Cons by (simp add: thread_keys_def)
    qed
  qed simp
  then show ?thesis using d t(1) by (simp add: unmarked_def upd_thread_def)
qed

lemma presched_ends:
  assumes "distinct (map t_ext_id (threads s))" and "current_thread s \<in> t_ext_id ` set (threads s)"
    and "\<forall>t \<in> set (threads s). t_priority t \<noteq> 0" and "unmarked cycle s < fuel"
  shows "\<exists>s'. presched_loop fuel bc cycle cur cnt s = Inr s' \<and> map t_ext_id (threads s') = map t_ext_id (threads s)"
  using assms
proof (induction fuel arbitrary: cur cnt s)
  case (Suc fuel)
  obtain r s1 where f: "sch_find_thread bc cycle s = Inr (r, s1)" using sch_find_thread_returns [OF Suc.prems(3)] by blast
  note k = sch_find_thread_keeps [OF f]
  have ids: "map t_ext_id (threads s1) = map t_ext_id (threads s)" using k(1) by (simp add: ids_of_keys)
  have idset: "t_ext_id ` set (threads s1) = t_ext_id ` set (threads s)" using ids by (metis set_map)
  have pri: "t_priority ` set (threads s1) = t_priority ` set (threads s)"
    using arg_cong [OF k(1), of "\<lambda>l. (\<lambda>(_, _, p). p) ` set l"] by (simp add: thread_keys_def image_image)
  show ?case
  proof (cases r)
    case None
    then show ?thesis using f ids by simp
  next
    case (Some n)
    have "n \<in> t_ext_id ` set (threads s1)" using k(4) [OF Some] Suc.prems(2) idset by auto
    then obtain t0 where "t0 \<in> set (threads s1)" "t_ext_id t0 = n" by auto
    then obtain t where t: "sch_get n s1 = Some t"
      unfolding sch_get_def by (cases "List.find (\<lambda>t. t_ext_id t = n) (threads s1)") (auto simp: find_None_iff)
    have tin: "t \<in> set (threads s1)" "t_ext_id t = n" using t find_in_set unfolding sch_get_def by fastforce+
    show ?thesis
    proof (cases "t_sch_cycle t = cycle \<or> (cnt \<noteq> 0 \<and> n = idle_thread s1)")
      case True
      then show ?thesis using f Some t ids by auto
    next
      case False
      let ?s2 = "upd_thread cur (\<lambda>t. t\<lparr>t_next := Some n\<rparr>) s1" let ?s3 = "upd_thread n (charge cycle) ?s2"
      have k2: "thread_keys (threads ?s2) = thread_keys (threads s)" using k(1) thread_keys_upd [of "\<lambda>t. t\<lparr>t_next := Some n\<rparr>" cur s1] by simp
      have um: "unmarked cycle ?s2 = unmarked cycle s" by (simp add: unmarked_def k2)
      have d2: "distinct (map t_ext_id (threads ?s2))" using Suc.prems(1) k2 by (simp add: ids_of_keys)
      let ?t = "if n = cur then t\<lparr>t_next := Some n\<rparr> else t"
      have "?t \<in> set (threads ?s2)" using tin by (auto simp: upd_thread_def image_iff)
      then have "unmarked cycle ?s2 = Suc (unmarked cycle ?s3)"
        by (rule unmarked_charge [OF d2]) (use tin False in auto)
      then have less: "unmarked cycle ?s3 < fuel" using Suc.prems(4) um by simp
      have ids3: "map t_ext_id (threads ?s3) = map t_ext_id (threads ?s2)" by (simp add: upd_thread_def)
      have ids23: "map t_ext_id (threads ?s3) = map t_ext_id (threads s)" using ids3 k2 by (simp add: ids_of_keys)
      have cur3: "current_thread ?s3 \<in> t_ext_id ` set (threads ?s3)"
        using Suc.prems(2) ids23 k(2) by (metis set_map upd_thread_fields(1))
      have "map t_priority (threads ?s3) = map t_priority (threads s1)" by (simp add: upd_thread_def)
      then have "t_priority ` set (threads ?s3) = t_priority ` set (threads s1)" by (metis set_map)
      then have pri3: "\<forall>t \<in> set (threads ?s3). t_priority t \<noteq> 0" using Suc.prems(3) pri by (metis (no_types, lifting) imageE imageI)
      have d3: "distinct (map t_ext_id (threads ?s3))" using d2 ids3 by simp
      obtain s' where s': "presched_loop fuel bc cycle n (Suc cnt) ?s3 = Inr s'" "map t_ext_id (threads s') = map t_ext_id (threads ?s3)"
        using Suc.IH [OF d3 cur3 pri3 less] by blast
      have "presched_loop (Suc fuel) bc cycle cur cnt s = Inr s'" using f Some t False s'(1) by auto
      then show ?thesis using s'(2) ids23 by simp
    qed
  qed
qed simp

lemma debug_stop_resume:
  assumes "\<forall>t \<in> set (threads s). t_pid t = pid \<longrightarrow> t_status t \<noteq> DebugStopped \<and> t_status t \<noteq> DebugBlocked"
  shows "sch_debug_resume pid (sch_debug_stop pid s) = s"
proof -
  let ?stop = "\<lambda>c. if t_pid c = pid then c\<lparr>t_status := debug_stop_status (t_status c)\<rparr> else c"
  let ?res = "\<lambda>c. if t_pid c = pid then c\<lparr>t_status := debug_resume_status (t_status c)\<rparr> else c"
  have "?res (?stop c) = c" if "c \<in> set (threads s)" for c
    using assms that by (auto simp: debug_stop_status_def debug_resume_status_def)
  then have "map (?res \<circ> ?stop) (threads s) = threads s" by (simp only: comp_apply map_idI)
  then have m: "map ?res (map ?stop (threads s)) = threads s" by (simp only: map_map)
  have "sch_debug_resume pid (sch_debug_stop pid s) = s\<lparr>threads := map ?res (map ?stop (threads s))\<rparr>"
    by (simp add: sch_debug_stop_def sch_debug_resume_def)
  also have "\<dots> = s" unfolding m by simp
  finally show ?thesis .
qed

lemma thread_reaper_ending: "t \<in> set (thread_reaper ts) \<Longrightarrow> t \<in> set ts \<and> t_status t \<noteq> Ending"
proof (induction ts rule: thread_reaper.induct)
  case (1 ts)
  have none: "reap_first xs = None \<Longrightarrow> \<forall>t \<in> set xs. t_status t \<noteq> Ending" for xs :: "'a sch_thread list"
    by (induction xs) (auto split: if_splits)
  have some: "reap_first xs = Some ys \<Longrightarrow> set ys \<subseteq> set xs" for xs ys :: "'a sch_thread list"
    by (induction xs arbitrary: ys) (auto split: if_splits)
  show ?case
  proof (cases "reap_first ts")
    case None
    then show ?thesis using 1(2) none by (simp add: thread_reaper.simps [of ts])
  next
    case (Some ts')
    then have "t \<in> set (thread_reaper ts')" using 1(2) by (simp add: thread_reaper.simps [of ts])
    then show ?thesis using 1(1) [OF Some] some [OF Some] by blast
  qed
qed

lemma sch_get_upd_other:
  assumes "j \<noteq> i" and "\<And>t. t_ext_id (f t) = t_ext_id t"
  shows "sch_get i (upd_thread j f s) = sch_get i s"
proof -
  have "List.find (\<lambda>t. t_ext_id t = i) (map (\<lambda>t. if t_ext_id t = j then f t else t) ts) = List.find (\<lambda>t. t_ext_id t = i) ts" for ts
    using assms by (induction ts) auto
  then show ?thesis by (simp add: sch_get_def upd_thread_def)
qed

section \<open>Properties\<close>

text \<open>
  (C7) A cycle of the prescheduler ends: with distinct thread ids, the prescheduler itself among
  the threads and no thread of priority 0, it stops within one round more than there are threads,
  and neither adds nor removes a thread.
\<close>

theorem prescheduler_cycle_ends:
  assumes "distinct (map t_ext_id (threads s))" and "current_thread s \<in> t_ext_id ` set (threads s)"
    and "\<forall>t \<in> set (threads s). t_priority t \<noteq> 0" and "length (threads s) < fuel"
  shows "\<exists>s'. sch_prescheduler_cycle fuel bc cycle s = Inr s' \<and> map t_ext_id (threads s') = map t_ext_id (threads s)"
proof -
  have "unmarked cycle s \<le> length (threads s)" 
    unfolding unmarked_def by (rule order_trans [OF length_filter_le]) (simp add: thread_keys_def)
  then show ?thesis unfolding sch_prescheduler_cycle_def using presched_ends [OF assms(1-3)] assms(4) by simp
qed

definition two_threads :: "nat sched" where
  "two_threads =
     \<lparr>threads = [(new_thread 1)\<lparr>t_status := Special\<rparr>, new_thread 2, (new_thread 3)\<lparr>t_status := Blocked, t_blockcheck := Some 7\<rparr>],
      current_thread = 1, reaper_thread = 2, prescheduler_thread = 1, idle_thread = 2, cur_ext_id = 3,
      preferred_next_pid = 0, preferred_return_pid = 0, lcycle = 0, counter = cstart, deferred = False\<rparr>"

theorem prescheduler_cycle_ends_witness:
  "\<exists>s'. sch_prescheduler_cycle 4 (\<lambda>c. c = 7) 1 two_threads = Inr s' \<and> map t_ext_id (threads s') = [1, 2, 3]"
  using prescheduler_cycle_ends [of two_threads 4 "\<lambda>c. c = 7" 1]
  by (simp add: two_threads_def new_thread_def default_priority_def)

text \<open>
  (C36) The switch skips one thread only: when the next thread of the chain has stopped being
  runnable, the thread after it is run whatever its status is.
\<close>

theorem schedule_runs_unrunnable:
  assumes "sch_get (current_thread s) s = Some c" and "t_next c = Some n" and "n \<noteq> current_thread s"
    and "sch_get n s = Some t" and "t_status t \<noteq> Runnable" and "t_next t = Some k" and "k \<noteq> 0"
    and "sch_get k s = Some u" and "k \<noteq> current_thread s"
  shows "\<exists>s'. sch_schedule s = Inr s' \<and> current_thread s' = k \<and> sch_get k s' = Some u"
proof -
  let ?s1 = "upd_thread (current_thread s) (\<lambda>t. t\<lparr>t_next := None\<rparr>) s"
  have other: "sch_get i ?s1 = sch_get i s" if "i \<noteq> current_thread s" for i
    by (rule sch_get_upd_other) (use that in simp_all)
  have "sch_schedule s = Inr (?s1\<lparr>current_thread := k, deferred := False\<rparr>)"
    using assms by (simp add: sch_schedule_def Let_def other)
  moreover have "sch_get k (?s1\<lparr>current_thread := k, deferred := False\<rparr>) = sch_get k ?s1" by (simp add: sch_get_def)
  ultimately show ?thesis using assms(8) other [OF assms(9)] by simp
qed

definition blocked_chain :: "nat sched" where
  "blocked_chain = two_threads\<lparr>threads := [(new_thread 1)\<lparr>t_next := Some 2\<rparr>, (new_thread 2)\<lparr>t_status := Blocked, t_next := Some 3\<rparr>,
       (new_thread 3)\<lparr>t_status := Ending\<rparr>]\<rparr>"

theorem schedule_runs_unrunnable_witness:
  "\<exists>s'. sch_schedule blocked_chain = Inr s' \<and> current_thread s' = 3 \<and>
     sch_get 3 s' = Some ((new_thread 3)\<lparr>t_status := Ending\<rparr>)"
  by (rule schedule_runs_unrunnable [of _ "(new_thread 1)\<lparr>t_next := Some 2\<rparr>" 2 "(new_thread 2)\<lparr>t_status := Blocked, t_next := Some 3\<rparr>"])
    (simp_all add: blocked_chain_def two_threads_def sch_get_def new_thread_def)

text \<open>
  (C37) The condition an aborting thread waits for is the wrong way round: the thread blocked on it
  stays blocked exactly when the next round of the abort would succeed, and is woken exactly when
  that round has to wait again.
\<close>

theorem abort_waits_for_wrong_condition:
  assumes "sch_get ext_id s = Some t" and "t_abortlevel t \<ge> 0"
    and "t_status a = Blocked" and "t_blockcheck a = Some c" and "bc c = sch_abort_blockcheck ext_id s"
  shows "t_status (wake bc True a) = Blocked \<longleftrightarrow> fst (abort_round ext_id s)"
  using assms by (auto simp: wake_def abort_round_def sch_abort_blockcheck_def)

theorem abort_waits_for_wrong_condition_witness:
  "t_status (wake (\<lambda>c. sch_abort_blockcheck 2 (two_threads\<lparr>threads := [(new_thread 2)\<lparr>t_abortlevel := 0\<rparr>]\<rparr>)) True
     ((new_thread 3)\<lparr>t_status := Blocked, t_blockcheck := Some (7 :: nat)\<rparr>)) = Blocked"
  by (subst abort_waits_for_wrong_condition [of 2 "two_threads\<lparr>threads := [(new_thread 2)\<lparr>t_abortlevel := 0\<rparr>]\<rparr>"
        "(new_thread 2)\<lparr>t_abortlevel := 0\<rparr>" _ 7])
    (simp_all add: sch_get_def new_thread_def abort_round_def)

end
