(* ===== verification/Filesystems.thy ===== *)
theory Filesystems imports Ministl Cstring begin

unbundle bit_operations_syntax

text \<open>
  The file system switch, \<^verbatim>\<open>kernel/filesystems.cpp\<close>: paths, mount points, and the calls that
  go from a handle through its mount point to a driver. A driver is a table of functions, a record
  as in \<^verbatim>\<open>btos/fs_interface.h\<close>; its functions act on a state \<open>'st\<close> of the drivers and may fail
  as any kernel routine may. Strings are without their terminator. \<^verbatim>\<open>fs_close\<close> and
  \<^verbatim>\<open>fs_flush\<close> also act on memory-mapped files and are left out with those. A directory handle
  that is used after the table of mounts has changed is undefined here.
\<close>

section \<open>Interface\<close>

definition FS_Read :: u32 where "FS_Read = 1"

definition FS_Write :: u32 where "FS_Write = 2"

definition FS_Set :: u32 where "FS_Set = 0"

definition FS_Relative :: u32 where "FS_Relative = 1"

definition FS_Backwards :: u32 where "FS_Backwards = 2"

datatype fs_item_types = FS_File | FS_Directory | FS_Link | FS_Device | FS_Invalid

text \<open>
  An untyped pointer of the drivers: null, a constant that is never followed, or the address of an
  object. A directory entry that is not valid is \<open>None\<close>; its other fields are not set.
\<close>

datatype void_ptr = Null | Const u32 | Obj nat

record directory_entry =
  de_id :: u64
  de_filename :: string
  de_size :: u64
  de_type :: fs_item_types

type_synonym fs_path = "string list"

record 'st fs_driver =
  drv_valid :: bool
  drv_name :: string
  needs_device :: bool
  d_mount :: "string option \<Rightarrow> 'st \<Rightarrow> (void_ptr \<times> 'st) kres"
  d_unmount :: "void_ptr \<Rightarrow> 'st \<Rightarrow> (bool \<times> 'st) kres"
  d_open :: "void_ptr \<Rightarrow> fs_path \<Rightarrow> u32 \<Rightarrow> 'st \<Rightarrow> (void_ptr \<times> 'st) kres"
  d_close :: "void_ptr \<Rightarrow> 'st \<Rightarrow> (bool \<times> 'st) kres"
  d_read :: "void_ptr \<Rightarrow> u32 \<Rightarrow> 'st \<Rightarrow> ((u32 \<times> u8 list) \<times> 'st) kres"
  d_write :: "void_ptr \<Rightarrow> u8 list \<Rightarrow> 'st \<Rightarrow> (u32 \<times> 'st) kres"
  d_seek :: "void_ptr \<Rightarrow> u64 \<Rightarrow> u32 \<Rightarrow> 'st \<Rightarrow> (u64 \<times> 'st) kres"
  d_ioctl :: "void_ptr \<Rightarrow> u32 \<Rightarrow> u8 list \<Rightarrow> 'st \<Rightarrow> ((u32 \<times> u8 list) \<times> 'st) kres"
  d_flush :: "void_ptr \<Rightarrow> 'st \<Rightarrow> 'st kres"
  d_open_dir :: "void_ptr \<Rightarrow> fs_path \<Rightarrow> u32 \<Rightarrow> 'st \<Rightarrow> (void_ptr \<times> 'st) kres"
  d_close_dir :: "void_ptr \<Rightarrow> 'st \<Rightarrow> (bool \<times> 'st) kres"
  d_read_dir :: "void_ptr \<Rightarrow> 'st \<Rightarrow> (directory_entry option \<times> 'st) kres"
  d_write_dir :: "void_ptr \<Rightarrow> directory_entry option \<Rightarrow> 'st \<Rightarrow> (bool \<times> 'st) kres"
  d_dirseek :: "void_ptr \<Rightarrow> u32 \<Rightarrow> u32 \<Rightarrow> 'st \<Rightarrow> (u32 \<times> 'st) kres"
  d_stat :: "void_ptr \<Rightarrow> fs_path \<Rightarrow> 'st \<Rightarrow> (directory_entry option \<times> 'st) kres"
  d_format :: "string \<Rightarrow> void_ptr \<Rightarrow> 'st \<Rightarrow> (bool \<times> 'st) kres"

record 'st fs_mountpoint =
  mp_name :: string
  mp_device :: string
  mp_driver :: "'st fs_driver"
  mp_data :: void_ptr

text \<open>
  A file handle has its own copy of the mount point, \<open>None\<close> before it is set and after it is
  deleted. A directory handle points into the table of mounts, whose entries move when the table
  changes; \<open>dh_epoch\<close> is the number of changes when it was opened.
\<close>

record 'st file_handle =
  fh_valid :: bool
  fh_mount :: "('st fs_mountpoint) option"
  fh_data :: void_ptr
  fh_mode :: u32

record 'st dir_handle =
  dh_valid :: bool
  dh_mount :: "('st fs_mountpoint) option"
  dh_epoch :: nat
  dh_data :: void_ptr
  dh_mode :: u32

record 'st fsys =
  fs_mounts :: "(string \<times> 'st fs_mountpoint) list"
  fs_drivers :: "(string \<times> 'st fs_driver) list"
  fs_epoch :: nat
  fs_state :: 'st

section \<open>Paths\<close>

text \<open>
  A path is cut at its separators; empty segments are dropped, and a path without segments is the
  one empty segment. The list of segments is the linked list of the code.
\<close>

fun path_loop :: "string \<Rightarrow> string \<Rightarrow> fs_path \<Rightarrow> string \<times> fs_path" where
  "path_loop [] current_str segs = (current_str, segs)"
| "path_loop (c # upath) current_str segs =
     (if c = CHR ''/'' \<and> current_str \<noteq> [] then path_loop upath [] (segs @ [current_str])
      else if c \<noteq> CHR ''/'' then path_loop upath (current_str @ [c]) segs
      else path_loop upath current_str segs)"

definition new_fs_path :: "string \<Rightarrow> fs_path" where
  "new_fs_path path =
     (let (current_str, segs) = path_loop (to_upper path) [] [];
          segs' = (if current_str \<noteq> [] then segs @ [current_str] else segs)
      in if segs' = [] then [[]] else segs')"

definition mount_name :: "string \<Rightarrow> string" where
  "mount_name path = takeWhile (\<lambda>c. c \<noteq> CHR '':'') (take 8 (to_upper path))"

text \<open>
  The search for the drive separator moves on before it looks, so it never sees the first
  character.
\<close>

fun getfspath :: "string \<Rightarrow> string option" where
  "getfspath [] = None"
| "getfspath [c] = None"
| "getfspath (c # d # rest) = (if d = CHR '':'' then Some rest else getfspath (d # rest))"

section \<open>Drivers and mounts\<close>

definition getfs :: "string \<Rightarrow> 'st fsys \<Rightarrow> ('st fs_driver) option" where
  "getfs name fs = (if map_has_key (fs_drivers fs) name then map_of (fs_drivers fs) name else None)"

definition getmount :: "string \<Rightarrow> 'st fsys \<Rightarrow> ('st fs_mountpoint) option" where
  "getmount name fs = (if map_has_key (fs_mounts fs) name then map_of (fs_mounts fs) name else None)"

definition fs_registerfs :: "'st fs_driver \<Rightarrow> 'st fsys \<Rightarrow> 'st fsys" where
  "fs_registerfs driver fs = fs\<lparr>fs_drivers := map_put (drv_name driver) driver (fs_drivers fs)\<rparr>"

definition getpathmount :: "string \<Rightarrow> 'st fsys \<Rightarrow> ('st fs_mountpoint) option" where
  "getpathmount path fs = getmount (mount_name path) fs"

definition with_state :: "('a \<times> 'st) kres \<Rightarrow> 'st fsys \<Rightarrow> ('a \<times> 'st fsys) kres" where
  "with_state r fs = kbind r (\<lambda>(x, st). Inr (x, fs\<lparr>fs_state := st\<rparr>))"

definition fs_stat :: "string \<Rightarrow> 'st fsys \<Rightarrow> (directory_entry option \<times> 'st fsys) kres" where
  "fs_stat path fs =
     (case getfspath path of
        None \<Rightarrow> Inr (None, fs)
      | Some fspath \<Rightarrow>
          (case getpathmount path fs of
             None \<Rightarrow> Inr (None, fs)
           | Some mount \<Rightarrow> with_state (d_stat (mp_driver mount) (mp_data mount) (new_fs_path fspath) (fs_state fs)) fs))"

text \<open>What \<^verbatim>\<open>fs_mount\<close> does once the device has been found or is not needed.\<close>

definition mount_with :: "'st fs_driver \<Rightarrow> string \<Rightarrow> string option \<Rightarrow> 'st fsys \<Rightarrow> (bool \<times> 'st fsys) kres" where
  "mount_with driver name device fs =
     kbind (d_mount driver device (fs_state fs))
       (\<lambda>(mountdata, st).
          let dev = (case device of Some d \<Rightarrow> d | None \<Rightarrow> ''NULL'');
              mount = \<lparr>mp_name = take 8 name, mp_device = take 254 dev, mp_driver = driver, mp_data = mountdata\<rparr>
          in Inr (True, fs\<lparr>fs_mounts := map_put name mount (fs_mounts fs), fs_epoch := Suc (fs_epoch fs), fs_state := st\<rparr>))"

definition fs_mount :: "string \<Rightarrow> string option \<Rightarrow> string \<Rightarrow> 'st fsys \<Rightarrow> (bool \<times> 'st fsys) kres" where
  "fs_mount name0 device fsname fs =
     (let name = to_upper name0
      in case getfs fsname fs of
           None \<Rightarrow> Inr (False, fs)
         | Some driver \<Rightarrow>
             if \<not> drv_valid driver then Inr (False, fs)
             else if needs_device driver
             then (case device of
                     None \<Rightarrow> Inr (False, fs)
                   | Some d \<Rightarrow>
                       if d = [] then Inr (False, fs)
                       else kbind (fs_stat d fs)
                              (\<lambda>(e, fs1). if e = None then Inr (False, fs1) else mount_with driver name device fs1))
             else mount_with driver name device fs)"

definition fs_unmount :: "string \<Rightarrow> 'st fsys \<Rightarrow> (bool \<times> 'st fsys) kres" where
  "fs_unmount name fs =
     (case getmount name fs of
        None \<Rightarrow> Inr (False, fs)
      | Some mount \<Rightarrow>
          kbind (d_unmount (mp_driver mount) (mp_data mount) (fs_state fs))
            (\<lambda>(r, st). Inr (True, fs\<lparr>fs_mounts := map_erase name (fs_mounts fs), fs_epoch := Suc (fs_epoch fs), fs_state := st\<rparr>)))"

section \<open>Files\<close>

definition invalid_file :: "u32 \<Rightarrow> 'st file_handle" where
  "invalid_file mode = \<lparr>fh_valid = False, fh_mount = None, fh_data = Null, fh_mode = mode\<rparr>"

definition fs_open :: "string \<Rightarrow> u32 \<Rightarrow> 'st fsys \<Rightarrow> ('st file_handle \<times> 'st fsys) kres" where
  "fs_open path mode fs =
     (case getfspath path of
        None \<Rightarrow> Inr (invalid_file mode, fs)
      | Some fspath \<Rightarrow>
          (case getpathmount path fs of
             None \<Rightarrow> Inr (invalid_file mode, fs)
           | Some mount \<Rightarrow>
               kbind (with_state (d_open (mp_driver mount) (mp_data mount) (new_fs_path fspath) mode (fs_state fs)) fs)
                 (\<lambda>(filedata, fs1).
                    if filedata = Null then Inr (invalid_file mode, fs1)
                    else Inr (\<lparr>fh_valid = True, fh_mount = Some mount, fh_data = filedata, fh_mode = mode\<rparr>, fs1))))"

definition on_mount :: "'st file_handle \<Rightarrow> ('st fs_mountpoint \<Rightarrow> 'a kres) \<Rightarrow> 'a kres" where
  "on_mount f g = (case fh_mount f of None \<Rightarrow> Inl Undefined | Some mount \<Rightarrow> g mount)"

definition fs_read :: "'st file_handle \<Rightarrow> u32 \<Rightarrow> 'st fsys \<Rightarrow> ((u32 \<times> u8 list) \<times> 'st fsys) kres" where
  "fs_read f bytes fs =
     (if \<not> fh_valid f \<or> fh_mode f AND FS_Read = 0 then Inr ((0xFFFFFFFF, []), fs)
      else on_mount f (\<lambda>mount. with_state (d_read (mp_driver mount) (fh_data f) bytes (fs_state fs)) fs))"

definition fs_write :: "'st file_handle \<Rightarrow> u8 list \<Rightarrow> 'st fsys \<Rightarrow> (u32 \<times> 'st fsys) kres" where
  "fs_write f buf fs =
     (if \<not> fh_valid f \<or> fh_mode f AND FS_Write = 0 then Inr (0, fs)
      else on_mount f (\<lambda>mount. with_state (d_write (mp_driver mount) (fh_data f) buf (fs_state fs)) fs))"

definition fs_seek :: "'st file_handle \<Rightarrow> u64 \<Rightarrow> u32 \<Rightarrow> 'st fsys \<Rightarrow> (u64 \<times> 'st fsys) kres" where
  "fs_seek f pos flags fs =
     on_mount f (\<lambda>mount. with_state (d_seek (mp_driver mount) (fh_data f) pos flags (fs_state fs)) fs)"

definition fs_ioctl :: "'st file_handle \<Rightarrow> u32 \<Rightarrow> u8 list \<Rightarrow> 'st fsys \<Rightarrow> ((u32 \<times> u8 list) \<times> 'st fsys) kres" where
  "fs_ioctl f fn buf fs =
     (if \<not> fh_valid f then Inr ((0, buf), fs)
      else on_mount f (\<lambda>mount. with_state (d_ioctl (mp_driver mount) (fh_data f) fn buf (fs_state fs)) fs))"

section \<open>Directories\<close>

definition invalid_dir :: "u32 \<Rightarrow> 'st dir_handle" where
  "invalid_dir mode = \<lparr>dh_valid = False, dh_mount = None, dh_epoch = 0, dh_data = Null, dh_mode = mode\<rparr>"

definition fs_open_dir :: "string \<Rightarrow> u32 \<Rightarrow> 'st fsys \<Rightarrow> ('st dir_handle \<times> 'st fsys) kres" where
  "fs_open_dir path mode fs =
     (case getfspath path of
        None \<Rightarrow> Inr (invalid_dir mode, fs)
      | Some fspath \<Rightarrow>
          (case getpathmount path fs of
             None \<Rightarrow> Inr (invalid_dir mode, fs)
           | Some mount \<Rightarrow>
               kbind (with_state (d_open_dir (mp_driver mount) (mp_data mount) (new_fs_path fspath) mode (fs_state fs)) fs)
                 (\<lambda>(dirdata, fs1).
                    if dirdata = Null then Inr (invalid_dir mode, fs1)
                    else Inr (\<lparr>dh_valid = True, dh_mount = Some mount, dh_epoch = fs_epoch fs1, dh_data = dirdata,
                               dh_mode = mode\<rparr>, fs1))))"

definition on_dir_mount :: "'st dir_handle \<Rightarrow> 'st fsys \<Rightarrow> ('st fs_mountpoint \<Rightarrow> 'a kres) \<Rightarrow> 'a kres" where
  "on_dir_mount dir fs g =
     (case dh_mount dir of
        None \<Rightarrow> Inl Undefined
      | Some mount \<Rightarrow> if dh_epoch dir = fs_epoch fs then g mount else Inl Undefined)"

definition fs_close_dir :: "'st dir_handle \<Rightarrow> 'st fsys \<Rightarrow> (bool \<times> 'st dir_handle \<times> 'st fsys) kres" where
  "fs_close_dir dir fs =
     (if \<not> dh_valid dir then Inr (False, dir, fs)
      else on_dir_mount dir fs
             (\<lambda>mount. kbind (with_state (d_close_dir (mp_driver mount) (dh_data dir) (fs_state fs)) fs)
                        (\<lambda>(r, fs1). Inr (r, dir\<lparr>dh_valid := False\<rparr>, fs1))))"

definition fs_read_dir :: "'st dir_handle \<Rightarrow> 'st fsys \<Rightarrow> (directory_entry option \<times> 'st fsys) kres" where
  "fs_read_dir dir fs =
     (if \<not> dh_valid dir \<or> dh_mode dir AND FS_Read = 0 then Inr (None, fs)
      else on_dir_mount dir fs (\<lambda>mount. with_state (d_read_dir (mp_driver mount) (dh_data dir) (fs_state fs)) fs))"

definition fs_write_dir :: "'st dir_handle \<Rightarrow> directory_entry option \<Rightarrow> 'st fsys \<Rightarrow> (bool \<times> 'st fsys) kres" where
  "fs_write_dir dir entry fs =
     (if \<not> dh_valid dir \<or> dh_mode dir AND FS_Write = 0 then Inr (False, fs)
      else on_dir_mount dir fs (\<lambda>mount. with_state (d_write_dir (mp_driver mount) (dh_data dir) entry (fs_state fs)) fs))"

definition fs_seek_dir :: "'st dir_handle \<Rightarrow> u32 \<Rightarrow> u32 \<Rightarrow> 'st fsys \<Rightarrow> (u32 \<times> 'st fsys) kres" where
  "fs_seek_dir dir pos flags fs =
     on_dir_mount dir fs (\<lambda>mount. with_state (d_dirseek (mp_driver mount) (dh_data dir) pos flags (fs_state fs)) fs)"

definition fs_format :: "string \<Rightarrow> string \<Rightarrow> void_ptr \<Rightarrow> 'st fsys \<Rightarrow> (bool \<times> 'st fsys) kres" where
  "fs_format fsname device options fs =
     (case getfs fsname fs of
        None \<Rightarrow> Inr (False, fs)
      | Some driver \<Rightarrow>
          if \<not> drv_valid driver then Inr (False, fs)
          else with_state (d_format driver device options (fs_state fs)) fs)"

section \<open>Paths are cut at the separators\<close>

fun pieces :: "string \<Rightarrow> string list" where
  "pieces [] = [[]]"
| "pieces (c # s) = (if c = CHR ''/'' then [] # pieces s else (c # hd (pieces s)) # tl (pieces s))"

lemma pieces_not_Nil [simp]: "pieces s \<noteq> []"
  by (cases s) simp_all

lemma path_loop_pieces:
  "path_loop s cur segs = (cur', segs') \<Longrightarrow>
     segs' @ (if cur' \<noteq> [] then [cur'] else []) = segs @ filter (\<lambda>p. p \<noteq> []) ((cur @ hd (pieces s)) # tl (pieces s))"
proof (induction s arbitrary: cur segs)
  case (Cons c s)
  obtain p ps where p: "pieces s = p # ps" by (cases "pieces s") simp_all
  consider "c = CHR ''/''" "cur \<noteq> []" | "c \<noteq> CHR ''/''" | "c = CHR ''/''" "cur = []" by blast
  then show ?case
  proof cases
    case 1
    then have "path_loop s [] (segs @ [cur]) = (cur', segs')" using Cons.prems by simp
    from Cons.IH [OF this] show ?thesis using 1 p by simp
  next
    case 2
    then have "path_loop s (cur @ [c]) segs = (cur', segs')" using Cons.prems by simp
    from Cons.IH [OF this] show ?thesis using 2 p by simp
  next
    case 3
    then have "path_loop s [] segs = (cur', segs')" using Cons.prems by simp
    from Cons.IH [OF this] show ?thesis using 3 p by simp
  qed
qed simp

lemma new_fs_path_eq:
  "new_fs_path path =
     (let segs = filter (\<lambda>p. p \<noteq> []) (pieces (to_upper path)) in if segs = [] then [[]] else segs)"
proof -
  obtain cur segs where l: "path_loop (to_upper path) [] [] = (cur, segs)" by fastforce
  obtain p ps where p: "pieces (to_upper path) = p # ps" by (cases "pieces (to_upper path)") simp_all
  have "segs @ (if cur \<noteq> [] then [cur] else []) = filter (\<lambda>p. p \<noteq> []) (pieces (to_upper path))"
    using path_loop_pieces [OF l] p by simp
  moreover have "(if cur \<noteq> [] then segs @ [cur] else segs) = segs @ (if cur \<noteq> [] then [cur] else [])" by simp
  ultimately show ?thesis unfolding new_fs_path_def l by (simp only: Let_def prod.case)
qed

lemma pieces_segment: "CHR ''/'' \<notin> set p \<Longrightarrow> pieces (p @ CHR ''/'' # s) = p # pieces s"
  by (induction p) auto

lemma pieces_single: "CHR ''/'' \<notin> set p \<Longrightarrow> pieces p = [p]"
  by (induction p) auto

section \<open>Names\<close>

lemma of_char_upper:
  "(of_char (upper_char c) :: nat) =
     (if 97 \<le> (of_char c :: nat) \<and> (of_char c :: nat) \<le> 122 then (of_char c :: nat) - 97 + 65 else of_char c)"
  by (auto simp: upper_char_def)

lemma char_eq_code: "c = d \<longleftrightarrow> (of_char c :: nat) = of_char d"
  by simp

lemma upper_char_nul [simp]: "upper_char c = CHR 0x00 \<longleftrightarrow> c = CHR 0x00"
  unfolding char_eq_code of_char_upper by simp

lemma upper_char_idem [simp]: "upper_char (upper_char c) = upper_char c"
  unfolding char_eq_code of_char_upper by auto

lemma upper_char_sep [simp]: "upper_char c = CHR ''/'' \<longleftrightarrow> c = CHR ''/''" "upper_char c = CHR '':'' \<longleftrightarrow> c = CHR '':''"
  unfolding char_eq_code of_char_upper by auto

lemma to_upper_map: "CHR 0x00 \<notin> set s \<Longrightarrow> to_upper s = map upper_char s"
proof -
  assume s: "CHR 0x00 \<notin> set s"
  have "takeWhile (\<lambda>c. c \<noteq> CHR 0x00) (map upper_char s @ [CHR 0x00]) = map upper_char s"
    using s by (subst takeWhile_append2) auto
  moreover have "map upper_char (str_buf s) = map upper_char s @ [CHR 0x00]"
    by (simp add: str_buf_def upper_char_def)
  ultimately show ?thesis by (simp add: to_upper_def c_chars_def)
qed

lemma getfspath_mount:
  "n \<noteq> [] \<Longrightarrow> CHR '':'' \<notin> set n \<Longrightarrow> getfspath (n @ CHR '':'' # r) = Some r"
proof (induction n)
  case (Cons c n)
  then show ?case by (cases n) auto
qed simp

lemma mount_name_of:
  assumes "CHR '':'' \<notin> set n" and "length n \<le> 8" and "CHR 0x00 \<notin> set (n @ CHR '':'' # r)"
  shows "mount_name (n @ CHR '':'' # r) = to_upper n"
proof -
  have u: "to_upper (n @ CHR '':'' # r) = map upper_char n @ upper_char (CHR '':'') # map upper_char r"
    using to_upper_map [OF assms(3)] by simp
  have c: "upper_char (CHR '':'') = CHR '':''" by simp
  have "mount_name (n @ CHR '':'' # r) = takeWhile (\<lambda>c. c \<noteq> CHR '':'') (map upper_char n @ take (8 - length n) (CHR '':'' # map upper_char r))"
    using assms(2) by (simp add: mount_name_def u c)
  also have "\<dots> = map upper_char n"
    using assms(1) by (subst takeWhile_append2) (auto simp: take_Cons split: nat.splits)
  also have "\<dots> = to_upper n" using assms(3) by (simp add: to_upper_map)
  finally show ?thesis .
qed

lemma mount_name_short: "length (mount_name path) \<le> 8"
  unfolding mount_name_def by (rule order_trans [OF length_takeWhile_le]) simp

lemma getmount_map_of: "getmount n fs = map_of (fs_mounts fs) n"
  by (simp add: getmount_def map_has_key_map_of)

lemma mount_with_effect:
  assumes "mount_with driver name device fs = Inr (ok, fs')"
  shows "\<exists>mp. mp_driver mp = driver \<and> fs_mounts fs' = map_put name mp (fs_mounts fs)"
proof -
  obtain md st where m: "d_mount driver device (fs_state fs) = Inr (md, st)"
    using assms unfolding mount_with_def by (auto elim!: kbind_InrE)
  define mp where "mp = \<lparr>mp_name = take 8 name,
      mp_device = take 254 (case device of Some d \<Rightarrow> d | None \<Rightarrow> ''NULL''), mp_driver = driver, mp_data = md\<rparr>"
  have "fs_mounts fs' = map_put name mp (fs_mounts fs)"
    using assms m unfolding mount_with_def mp_def by (auto simp: Let_def)
  moreover have "mp_driver mp = driver" by (simp add: mp_def)
  ultimately show ?thesis by blast
qed

lemma fs_stat_mounts: "fs_stat path fs = Inr (e, fs') \<Longrightarrow> fs_mounts fs' = fs_mounts fs"
  unfolding fs_stat_def with_state_def by (auto simp: kbind_Inr_iff split: option.splits)

lemma fs_mount_effect:
  assumes "fs_mount name device fsname fs = Inr (True, fs')"
  shows "\<exists>driver mp. getfs fsname fs = Some driver \<and> mp_driver mp = driver
    \<and> fs_mounts fs' = map_put (to_upper name) mp (fs_mounts fs)"
proof -
  obtain driver where d: "getfs fsname fs = Some driver"
    using assms unfolding fs_mount_def Let_def by (cases "getfs fsname fs") simp_all
  have "\<exists>fs1. mount_with driver (to_upper name) device fs1 = Inr (True, fs') \<and> fs_mounts fs1 = fs_mounts fs"
    using assms d unfolding fs_mount_def Let_def
    by (auto simp: kbind_Inr_iff split: if_splits option.splits dest: fs_stat_mounts)
  then show ?thesis using d mount_with_effect by metis
qed

section \<open>Properties\<close>

text \<open>
  A path is parsed into the non-empty pieces between its separators, in upper case, whatever
  separators are repeated, leading or trailing; a path with no such piece is one empty segment.
\<close>

theorem path_segments:
  "new_fs_path path =
     (let segs = filter (\<lambda>p. p \<noteq> []) (pieces (to_upper path)) in if segs = [] then [[]] else segs)"
  by (rule new_fs_path_eq)

text \<open>
  (C27) After a successful mount, a path whose drive is the mount's name in any capitalisation
  leads to the new mount point, if the name has at most eight characters; a mount under a longer
  name is unreachable, since no path resolves differently from before.
\<close>

theorem mount_reachable:
  assumes "fs_mount name device fsname fs = Inr (True, fs')"
    and "CHR 0x00 \<notin> set (n @ CHR '':'' # rest)" and "CHR '':'' \<notin> set n" and "n \<noteq> []" and "to_upper n = to_upper name"
  shows "(length n \<le> 8 \<longrightarrow>
            getfspath (n @ CHR '':'' # rest) = Some rest
            \<and> (\<exists>mp. getpathmount (n @ CHR '':'' # rest) fs' = Some mp \<and> getfs fsname fs = Some (mp_driver mp)))
    \<and> (length n > 8 \<longrightarrow> (\<forall>path. getpathmount path fs' = getpathmount path fs))"
proof -
  obtain mp where mp: "getfs fsname fs = Some (mp_driver mp)" "fs_mounts fs' = map_put (to_upper name) mp (fs_mounts fs)"
    using fs_mount_effect [OF assms(1)] by blast
  have g: "getmount k fs' = (if k = to_upper name then Some mp else getmount k fs)" for k
    by (simp add: getmount_map_of mp(2) map_of_put)
  have len: "length (to_upper name) = length n"
    using assms(2) by (simp add: assms(5) [symmetric] to_upper_map)
  have "getpathmount path fs' = getpathmount path fs" if "length n > 8" for path
    using that mount_name_short [of path] len by (auto simp: getpathmount_def g)
  moreover have "getpathmount (n @ CHR '':'' # rest) fs' = Some mp" if "length n \<le> 8"
    using mount_name_of [OF assms(3) that assms(2)] assms(5) by (simp add: getpathmount_def g)
  ultimately show ?thesis using getfspath_mount [OF assms(4,3)] mp(1) by auto
qed

definition empty_driver :: "unit fs_driver" where
  "empty_driver =
     \<lparr>drv_valid = True, drv_name = ''EMPTYFS'', needs_device = False, d_mount = \<lambda>_ st. Inr (Const 1, st),
      d_unmount = \<lambda>_ st. Inr (True, st), d_open = \<lambda>_ _ _ st. Inr (Null, st), d_close = \<lambda>_ st. Inr (True, st),
      d_read = \<lambda>_ _ st. Inr ((0, []), st), d_write = \<lambda>_ _ st. Inr (0, st), d_seek = \<lambda>_ _ _ st. Inr (0, st),
      d_ioctl = \<lambda>_ _ b st. Inr ((0, b), st), d_flush = \<lambda>_ st. Inr st, d_open_dir = \<lambda>_ _ _ st. Inr (Null, st),
      d_close_dir = \<lambda>_ st. Inr (True, st), d_read_dir = \<lambda>_ st. Inr (None, st), d_write_dir = \<lambda>_ _ st. Inr (False, st),
      d_dirseek = \<lambda>_ _ _ st. Inr (0, st), d_stat = \<lambda>_ _ st. Inr (None, st), d_format = \<lambda>_ _ st. Inr (False, st)\<rparr>"

definition one_fs :: "unit fsys" where
  "one_fs = fs_registerfs empty_driver \<lparr>fs_mounts = [], fs_drivers = [], fs_epoch = 0, fs_state = ()\<rparr>"

theorem mount_reachable_witness:
  "\<exists>mp. getpathmount ''Hd0:/a'' (snd (projr (fs_mount ''hd0'' None ''EMPTYFS'' one_fs))) = Some mp
     \<and> getfs ''EMPTYFS'' one_fs = Some (mp_driver mp)"
proof -
  have g: "getfs ''EMPTYFS'' one_fs = Some empty_driver"
    by (simp add: getfs_def one_fs_def fs_registerfs_def empty_driver_def map_has_key_def)
  have "fst (projr (fs_mount ''hd0'' None ''EMPTYFS'' one_fs))" "isl (fs_mount ''hd0'' None ''EMPTYFS'' one_fs) = False"
    by (simp_all add: fs_mount_def g mount_with_def empty_driver_def Let_def)
  then have "fs_mount ''hd0'' None ''EMPTYFS'' one_fs = Inr (True, snd (projr (fs_mount ''hd0'' None ''EMPTYFS'' one_fs)))"
    by (cases "fs_mount ''hd0'' None ''EMPTYFS'' one_fs") auto
  moreover have "to_upper ''Hd0'' = to_upper ''hd0''" by code_simp
  ultimately show ?thesis using mount_reachable [of "''hd0''" None "''EMPTYFS''" one_fs _ "''Hd0''" "''/a''"] by simp
qed

end
