(* ===== verification/Kernel_Fs.thy ===== *)
theory Kernel_Fs imports Filesystems Registries begin

unbundle bit_operations_syntax

text \<open>
  The three file systems that are part of the kernel: the boot archive
  (\<^verbatim>\<open>kernel/initfs.cpp\<close>), the information files (\<^verbatim>\<open>kernel/infofs.cpp\<close>) and the devices
  (\<^verbatim>\<open>kernel/devfs.cpp\<close> on \<^verbatim>\<open>kernel/drivermgr.cpp\<close>). Their handles are objects on the
  heap, reached through untyped pointers; following a pointer to an object of another type, or to a
  deleted one, is undefined. A device driver's functions act on a state \<open>'dev\<close> of the devices. An
  information function is known by its address; \<open>info_text\<close> is the text the function at an
  address returns.
\<close>

section \<open>State\<close>

record initfs_file =
  if_name :: string
  if_data :: u32
  if_size :: u32

record 'dev drv_driver =
  dv_open :: "void_ptr \<Rightarrow> 'dev \<Rightarrow> (void_ptr \<times> 'dev) kres"
  dv_close :: "void_ptr \<Rightarrow> 'dev \<Rightarrow> (bool \<times> 'dev) kres"
  dv_read :: "void_ptr \<Rightarrow> u32 \<Rightarrow> 'dev \<Rightarrow> ((u32 \<times> u8 list) \<times> 'dev) kres"
  dv_write :: "void_ptr \<Rightarrow> u8 list \<Rightarrow> 'dev \<Rightarrow> (u32 \<times> 'dev) kres"
  dv_seek :: "void_ptr \<Rightarrow> u64 \<Rightarrow> u32 \<Rightarrow> 'dev \<Rightarrow> (u64 \<times> 'dev) kres"
  dv_ioctl :: "void_ptr \<Rightarrow> u32 \<Rightarrow> u8 list \<Rightarrow> 'dev \<Rightarrow> ((u32 \<times> u8 list) \<times> 'dev) kres"
  dv_type :: u32
  dv_desc :: "u8 list"

datatype 'dev fs_object =
    Initfs_handle u32 u32
  | Initfs_dirhandle u32
  | Infofs_filehandle u32 u32 "u8 list"
  | Infofs_dirhandle u32
  | Devfs_dirhandle u32
  | Drv_instance "'dev drv_driver" void_ptr

text \<open>
  \<open>kmem\<close> is the kernel's memory, where the boot archive lies; \<open>slot_addr\<close> gives the address of
  a device's entry in the table of devices.
\<close>

record 'dev kfs =
  kmem :: "u32 \<Rightarrow> u8"
  initfs_data :: "(initfs_file list) option"
  info_items :: "((string \<times> u32) list) option"
  kdevices :: "('dev drv_driver, void_ptr) devices"
  slot_addr :: "string \<Rightarrow> u32"
  dev_state :: 'dev
  heap :: "nat \<Rightarrow> ('dev fs_object) option"
  next_obj :: nat

definition new_obj :: "'dev fs_object \<Rightarrow> 'dev kfs \<Rightarrow> void_ptr \<times> 'dev kfs" where
  "new_obj x k = (Obj (next_obj k), k\<lparr>heap := (heap k)(next_obj k \<mapsto> x), next_obj := Suc (next_obj k)\<rparr>)"

definition get_obj :: "void_ptr \<Rightarrow> 'dev kfs \<Rightarrow> ('dev fs_object) kres" where
  "get_obj p k = (case p of Obj a \<Rightarrow> (case heap k a of Some x \<Rightarrow> Inr x | None \<Rightarrow> Inl Undefined) | _ \<Rightarrow> Inl Undefined)"

definition set_obj :: "void_ptr \<Rightarrow> 'dev fs_object \<Rightarrow> 'dev kfs \<Rightarrow> 'dev kfs" where
  "set_obj p x k = (case p of Obj a \<Rightarrow> k\<lparr>heap := (heap k)(a \<mapsto> x)\<rparr> | _ \<Rightarrow> k)"

definition delete_obj :: "void_ptr \<Rightarrow> 'dev kfs \<Rightarrow> 'dev kfs" where
  "delete_obj p k = (case p of Obj a \<Rightarrow> k\<lparr>heap := (heap k)(a := None)\<rparr> | _ \<Rightarrow> k)"

section \<open>The boot archive\<close>

fun oct_skip :: "(u32 \<Rightarrow> u8) \<Rightarrow> nat \<Rightarrow> u32 \<Rightarrow> (nat \<times> u32) option" where
  "oct_skip mem 0 w = Some (0, w)"
| "oct_skip mem (Suc d) w =
     (if mem w = 32 then (if d = 0 then None else oct_skip mem d (w + 1)) else Some (Suc d, w))"

fun oct_scan :: "(u32 \<Rightarrow> u8) \<Rightarrow> nat \<Rightarrow> u32 \<Rightarrow> u32 \<Rightarrow> nat \<times> u32 \<times> u32" where
  "oct_scan mem 0 w value = (0, w, value)"
| "oct_scan mem (Suc d) w value =
     (if 48 \<le> mem w \<and> mem w \<le> 55 then oct_scan mem d (w + 1) (push_bit 3 value OR (ucast (mem w) - 48))
      else (Suc d, w, value))"

definition from_oct :: "nat \<Rightarrow> u32 \<Rightarrow> (u32 \<Rightarrow> u8) \<Rightarrow> u32" where
  "from_oct digs w mem =
     (case oct_skip mem digs w of
        None \<Rightarrow> - 1
      | Some (d, w1) \<Rightarrow>
          (case oct_scan mem d w1 0 of (d', w', value) \<Rightarrow>
             if d' > 0 \<and> mem w' \<noteq> 0 \<and> mem w' \<noteq> 32 then - 1 else value))"

definition tar_size :: "u32 \<Rightarrow> (u32 \<Rightarrow> u8) \<Rightarrow> u32" where
  "tar_size a mem = from_oct 12 a mem"

text \<open>
  A terminated string in memory, and the walk over the archive. The first argument bounds the
  steps: a name without terminator, or a header whose size leads back to itself, never ends.
\<close>

fun read_cstr :: "nat \<Rightarrow> (u32 \<Rightarrow> u8) \<Rightarrow> u32 \<Rightarrow> string kres" where
  "read_cstr 0 mem a = Inl Diverges"
| "read_cstr (Suc fuel) mem a =
     (if mem a = 0 then Inr [] else kbind (read_cstr fuel mem (a + 1)) (\<lambda>s. Inr (char_of (unat (mem a)) # s)))"

definition tar_blocks :: "u32 \<Rightarrow> u32" where
  "tar_blocks sz = (if sz mod 512 \<noteq> 0 then sz div 512 + 1 else sz div 512)"

fun tar_loop :: "nat \<Rightarrow> (u32 \<Rightarrow> u8) \<Rightarrow> u32 \<Rightarrow> u32 \<Rightarrow> initfs_file list \<Rightarrow> (initfs_file list) kres" where
  "tar_loop 0 mem mod_end th files = Inl Diverges"
| "tar_loop (Suc fuel) mem mod_end th files =
     (if th < mod_end
      then (if mem th = 0 then Inr files
            else
              let data = th + 512; sz = tar_size (th + 124) mem
              in kbind (read_cstr (Suc fuel) mem th)
                   (\<lambda>name. tar_loop fuel mem mod_end (data + 512 * tar_blocks sz)
                             (files @ [\<lparr>if_name = name, if_data = data, if_size = sz\<rparr>])))
      else Inr files)"

definition initfs_files :: "'dev kfs \<Rightarrow> (initfs_file list) kres" where
  "initfs_files k = (case initfs_data k of None \<Rightarrow> Inl Undefined | Some fs \<Rightarrow> Inr fs)"

definition initfs_getfilecount :: "'dev kfs \<Rightarrow> u32 kres" where
  "initfs_getfilecount k = kbind (initfs_files k) (\<lambda>fs. Inr (word_of_nat (length fs)))"

definition initfs_getfile :: "u32 \<Rightarrow> 'dev kfs \<Rightarrow> initfs_file kres" where
  "initfs_getfile i k =
     kbind (initfs_files k) (\<lambda>fs. if unat i < length fs then Inr (fs ! unat i) else Inl OutOfBounds)"

definition initfs_mount :: "string option \<Rightarrow> 'dev kfs \<Rightarrow> (void_ptr \<times> 'dev kfs) kres" where
  "initfs_mount dev k = Inr (Const 1, k)"

definition initfs_unmount :: "void_ptr \<Rightarrow> 'dev kfs \<Rightarrow> (bool \<times> 'dev kfs) kres" where
  "initfs_unmount p k = Inr (True, k)"

definition initfs_find :: "string \<Rightarrow> initfs_file list \<Rightarrow> nat option" where
  "initfs_find str fs = List.find (\<lambda>i. to_upper (if_name (fs ! i)) = to_upper str) [0..<length fs]"

definition initfs_open :: "void_ptr \<Rightarrow> fs_path \<Rightarrow> u32 \<Rightarrow> 'dev kfs \<Rightarrow> (void_ptr \<times> 'dev kfs) kres" where
  "initfs_open p path mode k =
     kbind (initfs_files k)
       (\<lambda>fs. case initfs_find (hd path) fs of
               Some i \<Rightarrow> Inr (new_obj (Initfs_handle (word_of_nat i) 0) k)
             | None \<Rightarrow> Inr (Null, k))"

definition initfs_close :: "void_ptr \<Rightarrow> 'dev kfs \<Rightarrow> (bool \<times> 'dev kfs) kres" where
  "initfs_close p k = Inr (True, delete_obj p k)"

function initfs_copy :: "(u32 \<Rightarrow> u8) \<Rightarrow> initfs_file \<Rightarrow> u32 \<Rightarrow> u32 \<Rightarrow> u32 \<Rightarrow> u8 list" where
  "initfs_copy mem f bytes i j =
     (if i < if_size f \<and> j < bytes then mem (if_data f + i) # initfs_copy mem f bytes (i + 1) (j + 1) else [])"
  by pat_completeness auto
termination
proof (relation "measure (\<lambda>(mem, f, bytes, i, j). unat (if_size f) - unat i)")
  fix mem :: "u32 \<Rightarrow> u8" and f :: initfs_file and bytes i j :: u32
  assume "i < if_size f \<and> j < bytes"
  then have "i < if_size f" ..
  then have "unat (i + 1) = Suc (unat i)" and "unat i < unat (if_size f)"
    by (rule unat_next) (simp add: word_less_nat_alt [symmetric] \<open>i < if_size f\<close>)
  then show "((mem, f, bytes, i + 1, j + 1), mem, f, bytes, i, j)
      \<in> measure (\<lambda>(mem, f, bytes, i, j). unat (if_size f) - unat i)"
    by simp
qed simp

declare initfs_copy.simps [simp del]

definition initfs_read :: "void_ptr \<Rightarrow> u32 \<Rightarrow> 'dev kfs \<Rightarrow> ((u32 \<times> u8 list) \<times> 'dev kfs) kres" where
  "initfs_read p bytes k =
     kbind (get_obj p k)
       (\<lambda>x. case x of
          Initfs_handle fileindex pos \<Rightarrow>
            kbind (initfs_getfile fileindex k)
              (\<lambda>f. if pos > if_size f then Inr ((0, []), k)
                   else
                     let bytes' = (if pos + bytes > if_size f then if_size f - pos else bytes);
                         buf = initfs_copy (kmem k) f bytes' pos 0;
                         j = word_of_nat (length buf)
                     in Inr ((j, buf), set_obj p (Initfs_handle fileindex (pos + j)) k))
        | _ \<Rightarrow> Inl Undefined)"

definition initfs_write :: "void_ptr \<Rightarrow> u8 list \<Rightarrow> 'dev kfs \<Rightarrow> (u32 \<times> 'dev kfs) kres" where
  "initfs_write p buf k = Inr (0, k)"

definition initfs_ioctl :: "void_ptr \<Rightarrow> u32 \<Rightarrow> u8 list \<Rightarrow> 'dev kfs \<Rightarrow> ((u32 \<times> u8 list) \<times> 'dev kfs) kres" where
  "initfs_ioctl p fn buf k = Inr ((0, buf), k)"

definition initfs_flush :: "void_ptr \<Rightarrow> 'dev kfs \<Rightarrow> 'dev kfs kres" where
  "initfs_flush p k = Inr k"

definition initfs_open_dir :: "void_ptr \<Rightarrow> fs_path \<Rightarrow> u32 \<Rightarrow> 'dev kfs \<Rightarrow> (void_ptr \<times> 'dev kfs) kres" where
  "initfs_open_dir p path mode k =
     (if tl path \<noteq> [] then Inr (Null, k) else Inr (new_obj (Initfs_dirhandle 0) k))"

definition initfs_close_dir :: "void_ptr \<Rightarrow> 'dev kfs \<Rightarrow> (bool \<times> 'dev kfs) kres" where
  "initfs_close_dir p k = Inr (True, delete_obj p k)"

definition initfs_entry :: "initfs_file \<Rightarrow> directory_entry" where
  "initfs_entry f = \<lparr>de_id = scast (if_data f), de_filename = take 254 (if_name f), de_size = ucast (if_size f), de_type = FS_File\<rparr>"

definition initfs_read_dir :: "void_ptr \<Rightarrow> 'dev kfs \<Rightarrow> (directory_entry option \<times> 'dev kfs) kres" where
  "initfs_read_dir p k =
     kbind (get_obj p k)
       (\<lambda>x. case x of
          Initfs_dirhandle pos \<Rightarrow>
            kbind (initfs_getfilecount k)
              (\<lambda>n. if pos \<ge> n then Inr (None, k)
                   else kbind (initfs_getfile pos k)
                          (\<lambda>f. Inr (Some (initfs_entry f), set_obj p (Initfs_dirhandle (pos + 1)) k)))
        | _ \<Rightarrow> Inl Undefined)"

definition initfs_write_dir :: "void_ptr \<Rightarrow> directory_entry option \<Rightarrow> 'dev kfs \<Rightarrow> (bool \<times> 'dev kfs) kres" where
  "initfs_write_dir p e k = Inr (False, k)"

definition initfs_stat :: "void_ptr \<Rightarrow> fs_path \<Rightarrow> 'dev kfs \<Rightarrow> (directory_entry option \<times> 'dev kfs) kres" where
  "initfs_stat p path k =
     kbind (initfs_files k)
       (\<lambda>fs. if hd path = []
             then Inr (Some \<lparr>de_id = 0, de_filename = [], de_size = word_of_nat (length fs), de_type = FS_Directory\<rparr>, k)
             else case initfs_find (hd path) fs of
                    Some i \<Rightarrow> Inr (Some (initfs_entry (fs ! i)), k)
                  | None \<Rightarrow> Inr (None, k))"

text \<open>
  A 64-bit position is added to the 32-bit one and truncated. The third test of the code can not
  succeed, since the first one covers it.
\<close>

definition seek_pos :: "u32 \<Rightarrow> u32 \<Rightarrow> u32 \<Rightarrow> u64 \<Rightarrow> u32" where
  "seek_pos flags cur sz pos =
     (if flags AND FS_Relative \<noteq> 0 then cur + ucast pos
      else if flags AND FS_Backwards \<noteq> 0 then sz - ucast pos
      else if flags = FS_Backwards OR FS_Relative then cur - ucast pos
      else ucast pos)"

definition initfs_seek :: "void_ptr \<Rightarrow> u64 \<Rightarrow> u32 \<Rightarrow> 'dev kfs \<Rightarrow> (u64 \<times> 'dev kfs) kres" where
  "initfs_seek p pos flags k =
     kbind (get_obj p k)
       (\<lambda>x. case x of
          Initfs_handle fileindex cur \<Rightarrow>
            kbind (if flags AND FS_Relative = 0 \<and> flags AND FS_Backwards \<noteq> 0
                   then kbind (initfs_getfile fileindex k) (\<lambda>f. Inr (if_size f)) else Inr 0)
              (\<lambda>sz. let new = seek_pos flags cur sz pos
                    in Inr (ucast new, set_obj p (Initfs_handle fileindex new) k))
        | _ \<Rightarrow> Inl Undefined)"

definition initfs_dirseek :: "void_ptr \<Rightarrow> u32 \<Rightarrow> u32 \<Rightarrow> 'dev kfs \<Rightarrow> (u32 \<times> 'dev kfs) kres" where
  "initfs_dirseek p pos flags k =
     kbind (get_obj p k)
       (\<lambda>x. case x of
          Initfs_dirhandle cur \<Rightarrow>
            kbind (if flags AND FS_Relative = 0 \<and> flags AND FS_Backwards \<noteq> 0 then initfs_getfilecount k else Inr 0)
              (\<lambda>n. let new = seek_pos flags cur n (ucast pos) in Inr (new, set_obj p (Initfs_dirhandle new) k))
        | _ \<Rightarrow> Inl Undefined)"

definition initfs_format :: "string \<Rightarrow> void_ptr \<Rightarrow> 'dev kfs \<Rightarrow> (bool \<times> 'dev kfs) kres" where
  "initfs_format dev opts k = Inr (False, k)"

definition initfs_driver :: "('dev kfs) fs_driver" where
  "initfs_driver =
     \<lparr>drv_valid = True, drv_name = ''INITFS'', needs_device = False, d_mount = initfs_mount, d_unmount = initfs_unmount,
      d_open = initfs_open, d_close = initfs_close, d_read = initfs_read, d_write = initfs_write, d_seek = initfs_seek,
      d_ioctl = initfs_ioctl, d_flush = initfs_flush, d_open_dir = initfs_open_dir, d_close_dir = initfs_close_dir,
      d_read_dir = initfs_read_dir, d_write_dir = initfs_write_dir, d_dirseek = initfs_dirseek, d_stat = initfs_stat,
      d_format = initfs_format\<rparr>"

text \<open>\<open>archive\<close> is the extent of the first boot module, if there is one.\<close>

definition initfs_getdriver :: "nat \<Rightarrow> (u32 \<times> u32) option \<Rightarrow> 'dev kfs \<Rightarrow> (('dev kfs) fs_driver \<times> 'dev kfs) kres" where
  "initfs_getdriver fuel archive k =
     (if initfs_data k \<noteq> None then Inr (initfs_driver, k)
      else case archive of
             None \<Rightarrow> Inl (Panic ''(INITFS) No tar module loaded!'')
           | Some (mod_start, mod_end) \<Rightarrow>
               kbind (tar_loop fuel (kmem k) mod_end mod_start [])
                 (\<lambda>fs. Inr (initfs_driver, k\<lparr>initfs_data := Some fs\<rparr>)))"

section \<open>Information files\<close>

definition infofs_magic :: void_ptr where "infofs_magic = Const 0x14F0F5"

definition info_list :: "'dev kfs \<Rightarrow> ((string \<times> u32) list) kres" where
  "info_list k = (case info_items k of None \<Rightarrow> Inl Undefined | Some m \<Rightarrow> Inr m)"

definition get_dirindex :: "u32 \<Rightarrow> (string \<times> u32) list \<Rightarrow> string" where
  "get_dirindex idx m = (if unat idx < length m then fst (m ! unat idx) else [])"

definition infofs_mount :: "string option \<Rightarrow> 'dev kfs \<Rightarrow> (void_ptr \<times> 'dev kfs) kres" where
  "infofs_mount dev k = Inr (infofs_magic, k)"

definition infofs_unmount :: "void_ptr \<Rightarrow> 'dev kfs \<Rightarrow> (bool \<times> 'dev kfs) kres" where
  "infofs_unmount p k = Inr (p = infofs_magic, k)"

definition infofs_open :: "(u32 \<Rightarrow> u8 list) \<Rightarrow> void_ptr \<Rightarrow> fs_path \<Rightarrow> u32 \<Rightarrow> 'dev kfs \<Rightarrow> (void_ptr \<times> 'dev kfs) kres" where
  "infofs_open info_text p path mode k =
     (if p \<noteq> infofs_magic then Inr (Null, k)
      else kbind (info_list k)
             (\<lambda>m. case map_of m (hd path) of
                    None \<Rightarrow> Inr (Null, k)
                  | Some fn \<Rightarrow> (let data = info_text fn
                               in Inr (new_obj (Infofs_filehandle 0 (word_of_nat (length data)) data) k))))"

definition infofs_close :: "void_ptr \<Rightarrow> 'dev kfs \<Rightarrow> (bool \<times> 'dev kfs) kres" where
  "infofs_close p k = (if p = Null then Inr (False, k) else Inr (True, delete_obj p k))"

text \<open>
  The sum of position and length is not checked for wrap-around, so a large length reaches the
  copy. The text has its terminator behind it, which a copy may read too.
\<close>

definition infofs_read :: "void_ptr \<Rightarrow> u32 \<Rightarrow> 'dev kfs \<Rightarrow> ((u32 \<times> u8 list) \<times> 'dev kfs) kres" where
  "infofs_read p bytes k =
     (if p = Null then Inr ((0, []), k)
      else kbind (get_obj p k)
        (\<lambda>x. case x of
           Infofs_filehandle pos sz data \<Rightarrow>
             if pos \<ge> sz then Inr ((0, []), k)
             else
               let bytes' = (if pos + bytes \<ge> sz then sz - pos else bytes);
                   block = data @ [0]
               in if unat pos + unat bytes' > length block then Inl OutOfBounds
                  else Inr ((bytes', take (unat bytes') (drop (unat pos) block)),
                            set_obj p (Infofs_filehandle (pos + bytes') sz data) k)
         | _ \<Rightarrow> Inl Undefined))"

definition infofs_write :: "void_ptr \<Rightarrow> u8 list \<Rightarrow> 'dev kfs \<Rightarrow> (u32 \<times> 'dev kfs) kres" where
  "infofs_write p buf k = Inr (0, k)"

definition infofs_seek :: "void_ptr \<Rightarrow> u64 \<Rightarrow> u32 \<Rightarrow> 'dev kfs \<Rightarrow> (u64 \<times> 'dev kfs) kres" where
  "infofs_seek p pos flags k =
     (if p = Null then Inr (0, k)
      else kbind (get_obj p k)
        (\<lambda>x. case x of
           Infofs_filehandle cur sz data \<Rightarrow>
             (let new = (if flags AND FS_Relative \<noteq> 0 then cur + ucast pos
                         else if flags = FS_Backwards then sz - ucast pos
                         else if flags = FS_Relative OR FS_Backwards then cur - ucast pos
                         else ucast pos)
              in Inr (ucast new, set_obj p (Infofs_filehandle new sz data) k))
         | _ \<Rightarrow> Inl Undefined))"

definition infofs_ioctl :: "void_ptr \<Rightarrow> u32 \<Rightarrow> u8 list \<Rightarrow> 'dev kfs \<Rightarrow> ((u32 \<times> u8 list) \<times> 'dev kfs) kres" where
  "infofs_ioctl p fn buf k = Inr ((0, buf), k)"

definition infofs_flush :: "void_ptr \<Rightarrow> 'dev kfs \<Rightarrow> 'dev kfs kres" where
  "infofs_flush p k = Inr k"

definition infofs_open_dir :: "void_ptr \<Rightarrow> fs_path \<Rightarrow> u32 \<Rightarrow> 'dev kfs \<Rightarrow> (void_ptr \<times> 'dev kfs) kres" where
  "infofs_open_dir p path mode k =
     (if p \<noteq> infofs_magic then Inr (Null, k) else Inr (new_obj (Infofs_dirhandle 0) k))"

definition infofs_close_dir :: "void_ptr \<Rightarrow> 'dev kfs \<Rightarrow> (bool \<times> 'dev kfs) kres" where
  "infofs_close_dir p k = (if p = Null then Inr (False, k) else Inr (True, delete_obj p k))"

definition infofs_entry :: "string \<Rightarrow> u32 \<Rightarrow> directory_entry" where
  "infofs_entry name fn = \<lparr>de_id = scast fn, de_filename = take 254 name, de_size = 0, de_type = FS_File\<rparr>"

definition infofs_read_dir :: "void_ptr \<Rightarrow> 'dev kfs \<Rightarrow> (directory_entry option \<times> 'dev kfs) kres" where
  "infofs_read_dir p k =
     (if p = Null then Inr (None, k)
      else kbind (get_obj p k)
        (\<lambda>x. case x of
           Infofs_dirhandle pos \<Rightarrow>
             kbind (info_list k)
               (\<lambda>m. let name = get_dirindex pos m
                    in if name = [] then Inr (None, k)
                       else Inr (Some (infofs_entry name (the (map_of m name))), set_obj p (Infofs_dirhandle (pos + 1)) k))
         | _ \<Rightarrow> Inl Undefined))"

definition infofs_write_dir :: "void_ptr \<Rightarrow> directory_entry option \<Rightarrow> 'dev kfs \<Rightarrow> (bool \<times> 'dev kfs) kres" where
  "infofs_write_dir p e k = Inr (False, k)"

definition infofs_dirseek :: "void_ptr \<Rightarrow> u32 \<Rightarrow> u32 \<Rightarrow> 'dev kfs \<Rightarrow> (u32 \<times> 'dev kfs) kres" where
  "infofs_dirseek p pos flags k =
     (if p = Null then Inr (0, k)
      else kbind (get_obj p k)
        (\<lambda>x. case x of
           Infofs_dirhandle cur \<Rightarrow>
             kbind (if flags AND FS_Relative = 0 \<and> flags AND FS_Backwards \<noteq> 0
                    then kbind (info_list k) (\<lambda>m. Inr (word_of_nat (length m))) else Inr 0)
               (\<lambda>n. let new = seek_pos flags cur n (ucast pos) in Inr (new, set_obj p (Infofs_dirhandle new) k))
         | _ \<Rightarrow> Inl Undefined))"

definition infofs_stat :: "void_ptr \<Rightarrow> fs_path \<Rightarrow> 'dev kfs \<Rightarrow> (directory_entry option \<times> 'dev kfs) kres" where
  "infofs_stat p path k =
     (if tl path = [] \<and> hd path = []
      then Inr (Some \<lparr>de_id = 0, de_filename = ''/'', de_size = 0, de_type = FS_Directory\<rparr>, k)
      else kbind (info_list k)
             (\<lambda>m. case map_of m (hd path) of
                    None \<Rightarrow> Inr (None, k)
                  | Some fn \<Rightarrow> Inr (Some (infofs_entry (hd path) fn), k)))"

definition infofs_format :: "string \<Rightarrow> void_ptr \<Rightarrow> 'dev kfs \<Rightarrow> (bool \<times> 'dev kfs) kres" where
  "infofs_format dev opts k = Inr (False, k)"

definition infofs_driver :: "(u32 \<Rightarrow> u8 list) \<Rightarrow> ('dev kfs) fs_driver" where
  "infofs_driver info_text =
     \<lparr>drv_valid = True, drv_name = ''INFOFS'', needs_device = False, d_mount = infofs_mount, d_unmount = infofs_unmount,
      d_open = infofs_open info_text, d_close = infofs_close, d_read = infofs_read, d_write = infofs_write,
      d_seek = infofs_seek, d_ioctl = infofs_ioctl, d_flush = infofs_flush, d_open_dir = infofs_open_dir,
      d_close_dir = infofs_close_dir, d_read_dir = infofs_read_dir, d_write_dir = infofs_write_dir,
      d_dirseek = infofs_dirseek, d_stat = infofs_stat, d_format = infofs_format\<rparr>"

definition infofs_register :: "string \<Rightarrow> u32 \<Rightarrow> 'dev kfs \<Rightarrow> 'dev kfs" where
  "infofs_register name fn k =
     k\<lparr>info_items := Some (map_put name fn (case info_items k of Some m \<Rightarrow> m | None \<Rightarrow> []))\<rparr>"

text \<open>\<open>info_kernel\<close> and \<open>info_cpu\<close> are the addresses of the two functions it registers.\<close>

definition infofs_init :: "(u32 \<Rightarrow> u8 list) \<Rightarrow> u32 \<Rightarrow> u32 \<Rightarrow> ('dev kfs) fsys \<Rightarrow> (('dev kfs) fsys) kres" where
  "infofs_init info_text info_kernel info_cpu fs =
     (let k = fs_state fs;
          k1 = (if info_items k = None then k\<lparr>info_items := Some []\<rparr> else k)
      in kbind (fs_mount ''INFO'' None ''INFOFS'' (fs_registerfs (infofs_driver info_text) (fs\<lparr>fs_state := k1\<rparr>)))
           (\<lambda>(ok, fs1). Inr (fs1\<lparr>fs_state := infofs_register ''CPUID'' info_cpu
                                      (infofs_register ''VERSION'' info_kernel (fs_state fs1))\<rparr>)))"

section \<open>Devices\<close>

definition on_instance :: "void_ptr \<Rightarrow> 'dev kfs \<Rightarrow> ('dev drv_driver \<Rightarrow> void_ptr \<Rightarrow> 'a kres) \<Rightarrow> 'a kres" where
  "on_instance p k g =
     kbind (get_obj p k) (\<lambda>x. case x of Drv_instance drv inst \<Rightarrow> g drv inst | _ \<Rightarrow> Inl Undefined)"

definition with_dev :: "('a \<times> 'dev) kres \<Rightarrow> 'dev kfs \<Rightarrow> ('a \<times> 'dev kfs) kres" where
  "with_dev r k = kbind r (\<lambda>(x, d). Inr (x, k\<lparr>dev_state := d\<rparr>))"

definition drv_open_instance :: "string \<Rightarrow> 'dev kfs \<Rightarrow> (void_ptr \<times> 'dev kfs) kres" where
  "drv_open_instance name k =
     (case drv_get name (kdevices k) of
        None \<Rightarrow> Inr (Null, k)
      | Some d \<Rightarrow>
          kbind (with_dev (dv_open (driver d) (did d) (dev_state k)) k)
            (\<lambda>(inst, k1). Inr (new_obj (Drv_instance (driver d) inst) k1)))"

definition drv_close :: "void_ptr \<Rightarrow> 'dev kfs \<Rightarrow> (bool \<times> 'dev kfs) kres" where
  "drv_close p k =
     on_instance p k (\<lambda>drv inst.
       kbind (with_dev (dv_close drv inst (dev_state k)) k)
         (\<lambda>(ret, k1). Inr (ret, if ret then delete_obj p k1 else k1)))"

definition drv_read :: "void_ptr \<Rightarrow> u32 \<Rightarrow> 'dev kfs \<Rightarrow> ((u32 \<times> u8 list) \<times> 'dev kfs) kres" where
  "drv_read p bytes k = on_instance p k (\<lambda>drv inst. with_dev (dv_read drv inst bytes (dev_state k)) k)"

definition drv_write :: "void_ptr \<Rightarrow> u8 list \<Rightarrow> 'dev kfs \<Rightarrow> (u32 \<times> 'dev kfs) kres" where
  "drv_write p buf k = on_instance p k (\<lambda>drv inst. with_dev (dv_write drv inst buf (dev_state k)) k)"

definition drv_seek :: "void_ptr \<Rightarrow> u64 \<Rightarrow> u32 \<Rightarrow> 'dev kfs \<Rightarrow> (u64 \<times> 'dev kfs) kres" where
  "drv_seek p pos flags k = on_instance p k (\<lambda>drv inst. with_dev (dv_seek drv inst pos flags (dev_state k)) k)"

definition drv_ioctl :: "void_ptr \<Rightarrow> u32 \<Rightarrow> u8 list \<Rightarrow> 'dev kfs \<Rightarrow> ((u32 \<times> u8 list) \<times> 'dev kfs) kres" where
  "drv_ioctl p fn buf k = on_instance p k (\<lambda>drv inst. with_dev (dv_ioctl drv inst fn buf (dev_state k)) k)"

definition drv_instance_type :: "void_ptr \<Rightarrow> 'dev kfs \<Rightarrow> u32 kres" where
  "drv_instance_type p k = on_instance p k (\<lambda>drv inst. Inr (dv_type drv))"

definition drv_instance_desc :: "void_ptr \<Rightarrow> 'dev kfs \<Rightarrow> (u8 list) kres" where
  "drv_instance_desc p k = on_instance p k (\<lambda>drv inst. Inr (dv_desc drv))"

definition devfs_magic :: void_ptr where "devfs_magic = Const 0xDE7F5"

definition devfs_mount :: "string option \<Rightarrow> 'dev kfs \<Rightarrow> (void_ptr \<times> 'dev kfs) kres" where
  "devfs_mount dev k = Inr (devfs_magic, k)"

definition devfs_unmount :: "void_ptr \<Rightarrow> 'dev kfs \<Rightarrow> (bool \<times> 'dev kfs) kres" where
  "devfs_unmount p k = Inr (p = devfs_magic, k)"

definition devfs_open :: "void_ptr \<Rightarrow> fs_path \<Rightarrow> u32 \<Rightarrow> 'dev kfs \<Rightarrow> (void_ptr \<times> 'dev kfs) kres" where
  "devfs_open p path mode k = drv_open_instance (hd path) k"

definition devfs_close :: "void_ptr \<Rightarrow> 'dev kfs \<Rightarrow> (bool \<times> 'dev kfs) kres" where
  "devfs_close p k = drv_close p k"

definition devfs_read :: "void_ptr \<Rightarrow> u32 \<Rightarrow> 'dev kfs \<Rightarrow> ((u32 \<times> u8 list) \<times> 'dev kfs) kres" where
  "devfs_read p bytes k = drv_read p bytes k"

definition devfs_write :: "void_ptr \<Rightarrow> u8 list \<Rightarrow> 'dev kfs \<Rightarrow> (u32 \<times> 'dev kfs) kres" where
  "devfs_write p buf k = drv_write p buf k"

definition devfs_seek :: "void_ptr \<Rightarrow> u64 \<Rightarrow> u32 \<Rightarrow> 'dev kfs \<Rightarrow> (u64 \<times> 'dev kfs) kres" where
  "devfs_seek p pos flags k = drv_seek p pos flags k"

text \<open>
  The request for a description copies one byte less than the buffer has from the description,
  however short that is; the model lets the copy read the description and its terminator.
\<close>

definition devfs_ioctl :: "void_ptr \<Rightarrow> u32 \<Rightarrow> u8 list \<Rightarrow> 'dev kfs \<Rightarrow> ((u32 \<times> u8 list) \<times> 'dev kfs) kres" where
  "devfs_ioctl p fn buf k =
     (if sint fn < 256 then
        (if fn = 1 then kbind (drv_instance_type p k) (\<lambda>t. Inr ((t, buf), k))
         else if fn = 2 then
           kbind (drv_instance_desc p k)
             (\<lambda>desc. if buf = [] \<or> length buf - 1 > Suc (length desc) then Inl OutOfBounds
                     else Inr ((word_of_nat (length desc), take (length buf - 1) (desc @ [0]) @ [0]), k))
         else Inr ((0, buf), k))
      else drv_ioctl p fn buf k)"

definition devfs_flush :: "void_ptr \<Rightarrow> 'dev kfs \<Rightarrow> 'dev kfs kres" where
  "devfs_flush p k = Inr k"

definition devfs_open_dir :: "void_ptr \<Rightarrow> fs_path \<Rightarrow> u32 \<Rightarrow> 'dev kfs \<Rightarrow> (void_ptr \<times> 'dev kfs) kres" where
  "devfs_open_dir p path mode k = Inr (new_obj (Devfs_dirhandle 0) k)"

definition devfs_close_dir :: "void_ptr \<Rightarrow> 'dev kfs \<Rightarrow> (bool \<times> 'dev kfs) kres" where
  "devfs_close_dir p k = Inr (True, delete_obj p k)"

definition devfs_entry :: "string \<Rightarrow> 'dev kfs \<Rightarrow> directory_entry" where
  "devfs_entry name k = \<lparr>de_id = scast (slot_addr k name), de_filename = take 254 name, de_size = 0, de_type = FS_Device\<rparr>"

text \<open>The walk to the entry of a position; going on past the last device follows a null pointer.\<close>

fun devfs_walk :: "nat \<Rightarrow> (nat \<times> string) option \<Rightarrow> ('d, 'i) devices \<Rightarrow> ((nat \<times> string) option) kres" where
  "devfs_walk 0 cur m = Inr cur"
| "devfs_walk (Suc n) cur m =
     (case cur of None \<Rightarrow> Inl Undefined | Some (i, name) \<Rightarrow> devfs_walk n (drv_nextdevice i m) m)"

definition devfs_read_dir :: "void_ptr \<Rightarrow> 'dev kfs \<Rightarrow> (directory_entry option \<times> 'dev kfs) kres" where
  "devfs_read_dir p k =
     kbind (drv_firstdevice (kdevices k))
       (\<lambda>first. kbind (get_obj p k)
          (\<lambda>x. case x of
             Devfs_dirhandle pos \<Rightarrow>
               kbind (devfs_walk (unat pos) (Some first) (kdevices k))
                 (\<lambda>r. case r of
                    None \<Rightarrow> Inr (None, k)
                  | Some (i, name) \<Rightarrow> Inr (Some (devfs_entry name k), set_obj p (Devfs_dirhandle (pos + 1)) k))
           | _ \<Rightarrow> Inl Undefined))"

definition devfs_write_dir :: "void_ptr \<Rightarrow> directory_entry option \<Rightarrow> 'dev kfs \<Rightarrow> (bool \<times> 'dev kfs) kres" where
  "devfs_write_dir p e k = Inr (False, k)"

text \<open>The count of devices does not count the first one.\<close>

definition devfs_dirseek :: "void_ptr \<Rightarrow> u32 \<Rightarrow> u32 \<Rightarrow> 'dev kfs \<Rightarrow> (u32 \<times> 'dev kfs) kres" where
  "devfs_dirseek p pos flags k =
     kbind (get_obj p k)
       (\<lambda>x. case x of
          Devfs_dirhandle cur \<Rightarrow>
            kbind (if flags AND FS_Relative = 0 \<and> flags AND FS_Backwards \<noteq> 0
                   then kbind (drv_firstdevice (kdevices k)) (\<lambda>_. Inr (word_of_nat (length (kdevices k) - 1))) else Inr 0)
              (\<lambda>n. let new = seek_pos flags cur n (ucast pos) in Inr (new, set_obj p (Devfs_dirhandle new) k))
        | _ \<Rightarrow> Inl Undefined)"

text \<open>The code leaves the id of the root's entry unset; the model has 0 there.\<close>

definition devfs_stat :: "void_ptr \<Rightarrow> fs_path \<Rightarrow> 'dev kfs \<Rightarrow> (directory_entry option \<times> 'dev kfs) kres" where
  "devfs_stat p path k =
     (if tl path = [] \<and> hd path = []
      then Inr (Some \<lparr>de_id = 0, de_filename = ''/'', de_size = 0, de_type = FS_Directory\<rparr>, k)
      else case drv_get (hd path) (kdevices k) of
             None \<Rightarrow> Inr (None, k)
           | Some d \<Rightarrow> Inr (Some (devfs_entry (hd path) k), k))"

definition devfs_format :: "string \<Rightarrow> void_ptr \<Rightarrow> 'dev kfs \<Rightarrow> (bool \<times> 'dev kfs) kres" where
  "devfs_format dev opts k = Inr (False, k)"

definition devfs_driver :: "('dev kfs) fs_driver" where
  "devfs_driver =
     \<lparr>drv_valid = True, drv_name = ''DEVFS'', needs_device = False, d_mount = devfs_mount, d_unmount = devfs_unmount,
      d_open = devfs_open, d_close = devfs_close, d_read = devfs_read, d_write = devfs_write, d_seek = devfs_seek,
      d_ioctl = devfs_ioctl, d_flush = devfs_flush, d_open_dir = devfs_open_dir, d_close_dir = devfs_close_dir,
      d_read_dir = devfs_read_dir, d_write_dir = devfs_write_dir, d_dirseek = devfs_dirseek, d_stat = devfs_stat,
      d_format = devfs_format\<rparr>"

section \<open>Start of the file systems\<close>

text \<open>The loop that lists the root of the boot archive; the first argument bounds its rounds.\<close>

fun list_root :: "nat \<Rightarrow> 'st dir_handle \<Rightarrow> 'st fsys \<Rightarrow> ('st fsys) kres" where
  "list_root 0 dir fs = Inl Diverges"
| "list_root (Suc fuel) dir fs =
     kbind (fs_read_dir dir fs) (\<lambda>(e, fs1). if e = None then Inr fs1 else list_root fuel dir fs1)"

text \<open>\<open>mounts_fn\<close> and \<open>registered_fn\<close> are the addresses of the two information functions.\<close>

definition fs_init :: "nat \<Rightarrow> (u32 \<times> u32) option \<Rightarrow> u32 \<Rightarrow> u32 \<Rightarrow> 'dev kfs \<Rightarrow> (('dev kfs) fsys) kres" where
  "fs_init fuel archive mounts_fn registered_fn k =
     kbind (initfs_getdriver fuel archive k)
       (\<lambda>(drv, k1).
          let fs0 = \<lparr>fs_mounts = [], fs_drivers = [], fs_epoch = 0, fs_state = k1\<rparr>;
              fs1 = fs_registerfs devfs_driver (fs_registerfs drv fs0)
          in kbind (fs_mount ''INIT'' None ''INITFS'' fs1)
               (\<lambda>(_, fs2). kbind (fs_mount ''DEV'' None ''DEVFS'' fs2)
                 (\<lambda>(_, fs3). kbind (fs_stat ''INIT:'' fs3)
                   (\<lambda>(root, fs4).
                      if root = None then Inl (Panic ''(FS) Cannot stat root of INIT:!'')
                      else kbind (fs_open_dir ''INIT:'' FS_Read fs4)
                             (\<lambda>(dir, fs5). kbind (list_root fuel dir fs5)
                               (\<lambda>fs6. kbind (fs_close_dir dir fs6)
                                 (\<lambda>(_, _, fs7). Inr (fs7\<lparr>fs_state :=
                                    infofs_register ''FILESYSTEMS'' registered_fn
                                      (infofs_register ''MOUNTS'' mounts_fn (fs_state fs7))\<rparr>))))))))"

section \<open>Reading as a stream\<close>

text \<open>
  What a file promises its reader: as long as the request is below \<open>2^31\<close> bytes, a read returns
  the next bytes of what is left, at most as many as asked for, and says how many. Reading in
  pieces is then reading at once.
\<close>

primrec read_many :: "(u32 \<Rightarrow> 's \<Rightarrow> ((u32 \<times> u8 list) \<times> 's) kres) \<Rightarrow> u32 list \<Rightarrow> 's \<Rightarrow> (u8 list \<times> 's) kres" where
  "read_many rd [] s = Inr ([], s)"
| "read_many rd (n # ns) s =
     kbind (rd n s) (\<lambda>((cnt, b), s1). kbind (read_many rd ns s1) (\<lambda>(bs, s2). Inr (b @ bs, s2)))"

locale stream_reader =
  fixes rd :: "u32 \<Rightarrow> 's \<Rightarrow> ((u32 \<times> u8 list) \<times> 's) kres"
    and rest :: "'s \<Rightarrow> u8 list"
    and ready :: "'s \<Rightarrow> bool"
  assumes read_next: "ready s \<Longrightarrow> unat n < 2 ^ 31 \<Longrightarrow>
      \<exists>s'. rd n s = Inr ((word_of_nat (length (take (unat n) (rest s))), take (unat n) (rest s)), s')
        \<and> ready s' \<and> rest s' = drop (unat n) (rest s)"
begin

lemma read_many_takes:
  assumes "ready s" and "\<forall>n \<in> set ns. unat n < 2 ^ 31"
  shows "\<exists>s'. read_many rd ns s = Inr (take (sum_list (map unat ns)) (rest s), s')
    \<and> ready s' \<and> rest s' = drop (sum_list (map unat ns)) (rest s)"
  using assms
proof (induction ns arbitrary: s)
  case (Cons n ns)
  obtain s1 where s1: "rd n s = Inr ((word_of_nat (length (take (unat n) (rest s))), take (unat n) (rest s)), s1)"
    "ready s1" "rest s1 = drop (unat n) (rest s)"
    using read_next [OF Cons.prems(1), of n] Cons.prems(2) by auto
  obtain s2 where s2: "read_many rd ns s1 = Inr (take (sum_list (map unat ns)) (rest s1), s2)"
    "ready s2" "rest s2 = drop (sum_list (map unat ns)) (rest s1)"
    using Cons.IH [OF s1(2)] Cons.prems(2) by auto
  show ?case using s1 s2 by (simp add: take_add add.commute)
qed simp

lemma read_to_end:
  assumes "ready s" and "\<forall>n \<in> set ns. unat n < 2 ^ 31" and "length (rest s) \<le> sum_list (map unat ns)"
  shows "\<exists>s'. read_many rd ns s = Inr (rest s, s')"
  using read_many_takes [OF assms(1,2)] assms(3) by auto

end

definition file_bytes :: "(u32 \<Rightarrow> u8) \<Rightarrow> initfs_file \<Rightarrow> u8 list" where
  "file_bytes mem f = map (\<lambda>t. mem (if_data f + word_of_nat t)) [0..<unat (if_size f)]"

lemma initfs_copy_eq:
  "initfs_copy mem f bytes i j = take (unat bytes - unat j) (drop (unat i) (file_bytes mem f))"
proof (induction mem f bytes i j rule: initfs_copy.induct)
  case (1 mem f bytes i j)
  show ?case
  proof (cases "i < if_size f \<and> j < bytes")
    case True
    then have lt: "unat i < unat (if_size f)" "unat j < unat bytes" by (simp_all add: word_less_nat_alt)
    have nx: "unat (i + 1) = Suc (unat i)" "unat (j + 1) = Suc (unat j)" using True unat_next by blast+
    have len: "length (file_bytes mem f) = unat (if_size f)" by (simp add: file_bytes_def)
    have "drop (unat i) (file_bytes mem f) = mem (if_data f + i) # drop (Suc (unat i)) (file_bytes mem f)"
      using lt(1) by (subst Cons_nth_drop_Suc [symmetric]) (simp_all add: file_bytes_def)
    moreover have "unat bytes - unat j = Suc (unat bytes - Suc (unat j))" using lt(2) by simp
    ultimately show ?thesis using 1 True by (simp add: initfs_copy.simps [of mem f bytes i j] nx)
  next
    case False
    then have "unat (if_size f) \<le> unat i \<or> unat bytes \<le> unat j" by (auto simp: word_less_nat_alt)
    then show ?thesis using False by (auto simp: initfs_copy.simps [of mem f bytes i j] file_bytes_def)
  qed
qed

definition initfs_rest :: "void_ptr \<Rightarrow> 'dev kfs \<Rightarrow> u8 list" where
  "initfs_rest p k =
     (case get_obj p k of
        Inr (Initfs_handle i pos) \<Rightarrow> drop (unat pos) (file_bytes (kmem k) (the (initfs_data k) ! unat i))
      | _ \<Rightarrow> [])"

definition initfs_ready :: "void_ptr \<Rightarrow> 'dev kfs \<Rightarrow> bool" where
  "initfs_ready p k \<longleftrightarrow>
     (\<exists>i pos fs. get_obj p k = Inr (Initfs_handle i pos) \<and> initfs_data k = Some fs \<and> unat i < length fs
        \<and> pos \<le> if_size (fs ! unat i))"

lemma get_set_obj: "get_obj p k = Inr x \<Longrightarrow> get_obj p (set_obj p y k) = Inr y"
  by (auto simp: get_obj_def set_obj_def split: void_ptr.splits option.splits)

lemma set_obj_fields [simp]:
  "kmem (set_obj p x k) = kmem k" "initfs_data (set_obj p x k) = initfs_data k"
  by (simp_all add: set_obj_def split: void_ptr.splits)

lemma initfs_read_next:
  assumes "initfs_ready p k"
  shows "\<exists>k'. initfs_read p n k
      = Inr ((word_of_nat (length (take (unat n) (initfs_rest p k))), take (unat n) (initfs_rest p k)), k')
    \<and> initfs_ready p k' \<and> initfs_rest p k' = drop (unat n) (initfs_rest p k)"
proof -
  obtain i pos fs where o: "get_obj p k = Inr (Initfs_handle i pos)" and fs: "initfs_data k = Some fs" "unat i < length fs"
    and le: "pos \<le> if_size (fs ! unat i)"
    using assms unfolding initfs_ready_def by blast
  define f where "f = fs ! unat i"
  define fb where "fb = file_bytes (kmem k) f"
  have rest: "initfs_rest p k = drop (unat pos) fb" by (simp add: initfs_rest_def o fs fb_def f_def)
  have len: "length fb = unat (if_size f)" by (simp add: fb_def file_bytes_def)
  have pl: "unat pos \<le> unat (if_size f)" using le by (simp add: f_def word_le_nat_alt)
  define bytes where "bytes = (if pos + n > if_size f then if_size f - pos else n)"
  have sub: "unat (if_size f - pos) = unat (if_size f) - unat pos" using le unfolding f_def [symmetric] by (rule unat_sub)
  have take_eq: "take (unat bytes) (drop (unat pos) fb) = take (unat n) (drop (unat pos) fb)"
  proof (cases "pos + n > if_size f")
    case True
    have "unat (if_size f) < unat (pos + n)" using True by (simp add: word_less_nat_alt)
    also have "\<dots> \<le> unat pos + unat n" by (simp add: unat_word_ariths(1))
    finally have "unat (if_size f) - unat pos \<le> unat n" by simp
    then show ?thesis using True sub len by (simp add: bytes_def)
  qed (simp add: bytes_def)
  let ?b = "take (unat n) (drop (unat pos) fb)"
  have lb: "length ?b \<le> unat (if_size f) - unat pos" using len by simp
  have big: "length ?b < 2 ^ 32" using lb unsigned_less [of "if_size f", where 'a = nat] by simp
  define pos' where "pos' = pos + word_of_nat (length ?b)"
  have up: "unat pos' = unat pos + length ?b"
  proof -
    have w: "unat (word_of_nat (length ?b) :: u32) = length ?b" using big by (intro unat_word_of_nat) simp
    have "unat pos + length ?b < 2 ^ 32" using lb pl unsigned_less [of "if_size f", where 'a = nat] by simp
    then show ?thesis unfolding pos'_def using w by (subst unat_add_lem [THEN iffD1]) simp_all
  qed
  have len_eq: "min (length fb - unat pos) (unat bytes) = min (length fb - unat pos) (unat n)"
    using arg_cong [OF take_eq, of length] by simp
  have np: "\<not> if_size f < pos" using pl by (simp add: word_less_nat_alt)
  have rd: "initfs_read p n k = Inr ((word_of_nat (length ?b), ?b), set_obj p (Initfs_handle i pos') k)"
    using o fs np take_eq len_eq unfolding initfs_read_def initfs_getfile_def initfs_files_def
    by (simp add: f_def [symmetric] bytes_def [symmetric] Let_def initfs_copy_eq fb_def [symmetric] pos'_def)
  have o': "get_obj p (set_obj p (Initfs_handle i pos') k) = Inr (Initfs_handle i pos')" by (rule get_set_obj [OF o])
  have "pos' \<le> if_size f" using up lb pl by (simp add: word_le_nat_alt)
  then have "initfs_ready p (set_obj p (Initfs_handle i pos') k)" using o' fs by (simp add: initfs_ready_def f_def)
  moreover have "initfs_rest p (set_obj p (Initfs_handle i pos') k) = drop (unat pos') fb"
    by (simp add: initfs_rest_def o' fs fb_def f_def)
  moreover have "drop (unat pos') fb = drop (unat n) (drop (unat pos) fb)"
    using up len by (cases "unat n \<le> length fb - unat pos") (simp_all add: add.commute)
  ultimately show ?thesis using rd rest by auto
qed

interpretation ifs: stream_reader "initfs_read p" "initfs_rest p" "initfs_ready p"
  for p :: void_ptr
  by unfold_locales (rule initfs_read_next)

definition infofs_rest :: "void_ptr \<Rightarrow> 'dev kfs \<Rightarrow> u8 list" where
  "infofs_rest p k = (case get_obj p k of Inr (Infofs_filehandle pos sz data) \<Rightarrow> drop (unat pos) data | _ \<Rightarrow> [])"

definition infofs_ready :: "void_ptr \<Rightarrow> 'dev kfs \<Rightarrow> bool" where
  "infofs_ready p k \<longleftrightarrow>
     (\<exists>pos sz data. get_obj p k = Inr (Infofs_filehandle pos sz data) \<and> sz = word_of_nat (length data) \<and> length data < 2 ^ 31)"

lemma infofs_read_next:
  assumes "infofs_ready p k" and "unat n < 2 ^ 31"
  shows "\<exists>k'. infofs_read p n k
      = Inr ((word_of_nat (length (take (unat n) (infofs_rest p k))), take (unat n) (infofs_rest p k)), k')
    \<and> infofs_ready p k' \<and> infofs_rest p k' = drop (unat n) (infofs_rest p k)"
proof -
  obtain pos sz data where o: "get_obj p k = Inr (Infofs_filehandle pos sz data)" and sz: "sz = word_of_nat (length data)"
    and len: "length data < 2 ^ 31"
    using assms(1) unfolding infofs_ready_def by blast
  have nn: "p \<noteq> Null" using o by (auto simp: get_obj_def)
  have us: "unat sz = length data" unfolding sz using len by (intro unat_word_of_nat) simp
  have rest: "infofs_rest p k = drop (unat pos) data" by (simp add: infofs_rest_def o)
  show ?thesis
  proof (cases "pos \<ge> sz")
    case True
    then have "length data \<le> unat pos" using us by (simp add: word_le_nat_alt)
    moreover have "infofs_read p n k = Inr ((0, []), k)" using nn o True by (simp add: infofs_read_def)
    ultimately show ?thesis using assms(1) rest by simp
  next
    case False
    then have lt: "unat pos < length data" using us by (simp add: not_le word_less_nat_alt)
    have add: "unat (pos + n) = unat pos + unat n" using lt len assms(2) by (intro unat_add_lem [THEN iffD1]) simp
    have sub: "unat (sz - pos) = length data - unat pos" using False us by (simp add: unat_sub not_le less_imp_le)
    define bytes where "bytes = (if pos + n \<ge> sz then sz - pos else n)"
    have ub: "unat bytes = min (length data - unat pos) (unat n)"
      using add sub us lt by (auto simp: bytes_def word_le_nat_alt)
    have "take (unat bytes) (drop (unat pos) (data @ [0])) = take (unat n) (drop (unat pos) data)"
      using lt ub by (cases "unat n \<le> length data - unat pos") (simp_all add: min_def)
    moreover have "word_of_nat (length (take (unat n) (drop (unat pos) data))) = bytes"
      by (simp add: ub [symmetric])
    moreover have "\<not> unat pos + unat bytes > length (data @ [0])" using ub lt by simp
    ultimately have rd: "infofs_read p n k = Inr ((word_of_nat (length (take (unat n) (infofs_rest p k))), take (unat n) (infofs_rest p k)),
        set_obj p (Infofs_filehandle (pos + bytes) sz data) k)"
      using nn o False unfolding infofs_read_def rest by (simp add: bytes_def [symmetric] Let_def)
    have o': "get_obj p (set_obj p (Infofs_filehandle (pos + bytes) sz data) k) = Inr (Infofs_filehandle (pos + bytes) sz data)"
      by (rule get_set_obj [OF o])
    have "unat (pos + bytes) = unat pos + unat bytes" using ub lt len by (intro unat_add_lem [THEN iffD1]) simp
    then have "drop (unat (pos + bytes)) data = drop (unat n) (drop (unat pos) data)"
      using ub lt by (cases "unat n \<le> length data - unat pos") (simp_all add: min_def add.commute)
    then show ?thesis using rd o' sz len rest by (auto simp: infofs_ready_def infofs_rest_def)
  qed
qed

interpretation nfs: stream_reader "infofs_read p" "infofs_rest p" "infofs_ready p"
  for p :: void_ptr
  by unfold_locales (rule infofs_read_next)

text \<open>
  Without the bound on the request the contract fails: a request that wraps around is not cut to
  what is left, and the copy runs out of the text.
\<close>

lemma infofs_read_wraps:
  assumes "get_obj p k = Inr (Infofs_filehandle 1 2 [a, b])"
  shows "infofs_read p 0xFFFFFFFF k = Inl OutOfBounds"
proof -
  have "p \<noteq> Null" using assms by (auto simp: get_obj_def)
  then show ?thesis using assms by (simp add: infofs_read_def word_le_nat_alt)
qed

section \<open>The boot archive is parsed as it was written\<close>

definition oct_digit :: "nat \<Rightarrow> nat \<Rightarrow> u8" where
  "oct_digit n i = 48 + word_of_nat ((n div 8 ^ i) mod 8)"

definition oct_field :: "(u32 \<Rightarrow> u8) \<Rightarrow> u32 \<Rightarrow> nat \<Rightarrow> nat \<Rightarrow> bool" where
  "oct_field mem a d n \<longleftrightarrow> (\<forall>i < d. mem (a + word_of_nat i) = oct_digit n (d - 1 - i)) \<and> mem (a + word_of_nat d) \<in> {0, 32}"

lemma oct_digit_range: "48 \<le> oct_digit n i" "oct_digit n i \<le> 55" "(ucast (oct_digit n i) :: u32) - 48 = word_of_nat ((n div 8 ^ i) mod 8)"
proof -
  let ?x = "(n div 8 ^ i) mod 8"
  have "?x < 8" by simp
  then consider "?x = 0" | "?x = 1" | "?x = 2" | "?x = 3" | "?x = 4" | "?x = 5" | "?x = 6" | "?x = 7" by linarith
  then show "48 \<le> oct_digit n i" "oct_digit n i \<le> 55" "(ucast (oct_digit n i) :: u32) - 48 = word_of_nat ?x"
    unfolding oct_digit_def by (cases; simp)+
qed

lemma push_or: "x < 8 \<Longrightarrow> push_bit 3 v OR word_of_nat x = 8 * v + (word_of_nat x :: u32)"
proof -
  assume x: "x < 8"
  have "push_bit 3 v OR (word_of_nat x :: u32) = push_bit 3 v + word_of_nat x"
  proof (rule disjunctive_add [symmetric])
    fix m
    have "x = take_bit 3 x" using x by (simp add: take_bit_eq_mod)
    then have "\<not> bit x m" if "m \<ge> 3" using that by (metis bit_take_bit_iff not_less)
    then show "\<not> bit (push_bit 3 v) m \<or> \<not> bit (word_of_nat x :: u32) m"
      by (cases "m < 3") (simp_all add: bit_simps)
  qed
  then show ?thesis by (simp add: push_bit_eq_mult mult.commute)
qed

lemma oct_scan_field:
  "oct_field mem a d n \<Longrightarrow>
     oct_scan mem (Suc d) a v = (1, a + word_of_nat d, 8 ^ d * v + word_of_nat (n mod 8 ^ d))"
proof (induction d arbitrary: a v)
  case 0
  then show ?case by (auto simp: oct_field_def)
next
  case (Suc d)
  have f: "oct_field mem (a + 1) d n"
    unfolding oct_field_def
  proof (intro conjI allI impI)
    fix i assume "i < d"
    then have "mem (a + word_of_nat (Suc i)) = oct_digit n (Suc d - 1 - Suc i)"
      using Suc.prems unfolding oct_field_def by (metis Suc_less_eq)
    then show "mem (a + 1 + word_of_nat i) = oct_digit n (d - 1 - i)" by (simp add: add.assoc)
  next
    show "mem (a + 1 + word_of_nat d) \<in> {0, 32}" using Suc.prems by (simp add: oct_field_def add.assoc)
  qed
  have a: "mem a = oct_digit n d" using Suc.prems by (auto simp: oct_field_def dest: spec [of _ 0])
  let ?x = "(n div 8 ^ d) mod 8"
  have "oct_scan mem (Suc (Suc d)) a v = oct_scan mem (Suc d) (a + 1) (8 * v + word_of_nat ?x)"
    using oct_digit_range [of n d] push_or [of ?x v] by (simp add: a)
  also have "\<dots> = (1, a + 1 + word_of_nat d, 8 ^ d * (8 * v + word_of_nat ?x) + word_of_nat (n mod 8 ^ d))"
    by (rule Suc.IH [OF f])
  also have "8 ^ d * (8 * v + word_of_nat ?x) + word_of_nat (n mod 8 ^ d) = 8 ^ Suc d * v + (word_of_nat (n mod 8 ^ Suc d) :: u32)"
  proof -
    have "n mod 8 ^ Suc d = 8 ^ d * ?x + n mod 8 ^ d" by (simp only: power_Suc2 mod_mult2_eq)
    then show ?thesis by (simp add: algebra_simps)
  qed
  finally show ?case by (simp add: add.assoc)
qed

lemma tar_size_field:
  assumes "oct_field mem a 11 n" and "n < 2 ^ 32"
  shows "tar_size a mem = word_of_nat n"
proof -
  have "mem a = oct_digit n 10" using assms(1) by (auto simp: oct_field_def dest: spec [of _ 0])
  then have "mem a \<noteq> 32" using oct_digit_range(1) [of n 10] by auto
  then have "oct_skip mem 12 a = Some (12, a)" using oct_skip.simps(2) [of mem 11 a] by simp
  moreover have "oct_scan mem 12 a 0 = (1, a + 11, word_of_nat n)"
    using oct_scan_field [OF assms(1), of 0] assms(2) by simp
  moreover have "mem (a + 11) \<in> {0, 32}" using assms(1) by (simp add: oct_field_def)
  ultimately show ?thesis by (auto simp: tar_size_def from_oct_def)
qed

text \<open>
  An archive in memory: for each file a header with its name and the octal length, the content from
  the next 512-byte block on, and then the rest; an empty name or the end of the module ends it.
\<close>

fun tar_at :: "(u32 \<Rightarrow> u8) \<Rightarrow> u32 \<Rightarrow> u32 \<Rightarrow> (string \<times> u8 list) list \<Rightarrow> bool" where
  "tar_at mem mod_end a [] \<longleftrightarrow> mem a = 0 \<or> mod_end \<le> a"
| "tar_at mem mod_end a ((n, c) # fs) \<longleftrightarrow>
     a < mod_end \<and> n \<noteq> [] \<and> length n \<le> 99 \<and> CHR 0x00 \<notin> set n
     \<and> (\<forall>i < length n. mem (a + word_of_nat i) = of_char (n ! i)) \<and> mem (a + word_of_nat (length n)) = 0
     \<and> length c < 2 ^ 31 \<and> oct_field mem (a + 124) 11 (length c)
     \<and> (\<forall>i < length c. mem (a + 512 + word_of_nat i) = c ! i)
     \<and> tar_at mem mod_end (a + 512 + 512 * tar_blocks (word_of_nat (length c))) fs"

lemma read_cstr_name:
  assumes "CHR 0x00 \<notin> set n" and "\<forall>i < length n. mem (a + word_of_nat i) = of_char (n ! i)"
    and "mem (a + word_of_nat (length n)) = 0" and "length n < fuel"
  shows "read_cstr fuel mem a = Inr n"
  using assms
proof (induction n arbitrary: a fuel)
  case Nil
  then show ?case by (cases fuel) simp_all
next
  case (Cons c n)
  obtain fuel' where f: "fuel = Suc fuel'" using Cons.prems(4) by (cases fuel) simp_all
  have c0: "mem a = of_char c" using Cons.prems(2) by (auto dest: spec [of _ 0])
  have "c \<noteq> CHR 0x00" using Cons.prems(1) by auto
  then have c1: "(of_char c :: nat) \<noteq> 0" using char_eq_code [of c "CHR 0x00"] by simp
  have "mem a = word_of_nat (of_char c)" using c0 by (simp only: of_nat_of_char)
  then have u: "unat (mem a) = of_char c" by (simp add: unat_word_of_nat nat_of_char_less_256)
  then have nz: "mem a \<noteq> 0" and ch: "char_of (unat (mem a)) = c" using c1 by auto
  have "read_cstr fuel' mem (a + 1) = Inr n"
  proof (rule Cons.IH)
    show "\<forall>i<length n. mem (a + 1 + word_of_nat i) = of_char (n ! i)"
    proof (intro allI impI)
      fix i assume "i < length n"
      then have "mem (a + word_of_nat (Suc i)) = of_char ((c # n) ! Suc i)"
        using Cons.prems(2) by (metis Suc_less_eq length_Cons)
      then show "mem (a + 1 + word_of_nat i) = of_char (n ! i)" by (simp add: add.assoc)
    qed
    show "mem (a + 1 + word_of_nat (length n)) = 0" using Cons.prems(3) by (simp add: add.assoc)
  qed (use Cons.prems(1,4) f in auto)
  then show ?case using f nz ch by simp
qed

definition tar_file :: "(u32 \<Rightarrow> u8) \<Rightarrow> initfs_file \<Rightarrow> string \<times> u8 list" where
  "tar_file mem f = (if_name f, file_bytes mem f)"

lemma tar_loop_parses:
  "tar_at mem mod_end a fs \<Longrightarrow> length fs + 100 \<le> fuel \<Longrightarrow>
     \<exists>gs. tar_loop fuel mem mod_end a acc = Inr (acc @ gs) \<and> map (tar_file mem) gs = fs"
proof (induction fs arbitrary: a acc fuel)
  case Nil
  then obtain fuel' where "fuel = Suc fuel'" by (cases fuel) auto
  then show ?case using Nil by (auto intro: exI [of _ "[]"])
next
  case (Cons nc fs)
  obtain n c where nc: "nc = (n, c)" by fastforce
  obtain fuel' where f: "fuel = Suc fuel'" using Cons.prems(2) by (cases fuel) auto
  let ?sz = "word_of_nat (length c) :: u32" and ?next = "a + 512 + 512 * tar_blocks (word_of_nat (length c))"
  have h: "a < mod_end" "n \<noteq> []" "length n \<le> 99" "CHR 0x00 \<notin> set n"
    "\<forall>i < length n. mem (a + word_of_nat i) = of_char (n ! i)" "mem (a + word_of_nat (length n)) = 0"
    "length c < 2 ^ 31" "oct_field mem (a + 124) 11 (length c)" "\<forall>i < length c. mem (a + 512 + word_of_nat i) = c ! i"
    "tar_at mem mod_end ?next fs"
    using Cons.prems(1) nc by simp_all
  have name: "read_cstr fuel mem a = Inr n"
    by (rule read_cstr_name [OF h(4,5,6)]) (use h(3) Cons.prems(2) in simp)
  have nz: "mem a \<noteq> 0" using name h(2) f by (auto simp: kbind_Inr_iff)
  have sz: "tar_size (a + 124) mem = ?sz" by (rule tar_size_field [OF h(8)]) (use h(7) in simp)
  let ?f = "\<lparr>if_name = n, if_data = a + 512, if_size = ?sz\<rparr>"
  have usz: "unat ?sz = length c" using h(7) by (intro unat_word_of_nat) simp
  have "map (\<lambda>t. mem (a + 512 + word_of_nat t)) [0..<length c] = map (\<lambda>t. c ! t) [0..<length c]"
    using h(9) by (intro map_cong) auto
  then have content: "tar_file mem ?f = (n, c)" by (simp add: tar_file_def file_bytes_def usz map_nth)
  obtain gs where "tar_loop fuel' mem mod_end ?next (acc @ [?f]) = Inr ((acc @ [?f]) @ gs)" "map (tar_file mem) gs = fs"
    using Cons.IH [OF h(10), of fuel' "acc @ [?f]"] Cons.prems(2) f by auto
  then show ?case using f h(1) nz name sz content nc by (intro exI [of _ "?f # gs"]) (simp add: Let_def)
qed

section \<open>From the boot archive to the reader\<close>

definition fs_file_ready :: "('dev kfs) file_handle \<Rightarrow> ('dev kfs) fsys \<Rightarrow> bool" where
  "fs_file_ready f fs \<longleftrightarrow> fh_valid f \<and> fh_mode f AND FS_Read \<noteq> 0
     \<and> (\<exists>mp. fh_mount f = Some mp \<and> mp_driver mp = initfs_driver) \<and> initfs_ready (fh_data f) (fs_state fs)"

lemma fs_read_initfs:
  "fs_file_ready f fs \<Longrightarrow> fs_read f n fs = with_state (initfs_read (fh_data f) n (fs_state fs)) fs"
  by (auto simp: fs_file_ready_def fs_read_def on_mount_def initfs_driver_def)

interpretation ffs: stream_reader "fs_read f" "\<lambda>fs. initfs_rest (fh_data f) (fs_state fs)" "fs_file_ready f"
  for f :: "('dev kfs) file_handle"
proof unfold_locales
  fix fs :: "('dev kfs) fsys" and n :: u32
  assume r: "fs_file_ready f fs"
  let ?t = "take (unat n) (initfs_rest (fh_data f) (fs_state fs))"
  obtain k' where k: "initfs_read (fh_data f) n (fs_state fs) = Inr ((word_of_nat (length ?t), ?t), k')"
    "initfs_ready (fh_data f) k'" "initfs_rest (fh_data f) k' = drop (unat n) (initfs_rest (fh_data f) (fs_state fs))"
    using initfs_read_next r unfolding fs_file_ready_def by blast
  then have "fs_read f n fs = Inr ((word_of_nat (length ?t), ?t), fs\<lparr>fs_state := k'\<rparr>)"
    by (simp add: fs_read_initfs [OF r] with_state_def)
  moreover have "fs_file_ready f (fs\<lparr>fs_state := k'\<rparr>)" using r k(2) by (simp add: fs_file_ready_def)
  ultimately show "\<exists>s'. fs_read f n fs = Inr ((word_of_nat (length ?t), ?t), s') \<and> fs_file_ready f s'
      \<and> initfs_rest (fh_data f) (fs_state s') = drop (unat n) (initfs_rest (fh_data f) (fs_state fs))"
    using k(3) by (intro exI [of _ "fs\<lparr>fs_state := k'\<rparr>"]) simp
qed

definition init_mount :: "('dev kfs) fs_mountpoint" where
  "init_mount = \<lparr>mp_name = ''INIT'', mp_device = ''NULL'', mp_driver = initfs_driver, mp_data = Const 1\<rparr>"

text \<open>What the start of the file systems establishes, and every step after the parse keeps.\<close>

definition booted :: "(u32 \<Rightarrow> u8) \<Rightarrow> initfs_file list \<Rightarrow> ('dev kfs) fsys \<Rightarrow> bool" where
  "booted mem gs fs \<longleftrightarrow> getmount ''INIT'' fs = Some init_mount
     \<and> kmem (fs_state fs) = mem \<and> initfs_data (fs_state fs) = Some gs"

lemma list_root_ends:
  assumes "booted mem gs fs" and "dh_valid d" and "dh_mode d = FS_Read" and "dh_mount d = Some init_mount"
    and "dh_epoch d = fs_epoch fs" and "get_obj (dh_data d) (fs_state fs) = Inr (Initfs_dirhandle pos)"
    and "unat pos \<le> length gs" and "length gs < 2 ^ 31" and "length gs - unat pos < fuel"
  shows "\<exists>fs'. list_root fuel d fs = Inr fs' \<and> booted mem gs fs' \<and> fs_epoch fs' = fs_epoch fs"
  using assms
proof (induction fuel arbitrary: fs pos)
  case (Suc fuel)
  let ?k = "fs_state fs"
  have gs: "initfs_data ?k = Some gs" using Suc.prems(1) by (simp add: booted_def)
  have cnt: "initfs_getfilecount ?k = Inr (word_of_nat (length gs))" by (simp add: initfs_getfilecount_def initfs_files_def gs)
  have ul: "unat (word_of_nat (length gs) :: u32) = length gs" using Suc.prems(8) by (intro unat_word_of_nat) simp
  have rd: "fs_read_dir d fs = with_state (initfs_read_dir (dh_data d) ?k) fs"
    using Suc.prems(2-5) by (simp add: fs_read_dir_def on_dir_mount_def init_mount_def initfs_driver_def FS_Read_def)
  show ?case
  proof (cases "unat pos = length gs")
    case True
    then have "pos \<ge> word_of_nat (length gs)" using ul by (simp add: word_le_nat_alt)
    then have "fs_read_dir d fs = Inr (None, fs)"
      unfolding rd by (simp add: initfs_read_dir_def Suc.prems(6) cnt with_state_def)
    then show ?thesis using Suc.prems(1) by simp
  next
    case False
    then have lt: "unat pos < length gs" using Suc.prems(7) by simp
    then have "\<not> pos \<ge> word_of_nat (length gs)" using ul by (simp add: word_le_nat_alt)
    moreover have "initfs_getfile pos ?k = Inr (gs ! unat pos)" using lt by (simp add: initfs_getfile_def initfs_files_def gs)
    ultimately have step: "fs_read_dir d fs = Inr (Some (initfs_entry (gs ! unat pos)),
        fs\<lparr>fs_state := set_obj (dh_data d) (Initfs_dirhandle (pos + 1)) ?k\<rparr>)" (is "_ = Inr (_, ?fs1)")
      unfolding rd by (simp add: initfs_read_dir_def Suc.prems(6) cnt with_state_def)
    have nx: "unat (pos + 1) = Suc (unat pos)" using lt Suc.prems(8) by (intro unat_next [of _ "word_of_nat (length gs)"]) (simp add: word_less_nat_alt ul)
    have bnd: "unat (pos + 1) \<le> length gs" "length gs - unat (pos + 1) < fuel"
      using lt nx Suc.prems(9) by linarith+
    have "booted mem gs ?fs1" using Suc.prems(1) by (simp add: booted_def getmount_map_of)
    moreover have "get_obj (dh_data d) (fs_state ?fs1) = Inr (Initfs_dirhandle (pos + 1))"
      using get_set_obj [OF Suc.prems(6)] by simp
    ultimately have "\<exists>fs'. list_root fuel d ?fs1 = Inr fs' \<and> booted mem gs fs' \<and> fs_epoch fs' = fs_epoch ?fs1"
      using Suc.prems(2-5,8) bnd by (intro Suc.IH) simp_all
    then show ?thesis using step by simp
  qed
qed simp

lemma to_upper_idem:
  assumes "CHR 0x00 \<notin> set n"
  shows "to_upper (to_upper n) = to_upper n"
proof -
  have "upper_char x \<noteq> CHR 0x00" if "x \<in> set n" for x using that assms by auto
  then have "CHR 0x00 \<notin> set (map upper_char n)" unfolding set_map by (metis imageE)
  then show ?thesis using assms by (simp add: to_upper_map)
qed

lemma new_fs_path_file:
  assumes "CHR 0x00 \<notin> set n" and "CHR ''/'' \<notin> set n" and "n \<noteq> []"
  shows "new_fs_path (CHR ''/'' # n) = [to_upper n]"
proof -
  have u: "to_upper (CHR ''/'' # n) = CHR ''/'' # to_upper n"
    using assms(1) by (simp add: to_upper_map)
  have "upper_char x \<noteq> CHR ''/''" if "x \<in> set n" for x using that assms(2) by auto
  then have "CHR ''/'' \<notin> set (to_upper n)" unfolding to_upper_map [OF assms(1)] set_map by (metis imageE)
  moreover have "to_upper n \<noteq> []" using assms(1,3) by (simp add: to_upper_map)
  ultimately show ?thesis by (simp add: new_fs_path_eq u pieces_single)
qed

lemma init_paths:
  "getfspath ''INIT:'' = Some []" "mount_name ''INIT:'' = ''INIT''" "new_fs_path [] = [[]]"
  "to_upper ''INIT'' = ''INIT''" "to_upper ''DEV'' = ''DEV''"
  by code_simp+

lemma mount_step:
  assumes "getfs fsname fs = Some drv" and "drv_valid drv" and "\<not> needs_device drv" and "to_upper name = name"
    and "d_mount drv None (fs_state fs) = Inr (md, fs_state fs)"
  shows "fs_mount name None fsname fs = Inr (True, fs\<lparr>fs_mounts :=
      map_put name \<lparr>mp_name = take 8 name, mp_device = ''NULL'', mp_driver = drv, mp_data = md\<rparr> (fs_mounts fs),
      fs_epoch := Suc (fs_epoch fs)\<rparr>)"
  using assms by (simp add: fs_mount_def mount_with_def Let_def)

lemma fs_init_boots:
  assumes "tar_at (kmem k) mod_end mod_start files" and "initfs_data k = None"
    and "length files < 2 ^ 31" and "length files + 100 \<le> fuel"
  shows "\<exists>gs fs. fs_init fuel (Some (mod_start, mod_end)) f g k = Inr fs \<and> booted (kmem k) gs fs
    \<and> map (tar_file (kmem k)) gs = files"
proof -
  obtain gs where gs: "tar_loop fuel (kmem k) mod_end mod_start [] = Inr gs" and files: "map (tar_file (kmem k)) gs = files"
    using tar_loop_parses [OF assms(1,4), of "[]"] by auto
  have len: "length gs = length files" using arg_cong [OF files, of length] by simp
  define k1 where "k1 = k\<lparr>initfs_data := Some gs\<rparr>"
  have drv: "initfs_getdriver fuel (Some (mod_start, mod_end)) k = Inr (initfs_driver, k1)"
    using assms(2) gs by (simp add: initfs_getdriver_def k1_def)
  define fs1 :: "('a kfs) fsys" where "fs1 = fs_registerfs devfs_driver (fs_registerfs initfs_driver
      \<lparr>fs_mounts = [], fs_drivers = [], fs_epoch = 0, fs_state = k1\<rparr>)"
  have g1: "getfs ''INITFS'' fs1 = Some initfs_driver" "getfs ''DEVFS'' fs1 = Some devfs_driver"
    by (simp_all add: fs1_def fs_registerfs_def getfs_def map_has_key_def initfs_driver_def devfs_driver_def)
  have st1: "fs_state fs1 = k1" "fs_mounts fs1 = []" "fs_epoch fs1 = 0" by (simp_all add: fs1_def fs_registerfs_def)
  define fs2 where "fs2 = fs1\<lparr>fs_mounts := [(''INIT'', init_mount)], fs_epoch := 1\<rparr>"
  have m1: "fs_mount ''INIT'' None ''INITFS'' fs1 = Inr (True, fs2)"
    using mount_step [OF g1(1), of "''INIT''" "Const 1"] init_paths(4) st1
    by (simp add: initfs_driver_def initfs_mount_def fs2_def init_mount_def)
  have g2: "getfs ''DEVFS'' fs2 = Some devfs_driver" using g1(2) by (simp add: getfs_def fs2_def split: if_splits)
  define dev :: "('a kfs) fs_mountpoint" where "dev = \<lparr>mp_name = ''DEV'', mp_device = ''NULL'', mp_driver = devfs_driver, mp_data = devfs_magic\<rparr>"
  define fs3 where "fs3 = fs2\<lparr>fs_mounts := [(''INIT'', init_mount), (''DEV'', dev)], fs_epoch := 2\<rparr>"
  have m2: "fs_mount ''DEV'' None ''DEVFS'' fs2 = Inr (True, fs3)"
    using mount_step [OF g2, of "''DEV''" devfs_magic] init_paths(5) st1
    by (simp add: devfs_driver_def devfs_mount_def fs3_def fs2_def dev_def numeral_2_eq_2)
  have b3: "booted (kmem k) gs fs3" using st1 by (simp add: booted_def getmount_map_of fs3_def fs2_def k1_def)
  have st3: "fs_state fs3 = k1" using st1 by (simp add: fs3_def fs2_def)
  have pm: "getpathmount ''INIT:'' fs3 = Some init_mount" using b3 by (simp add: getpathmount_def init_paths booted_def)
  have stat: "\<exists>e. fs_stat ''INIT:'' fs3 = Inr (Some e, fs3)"
    using st3 by (simp add: fs_stat_def pm init_paths with_state_def init_mount_def initfs_driver_def initfs_stat_def initfs_files_def k1_def)
  define k4 where "k4 = snd (new_obj (Initfs_dirhandle 0) k1)"
  define d :: "('a kfs) dir_handle" where "d = \<lparr>dh_valid = True, dh_mount = Some init_mount, dh_epoch = fs_epoch fs3, dh_data = Obj (next_obj k1), dh_mode = FS_Read\<rparr>"
  define fs4 where "fs4 = fs3\<lparr>fs_state := k4\<rparr>"
  have od: "fs_open_dir ''INIT:'' FS_Read fs3 = Inr (d, fs4)"
    using st3 by (simp add: fs_open_dir_def pm init_paths with_state_def)
      (simp add: init_mount_def initfs_driver_def initfs_open_dir_def new_obj_def d_def fs4_def k4_def)
  have "\<exists>fs5. list_root fuel d fs4 = Inr fs5 \<and> booted (kmem k) gs fs5 \<and> fs_epoch fs5 = fs_epoch fs4"
  proof (rule list_root_ends [where pos = 0])
    show "booted (kmem k) gs fs4" using b3 st3 by (simp add: booted_def getmount_map_of fs4_def k4_def new_obj_def)
    show "get_obj (dh_data d) (fs_state fs4) = Inr (Initfs_dirhandle 0)"
      by (simp add: d_def fs4_def k4_def new_obj_def get_obj_def)
  qed (use assms(3,4) len in \<open>simp_all add: d_def fs4_def\<close>)
  then obtain fs5 where r: "list_root fuel d fs4 = Inr fs5" "booted (kmem k) gs fs5" "fs_epoch fs5 = fs_epoch fs4" by blast
  define fs6 where "fs6 = fs5\<lparr>fs_state := delete_obj (dh_data d) (fs_state fs5)\<rparr>"
  have cd: "fs_close_dir d fs5 = Inr (True, d\<lparr>dh_valid := False\<rparr>, fs6)"
    using r(3) by (simp add: fs_close_dir_def on_dir_mount_def d_def fs4_def with_state_def)
      (simp add: init_mount_def initfs_driver_def initfs_close_dir_def fs6_def d_def)
  have b6: "booted (kmem k) gs fs6"
    using r(2) by (simp add: booted_def getmount_map_of fs6_def delete_obj_def split: void_ptr.splits)
  let ?fs7 = "fs6\<lparr>fs_state := infofs_register ''FILESYSTEMS'' g (infofs_register ''MOUNTS'' f (fs_state fs6))\<rparr>"
  obtain e where e: "fs_stat ''INIT:'' fs3 = Inr (Some e, fs3)" using stat by blast
  have "fs_init fuel (Some (mod_start, mod_end)) f g k = Inr ?fs7"
    unfolding fs_init_def drv by (simp add: Let_def fs1_def [symmetric] m1 m2 e od r(1) cd)
  moreover have "booted (kmem k) gs ?fs7" using b6 by (simp add: booted_def getmount_map_of infofs_register_def)
  ultimately show ?thesis using files by blast
qed

lemma initfs_find_upper:
  assumes "map_of (map (\<lambda>(m, c). (to_upper m, c)) (map (tar_file mem) gs)) u = Some c" and "to_upper u = u"
  shows "\<exists>i. initfs_find u gs = Some i \<and> i < length gs \<and> file_bytes mem (gs ! i) = c"
proof -
  let ?P = "\<lambda>i. to_upper (if_name (gs ! i)) = u"
  have "map_of (map (\<lambda>(m, c). (to_upper m, c)) (map (tar_file mem) hs)) u
      = map_option (file_bytes mem) (List.find (\<lambda>f. to_upper (if_name f) = u) hs)" for hs
    by (induction hs) (auto simp: tar_file_def)
  with assms(1) obtain f where f: "List.find (\<lambda>f. to_upper (if_name f) = u) gs = Some f" "file_bytes mem f = c"
    by (auto simp: map_option_case split: option.splits)
  from f(1) obtain i where i: "i < length gs" "gs ! i = f" "to_upper (if_name f) = u" "\<forall>j < i. to_upper (if_name (gs ! j)) \<noteq> u"
    by (auto simp: find_Some_iff)
  then have "List.find ?P [0..<length gs] = Some i"
    unfolding find_Some_iff by (intro exI [of _ i]) auto
  then show ?thesis using i f(2) assms(2) by (auto simp: initfs_find_def)
qed

section \<open>Properties\<close>

text \<open>
  (C4) From a boot archive in memory to its reader: the file systems start, and a file of the
  archive opened by its name, in any capitalisation, through the path of the boot mount reads back
  as the bytes that were archived, whatever pieces it is read in.
\<close>

theorem boot_file_read:
  assumes "tar_at (kmem k) mod_end mod_start files" and "initfs_data k = None"
    and "length files < 2 ^ 31" and "length files + 100 \<le> fuel"
    and "n \<noteq> []" and "CHR 0x00 \<notin> set n" and "CHR ''/'' \<notin> set n"
    and "map_of (map (\<lambda>(m, c). (to_upper m, c)) files) (to_upper n) = Some c"
    and "\<forall>s \<in> set sizes. unat s < 2 ^ 31" and "length c \<le> sum_list (map unat sizes)"
  shows "\<exists>fs h fs1 fs2. fs_init fuel (Some (mod_start, mod_end)) f g k = Inr fs
     \<and> fs_open (''INIT:/'' @ n) FS_Read fs = Inr (h, fs1) \<and> read_many (fs_read h) sizes fs1 = Inr (c, fs2)"
proof -
  obtain gs fs where fs: "fs_init fuel (Some (mod_start, mod_end)) f g k = Inr fs" and b: "booted (kmem k) gs fs"
    and files: "map (tar_file (kmem k)) gs = files"
    using fs_init_boots [OF assms(1-4)] by blast
  have idem: "to_upper (to_upper n) = to_upper n" using assms(6) by (rule to_upper_idem)
  obtain i where i: "initfs_find (to_upper n) gs = Some i" "i < length gs" "file_bytes (kmem k) (gs ! i) = c"
    using initfs_find_upper [of "kmem k" gs "to_upper n" c] assms(8) files idem by auto
  have len: "length gs < 2 ^ 31" using assms(3) arg_cong [OF files, of length] by simp
  have ui: "unat (word_of_nat i :: u32) = i" using i(2) len by (intro unat_word_of_nat) simp
  let ?path = "''INIT'' @ CHR '':'' # CHR ''/'' # n" and ?k = "fs_state fs"
  have path: "getfspath ?path = Some (CHR ''/'' # n)" by (rule getfspath_mount) simp_all
  have "mount_name ?path = to_upper ''INIT''" by (rule mount_name_of) (use assms(6) in simp_all)
  then have pm: "getpathmount ?path fs = Some init_mount" using b by (simp add: getpathmount_def booted_def init_paths)
  define p where "p = Obj (next_obj ?k)"
  define k1 where "k1 = snd (new_obj (Initfs_handle (word_of_nat i) 0) ?k)"
  define h :: "('a kfs) file_handle" where "h = \<lparr>fh_valid = True, fh_mount = Some init_mount, fh_data = p, fh_mode = FS_Read\<rparr>"
  have gsd: "initfs_data ?k = Some gs" "kmem ?k = kmem k" using b by (simp_all add: booted_def)
  have "initfs_open (Const 1) [to_upper n] FS_Read ?k = Inr (p, k1)"
    by (simp add: initfs_open_def initfs_files_def gsd i(1) k1_def p_def new_obj_def)
  then have op: "fs_open ?path FS_Read fs = Inr (h, fs\<lparr>fs_state := k1\<rparr>)"
    by (simp only: fs_open_def path pm option.case new_fs_path_file [OF assms(6,7,5)])
      (simp add: init_mount_def initfs_driver_def with_state_def h_def p_def)
  have ob: "get_obj p k1 = Inr (Initfs_handle (word_of_nat i) 0)" by (simp add: get_obj_def p_def k1_def new_obj_def)
  have ik: "initfs_data k1 = Some gs" "kmem k1 = kmem k" using gsd by (simp_all add: k1_def new_obj_def)
  have ready: "fs_file_ready h (fs\<lparr>fs_state := k1\<rparr>)"
    using ob ik i(2) ui by (simp add: fs_file_ready_def h_def init_mount_def FS_Read_def initfs_ready_def)
  have rest: "initfs_rest (fh_data h) (fs_state (fs\<lparr>fs_state := k1\<rparr>)) = c"
    using ob ik i(3) ui by (simp add: initfs_rest_def h_def)
  obtain fs2 where "read_many (fs_read h) sizes (fs\<lparr>fs_state := k1\<rparr>) = Inr (c, fs2)"
    using ffs.read_to_end [OF ready assms(9)] assms(10) unfolding rest by blast
  then show ?thesis using fs op by auto
qed

definition tiny_archive :: "u32 \<Rightarrow> u8" where
  "tiny_archive a =
     (if a = 0x1000 then 97 else if 0x107C \<le> a \<and> a < 0x1086 then 48 else if a = 0x1086 then 50
      else if a = 0x1200 then 7 else if a = 0x1201 then 9 else 0)"

definition tiny_kfs :: "unit kfs" where
  "tiny_kfs = \<lparr>kmem = tiny_archive, initfs_data = None, info_items = None, kdevices = [], slot_addr = \<lambda>_. 0,
     dev_state = (), heap = \<lambda>_. None, next_obj = 0\<rparr>"

lemma tiny_tar: "tar_at tiny_archive 0x2000 0x1000 [(''a'', [7, 9])]"
proof -
  have "tiny_archive (0x107C + word_of_nat i) = oct_digit 2 (10 - i)" if "i < 11" for i
  proof -
    have "i = 0 \<or> i = 1 \<or> i = 2 \<or> i = 3 \<or> i = 4 \<or> i = 5 \<or> i = 6 \<or> i = 7 \<or> i = 8 \<or> i = 9 \<or> i = 10"
      using that by presburger
    then show ?thesis by (elim disjE) (simp_all add: tiny_archive_def oct_digit_def)
  qed
  then have f: "oct_field tiny_archive 0x107C 11 2" by (simp add: oct_field_def tiny_archive_def)
  have "tiny_archive (0x1200 + word_of_nat i) = [7, 9] ! i" if "i < 2" for i
  proof -
    have "i = 0 \<or> i = 1" using that by linarith
    then show ?thesis by (elim disjE) (simp_all add: tiny_archive_def)
  qed
  then have c: "\<forall>i < length [7, 9 :: u8]. tiny_archive (0x1000 + 512 + word_of_nat i) = [7, 9] ! i" by simp
  have b: "tar_blocks 2 = 1" by (simp add: tar_blocks_def word_arith_nat_div word_arith_nat_mod)
  have n: "\<forall>i < length ''a''. tiny_archive (0x1000 + word_of_nat i) = of_char (''a'' ! i)" by (simp add: tiny_archive_def)
  have l: "length [7, 9 :: u8] = 2" by simp
  have m: "tiny_archive (0x1000 + word_of_nat (length ''a'')) = 0" "tiny_archive 0x1400 = 0" "(0x1000 :: u32) < 0x2000"
    by (simp_all add: tiny_archive_def)
  show ?thesis unfolding tar_at.simps l using f c [unfolded l] n m b by simp
qed

theorem boot_file_read_witness:
  "\<exists>fs h fs1 fs2. fs_init 101 (Some (0x1000, 0x2000)) 1 2 tiny_kfs = Inr fs
     \<and> fs_open ''INIT:/A'' FS_Read fs = Inr (h, fs1) \<and> read_many (fs_read h) [1, 5] fs1 = Inr ([7, 9], fs2)"
proof -
  have u: "to_upper ''a'' = ''A''" "to_upper ''A'' = ''A''" by code_simp+
  show ?thesis
    using boot_file_read [where k = tiny_kfs and mod_end = "0x2000" and mod_start = "0x1000" and files = "[(''a'', [7, 9])]"
        and fuel = 101 and n = "''A''" and c = "[7, 9]" and sizes = "[1, 5]" and f = 1 and g = 2] tiny_tar u
    by (simp add: tiny_kfs_def)
qed

end
