(* ===== verification/Address_Space.thy ===== *)
theory Address_Space imports Page_Directory Process begin

unbundle bit_operations_syntax

text \<open>
  Address spaces: the directories of the processes and of the kernel with the switch between them
  (\<^verbatim>\<open>mm2/virtual.cpp\<close>), page faults (\<^verbatim>\<open>mm2/page_faults.cpp\<close>), shared memory
  (\<^verbatim>\<open>mm2/shm.cpp\<close>), and the checks on pointers from user mode with the calls that manage pages
  (\<^verbatim>\<open>kernel/user_api.cpp\<close>). The state is the table of processes extended by the directories, by
  number, and what they share. What the handler of memory-mapped files does to the state is a
  parameter \<open>mmap_pf\<close>.
\<close>

section \<open>State\<close>

text \<open>
  A space is named by its id, which is never used again, in place of its address; following the
  pointer of a mapping to a closed space is undefined.
\<close>

definition shm_ReadOnly :: u32 where "shm_ReadOnly = 1"

record shm_space =
  sp_pages :: "(u32 \<times> page_ref) list"
  sp_flags :: u32
  sp_owner :: pid_t

record shm_mapping =
  sm_space :: u64
  sm_addr :: u32
  sm_offset :: u32
  sm_pages :: nat
  sm_flags :: u32

record vsys = psys +
  dirs :: "nat \<Rightarrow> pdir"
  kernel_dir :: nat
  mm :: mmstate
  spaces :: "(u64 \<times> shm_space) list"
  mappings :: "(u64 \<times> shm_mapping) list"
  space_id_counter :: u64
  mapping_id_counter :: u64

definition put_dir :: "nat \<Rightarrow> pdir \<times> mmstate \<Rightarrow> vsys \<Rightarrow> vsys" where
  "put_dir i dm s = s\<lparr>dirs := (dirs s)(i := fst dm), mm := snd dm\<rparr>"

definition on_dir :: "nat \<Rightarrow> (pdir \<Rightarrow> mmstate \<Rightarrow> (pdir \<times> mmstate) kres) \<Rightarrow> vsys \<Rightarrow> vsys kres" where
  "on_dir i f s = kbind (f (dirs s i) (mm s)) (\<lambda>dm. Inr (put_dir i dm s))"

section \<open>Start of virtual memory\<close>

definition div_ceil :: "u32 \<Rightarrow> u32 \<Rightarrow> u32" where
  "div_ceil num den = (if num mod den \<noteq> 0 then num div den + 1 else num div den)"

definition idmap_page :: "u32 list \<Rightarrow> nat \<Rightarrow> mmstate \<Rightarrow> mmstate kres" where
  "idmap_page tables pageno m =
     (let table = (tables ! (pageno div MM2_Table_Entries) AND MM2_Address_Mask);
          addr = word_of_nat pageno * MM2_Page_Size;
          row = (frames m table)[pageno mod MM2_Table_Entries := addr OR PF_Present OR PF_Writable]
      in kbind (physical_mark_used addr (pm m)) (\<lambda>pm'. Inr (m\<lparr>frames := (frames m)(table := row), pm := pm'\<rparr>)))"

fun idmap_pages :: "u32 list \<Rightarrow> nat \<Rightarrow> nat \<Rightarrow> mmstate \<Rightarrow> mmstate kres" where
  "idmap_pages tables page 0 m = Inr m"
| "idmap_pages tables page (Suc n) m = kbind (idmap_page tables page m) (\<lambda>m'. idmap_pages tables (Suc page) n m')"

definition pages_to_idmap :: "mmstate \<Rightarrow> u32" where
  "pages_to_idmap m = div_ceil (end_of_kernel (pm m)) MM2_Page_Size"

text \<open>
  Allocating a table moves the end of the kernel, so the number of tables is computed anew each
  round; the first argument bounds the rounds.
\<close>

fun alloc_tables :: "nat \<Rightarrow> u32 \<Rightarrow> u32 list \<Rightarrow> mmstate \<Rightarrow> (u32 list \<times> mmstate) kres" where
  "alloc_tables 0 allocated tables m = Inl Diverges"
| "alloc_tables (Suc fuel) allocated tables m =
     (if allocated < div_ceil (pages_to_idmap m) (word_of_nat MM2_Table_Entries)
      then (case mm2_init_page_alloc (pm m) of (table_address, pm') \<Rightarrow>
              if unat allocated \<ge> length tables then Inl OutOfBounds
              else alloc_tables fuel (allocated + 1)
                     (tables[unat allocated := table_address OR PF_Present OR PF_Writable])
                     (m\<lparr>pm := pm', frames := (frames m)(table_address := replicate MM2_Table_Entries 0)\<rparr>))
      else Inr (tables, m))"

definition mm2_virtual_init :: "nat \<Rightarrow> u32 \<Rightarrow> mmstate \<Rightarrow> (pdir \<times> mmstate) kres" where
  "mm2_virtual_init fuel kpd_addr m =
     kbind (alloc_tables fuel 0 (replicate MM2_Table_Entries 0) m)
       (\<lambda>(tables, m1). kbind (idmap_pages tables 1 (unat (pages_to_idmap m1) - 1) m1)
         (\<lambda>m2. kbind (guard_page_at 0 (pdir_boot tables kpd_addr) m2)
           (\<lambda>(d, m3). Inr (kernel_pagedir_late_init d m3))))"

section \<open>The current directory\<close>

definition mm2_virtual_alloc :: "nat \<Rightarrow> u32 \<Rightarrow> vsys \<Rightarrow> (u32 \<times> vsys) kres" where
  "mm2_virtual_alloc pages mode s =
     kbind (pd_alloc pages mode (dirs s (active_dir s)) (mm s))
       (\<lambda>(a, d, m). Inr (a, put_dir (active_dir s) (d, m) s))"

definition mm2_virtual_free :: "u32 \<Rightarrow> nat \<Rightarrow> vsys \<Rightarrow> vsys kres" where
  "mm2_virtual_free ptr pages s = on_dir (active_dir s) (pd_free_pages ptr pages) s"

fun map_physical_loop :: "nat \<Rightarrow> u32 \<Rightarrow> u32 \<Rightarrow> vsys \<Rightarrow> vsys kres" where
  "map_physical_loop 0 phys_addr virt_addr s = Inr s"
| "map_physical_loop (Suc n) phys_addr virt_addr s =
     kbind (physical_get_io_page phys_addr (pm (mm s)))
       (\<lambda>(page, pm'). kbind (on_dir (active_dir s) (pd_free_pages virt_addr 1) (s\<lparr>mm := (mm s)\<lparr>pm := pm'\<rparr>\<rparr>))
         (\<lambda>s1. kbind (on_dir (active_dir s1)
                  (\<lambda>d m. map_phys_at virt_addr (page_at page (pm m)) (PF_Present OR PF_Writable OR PF_NoCache) d m) s1)
           (map_physical_loop n (phys_addr + MM2_Page_Size) (virt_addr + MM2_Page_Size))))"

definition mm2_map_physical :: "u32 \<Rightarrow> nat \<Rightarrow> vsys \<Rightarrow> (u32 \<times> vsys) kres" where
  "mm2_map_physical addr pages s =
     kbind (mm2_virtual_alloc pages Mode_Kernel s)
       (\<lambda>(vaddr, s1). kbind (map_physical_loop pages addr vaddr s1) (\<lambda>s2. Inr (vaddr, s2)))"

definition mm2_switch :: "nat \<Rightarrow> vsys \<Rightarrow> vsys kres" where
  "mm2_switch newdir s =
     (let k = copy_kernelspace (dirs s (active_dir s)) (dirs s (kernel_dir s));
          ds = (dirs s)(kernel_dir s := k);
          d = copy_kernelspace k (ds newdir)
      in if directory_physical d = 0 then Inl (Panic ''(MM2) Page directory is NULL!'')
         else Inr (s\<lparr>dirs := ds(newdir := d), active_dir := newdir\<rparr>))"

text \<open>
  The switch of the process table names the new directory; here the switch of address spaces is
  carried out.
\<close>

definition vm_proc_switch :: "pid_t \<Rightarrow> vsys \<Rightarrow> (bool \<times> vsys) kres" where
  "vm_proc_switch pid s =
     kbind (proc_switch pid s)
       (\<lambda>(ok, s1). if ok \<and> pid \<noteq> proc_current_pid s
                   then kbind (mm2_switch (active_dir s1) (s1\<lparr>active_dir := active_dir s\<rparr>)) (\<lambda>s2. Inr (True, s2))
                   else Inr (ok, s1))"

definition new_pagedir :: "(nat \<times> nat) list \<Rightarrow> nat \<Rightarrow> vsys \<Rightarrow> vsys kres" where
  "new_pagedir junk i s =
     kbind (mm2_virtual_alloc 1 Mode_Kernel s)
       (\<lambda>(a, s1). case virt2phys a (dirs s1 (active_dir s1)) (mm s1) of (phys, d, m) \<Rightarrow>
          (let s2 = put_dir (active_dir s1) (d, m) s1
           in Inr (s2\<lparr>dirs := (dirs s2)(i := pdir_fresh junk a phys)\<rparr>)))"

definition delete_pagedir :: "nat \<Rightarrow> vsys \<Rightarrow> vsys kres" where
  "delete_pagedir i s =
     (if i = active_dir s then Inl (Panic ''(MM2) Attempt to delete current page directory!'')
      else kbind (on_dir i (free_tables (MM2_Table_Entries - MM2_Kernel_Tables) MM2_Kernel_Tables) s)
             (\<lambda>s1. mm2_virtual_free (directory_addr (dirs s1 i)) 1 s1))"

section \<open>Shared memory\<close>

definition shm_create :: "u32 \<Rightarrow> vsys \<Rightarrow> u64 \<times> vsys" where
  "shm_create flags s =
     (let ident = space_id_counter s + 1
      in (ident, s\<lparr>space_id_counter := ident,
            spaces := map_put ident \<lparr>sp_pages = [], sp_flags = flags, sp_owner = proc_current_pid s\<rparr> (spaces s)\<rparr>))"

text \<open>The number of rounds of a loop over the pages from an address to an end that may wrap around.\<close>

definition page_steps :: "u32 \<Rightarrow> nat \<Rightarrow> nat" where
  "page_steps addr pages =
     (let e = addr + word_of_nat pages * MM2_Page_Size in if addr < e then (unat (e - addr) + 4095) div 4096 else 0)"

definition shm_close_map :: "u64 \<Rightarrow> vsys \<Rightarrow> vsys kres" where
  "shm_close_map ident s =
     (case map_of (mappings s) ident of
        None \<Rightarrow> Inr s
      | Some mp \<Rightarrow>
          kbind (remove_region (sm_addr mp) (dirs s (active_dir s)))
            (\<lambda>d. kbind (on_dir (active_dir s)
                   (map_run (page_steps (sm_addr mp) (sm_pages mp)) (sm_addr mp) (PF_Present OR PF_Writable OR PF_Usermode))
                   (s\<lparr>dirs := (dirs s)(active_dir s := d)\<rparr>))
              (\<lambda>s1. Inr (s1\<lparr>mappings := map_erase ident (mappings s1)\<rparr>))))"

text \<open>The loop over the mappings of a space ends after its first round, so one of them is closed.\<close>

definition shm_close :: "u64 \<Rightarrow> vsys \<Rightarrow> vsys kres" where
  "shm_close ident s =
     (case map_of (spaces s) ident of
        None \<Rightarrow> Inl Undefined
      | Some sp \<Rightarrow>
          kbind (case List.find (\<lambda>im. sm_space (snd im) = ident) (mappings s) of
                   Some im \<Rightarrow> shm_close_map (fst im) s
                 | None \<Rightarrow> Inr s)
            (\<lambda>s1. Inr (s1\<lparr>mm := (mm s1)\<lparr>pm := fold (\<lambda>ap. physical_free_page (snd ap)) (sp_pages sp) (pm (mm s1))\<rparr>,
                         spaces := map_erase ident (spaces s1)\<rparr>)))"

text \<open>
  The page of a mapping that faulted: shared pages are made when they are first touched. The flags
  are computed from the space's and the mapping's, and then the page is mapped with other ones.
\<close>

definition shm_pageflags :: "pid_t \<Rightarrow> shm_space \<Rightarrow> shm_mapping \<Rightarrow> u32" where
  "shm_pageflags cur sp mp =
     (if (sp_owner sp = cur \<or> sp_flags sp AND shm_ReadOnly = 0) \<and> sm_flags mp AND shm_ReadOnly = 0
      then PF_Present OR PF_Usermode OR PF_Writable else PF_Present OR PF_Usermode)"

definition shm_pf_handler :: "u64 \<Rightarrow> u32 \<Rightarrow> vsys \<Rightarrow> vsys kres" where
  "shm_pf_handler ident addr s =
     (case map_of (mappings s) ident of
        None \<Rightarrow> Inl (Panic ''(MM2) Invalid mapping!'')
      | Some mp \<Rightarrow>
          (case map_of (spaces s) (sm_space mp) of
             None \<Rightarrow> Inl Undefined
           | Some sp \<Rightarrow>
               (let page_addr = (((addr - sm_addr mp) + sm_offset mp) AND MM2_Address_Mask)
                in kbind (case map_of (sp_pages sp) page_addr of
                            Some page \<Rightarrow> Inr (page, s)
                          | None \<Rightarrow>
                              kbind (physical_alloc 0xFFFFFFFF (pm (mm s)))
                                (\<lambda>(i, pm'). Inr (RamPage (unat i), s\<lparr>mm := (mm s)\<lparr>pm := pm'\<rparr>,
                                   spaces := map_put (sm_space mp)
                                     (sp\<lparr>sp_pages := map_put page_addr (RamPage (unat i)) (sp_pages sp)\<rparr>) (spaces s)\<rparr>)))
                     (\<lambda>(page, s1). on_dir (active_dir s1)
                        (\<lambda>d m. map_phys_at (addr AND MM2_Address_Mask) (page_at page (pm m))
                                 (PF_Present OR PF_Writable OR PF_Usermode) d m) s1))))"

fun guard_run :: "nat \<Rightarrow> u32 \<Rightarrow> pdir \<Rightarrow> mmstate \<Rightarrow> (pdir \<times> mmstate) kres" where
  "guard_run 0 a d m = Inr (d, m)"
| "guard_run (Suc n) a d m = kbind (guard_page_at a d m) (\<lambda>(d', m'). guard_run n (a + MM2_Page_Size) d' m')"

text \<open>The flags are not stored: the field keeps the 0 that a new mapping is filled with.\<close>

definition shm_map :: "u64 \<Rightarrow> u32 \<Rightarrow> u32 \<Rightarrow> nat \<Rightarrow> u32 \<Rightarrow> vsys \<Rightarrow> (u64 \<times> vsys) kres" where
  "shm_map ident addr offset pages flags s =
     (if \<not> map_has_key (spaces s) ident then Inr (0, s)
      else if addr mod MM2_Page_Size \<noteq> 0 then Inr (0, s)
      else if offset mod MM2_Page_Size \<noteq> 0 then Inr (0, s)
      else
        let ret = mapping_id_counter s + 1
        in kbind (on_dir (active_dir s) (pd_free_pages addr pages) (s\<lparr>mapping_id_counter := ret\<rparr>))
             (\<lambda>s1. kbind (on_dir (active_dir s1) (guard_run (page_steps addr pages) addr) s1)
               (\<lambda>s2. kbind (add_region addr (word_of_nat pages * MM2_Page_Size) Shm_pf_handler ret (dirs s2 (active_dir s2)))
                 (\<lambda>d. Inr (ret, s2\<lparr>dirs := (dirs s2)(active_dir s2 := d),
                        mappings := map_put ret \<lparr>sm_space = ident, sm_addr = addr, sm_offset = offset, sm_pages = pages,
                                                 sm_flags = 0\<rparr> (mappings s2)\<rparr>)))))"

definition init_shm :: "vsys \<Rightarrow> vsys" where
  "init_shm s = s\<lparr>spaces := [], mappings := []\<rparr>"

section \<open>Page faults\<close>

definition handle_pf :: "(u64 \<Rightarrow> u32 \<Rightarrow> vsys \<Rightarrow> vsys kres) \<Rightarrow> nat \<Rightarrow> u32 \<Rightarrow> vsys \<Rightarrow> (bool \<times> vsys) kres" where
  "handle_pf mmap_pf i addr s =
     (case is_mapped addr (dirs s i) (mm s) of (mapped, dm) \<Rightarrow>
        (let s1 = put_dir i dm s
         in if mapped then Inr (False, s1)
            else case find_region addr (dirs s1 i) of
                   None \<Rightarrow> Inr (False, s1)
                 | Some r \<Rightarrow>
                     kbind (case pf_handle r of
                              Shm_pf_handler \<Rightarrow> shm_pf_handler (rid r) addr s1
                            | Mmap_read \<Rightarrow> mmap_pf (rid r) addr s1)
                       (\<lambda>s2. Inr (True, s2))))"

definition ec_user :: u32 where "ec_user = 4"

datatype pf_outcome = Resolved vsys | Terminate_process vsys | End_thread vsys

definition page_fault_handler :: "(u64 \<Rightarrow> u32 \<Rightarrow> vsys \<Rightarrow> vsys kres) \<Rightarrow> u32 \<Rightarrow> u32 \<Rightarrow> vsys \<Rightarrow> pf_outcome kres" where
  "page_fault_handler mmap_pf addr error_code s0 =
     (case virt2phys addr (dirs s0 (active_dir s0)) (mm s0) of (physaddr, dm) \<Rightarrow>
        (let s = put_dir (active_dir s0) dm s0
         in kbind (handle_pf mmap_pf (active_dir s) addr s)
              (\<lambda>(ok, s1). if ok then Inr (Resolved s1)
                 else kbind (handle_pf mmap_pf (kernel_dir s1) addr s1)
                        (\<lambda>(ok', s2). if ok' then Inr (Resolved s2)
                           else if error_code AND ec_user \<noteq> 0
                           then (if proc_current_pid s2 \<noteq> 0 then Inr (Terminate_process s2) else Inr (End_thread s2))
                           else if addr < MM2_Page_Size then Inl (Panic ''(MM2) Probable NULL pointer dereference!'')
                           else Inl (Panic ''(MM2) Page fault!'')))))"

definition resolve_addr :: "(u64 \<Rightarrow> u32 \<Rightarrow> vsys \<Rightarrow> vsys kres) \<Rightarrow> nat \<Rightarrow> u32 \<Rightarrow> vsys \<Rightarrow> (u32 \<times> vsys) kres" where
  "resolve_addr mmap_pf i addr s =
     kbind (handle_pf mmap_pf i addr s)
       (\<lambda>(_, s1). case virt2phys addr (dirs s1 i) (mm s1) of (physaddr, dm) \<Rightarrow>
          (let s2 = put_dir i dm s1;
               ret = (if physaddr \<noteq> 0 then (if physaddr mod MM2_Page_Size = 0 then MM2_Page_Size else physaddr mod MM2_Page_Size)
                      else 0)
           in Inr (ret, s2)))"

section \<open>Pointers from user mode\<close>

fun safe_loop :: "nat \<Rightarrow> (u64 \<Rightarrow> u32 \<Rightarrow> vsys \<Rightarrow> vsys kres) \<Rightarrow> u32 \<Rightarrow> u32 \<Rightarrow> u32 \<Rightarrow> vsys \<Rightarrow> (bool \<times> vsys) kres" where
  "safe_loop 0 mmap_pf ptr sz i s = Inl Diverges"
| "safe_loop (Suc fuel) mmap_pf ptr sz i s =
     (if i < sz
      then kbind (resolve_addr mmap_pf (active_dir s) (ptr + i) s)
             (\<lambda>(res, s1). if res = 0 then Inr (False, s1) else safe_loop fuel mmap_pf ptr sz (i + res) s1)
      else Inr (True, s))"

definition is_safe_ptr :: "nat \<Rightarrow> (u64 \<Rightarrow> u32 \<Rightarrow> vsys \<Rightarrow> vsys kres) \<Rightarrow> u32 \<Rightarrow> u32 \<Rightarrow> pid_t \<Rightarrow> vsys \<Rightarrow> (bool \<times> vsys) kres" where
  "is_safe_ptr fuel mmap_pf ptr sz pid s =
     (if ptr \<ge> MM2_Kernel_Boundary
      then (let cur_pid = proc_current_pid s
            in kbind (vm_proc_switch pid s)
                 (\<lambda>(_, s1). kbind (safe_loop fuel mmap_pf ptr sz 0 s1)
                   (\<lambda>(ok, s2). kbind (vm_proc_switch cur_pid s2) (\<lambda>(_, s3). Inr (ok, s3)))))
      else Inr (False, s))"

text \<open>\<open>umem\<close> is the memory as the current process sees it.\<close>

fun is_safe_string :: "nat \<Rightarrow> (u64 \<Rightarrow> u32 \<Rightarrow> vsys \<Rightarrow> vsys kres) \<Rightarrow> (u32 \<Rightarrow> u8) \<Rightarrow> u32 \<Rightarrow> pid_t \<Rightarrow> vsys \<Rightarrow> (bool \<times> vsys) kres" where
  "is_safe_string 0 mmap_pf umem ptr pid s = Inl Diverges"
| "is_safe_string (Suc fuel) mmap_pf umem ptr pid s =
     kbind (is_safe_ptr 2 mmap_pf ptr 1 pid s)
       (\<lambda>(ok, s1). if \<not> ok then Inr (False, s1)
                   else if umem ptr = 0 then Inr (True, s1)
                   else is_safe_string fuel mmap_pf umem (ptr + 1) pid s1)"

definition BT_ALLOC_PAGES :: "u32 \<Rightarrow> vsys \<Rightarrow> (u32 \<times> vsys) kres" where
  "BT_ALLOC_PAGES ebx s = mm2_virtual_alloc (unat ebx) Mode_Userlow s"

fun alloc_at_loop :: "nat \<Rightarrow> u32 \<Rightarrow> vsys \<Rightarrow> vsys kres" where
  "alloc_at_loop 0 pageaddr s = Inr s"
| "alloc_at_loop (Suc n) pageaddr s =
     (if pageaddr < MM2_Kernel_Boundary then Inr s
      else kbind (on_dir (active_dir s) (alloc_pages_at 1 pageaddr) s) (alloc_at_loop n (pageaddr + MM2_Page_Size)))"

definition BT_ALLOC_AT :: "u32 \<Rightarrow> u32 \<Rightarrow> vsys \<Rightarrow> vsys kres" where
  "BT_ALLOC_AT ebx ecx s =
     (if ecx \<noteq> ecx mod MM2_Address_Mask then Inr s
      else if ecx < MM2_Kernel_Boundary then Inr s
      else alloc_at_loop (unat ebx) ecx s)"

definition BT_FREE_PAGES :: "(u64 \<Rightarrow> u32 \<Rightarrow> vsys \<Rightarrow> vsys kres) \<Rightarrow> u32 \<Rightarrow> u32 \<Rightarrow> vsys \<Rightarrow> vsys kres" where
  "BT_FREE_PAGES mmap_pf ebx ecx s =
     kbind (is_safe_ptr 1 mmap_pf ebx 0 (proc_current_pid s) s)
       (\<lambda>(ok, s1). if ok then on_dir (active_dir s1) (pd_free_pages ebx (unat ecx)) s1 else Inr s1)"

section \<open>What the pointer check looks at\<close>

text \<open>
  A directory without fault handlers whose tables and cache are in order, and the pages it maps.
  The window lies in the kernel's half.
\<close>

definition plain_ok :: "nat \<Rightarrow> vsys \<Rightarrow> bool" where
  "plain_ok i s \<longleftrightarrow> tables_ok (dirs s i) (mm s) \<and> cache_ok (dirs s i) (mm s) \<and> regions (dirs s i) = Some []
     \<and> window_page (mm s) < MM2_Kernel_Pages"

definition mapped :: "nat \<Rightarrow> vsys \<Rightarrow> u32 \<Rightarrow> bool" where
  "mapped i s a \<longleftrightarrow> pte (dirs s i) (mm s) (unat a div 4096) AND MM2_Address_Mask \<noteq> 0"

definition same_maps :: "nat \<Rightarrow> vsys \<Rightarrow> vsys \<Rightarrow> bool" where
  "same_maps i s s' \<longleftrightarrow> plain_ok i s' \<and> (\<forall>a \<ge> MM2_Kernel_Boundary. mapped i s' a = mapped i s a)
     \<and> active_dir s' = active_dir s \<and> proc_current_pid s' = proc_current_pid s \<and> proc_processes s' = proc_processes s
     \<and> thread_pid s' = thread_pid s"

lemma same_maps_trans: "same_maps i s s' \<Longrightarrow> same_maps i s' s'' \<Longrightarrow> same_maps i s s''"
  by (simp add: same_maps_def)

lemma user_page: "a \<ge> MM2_Kernel_Boundary \<Longrightarrow> unat a div 4096 \<ge> MM2_Kernel_Pages"
proof -
  assume "a \<ge> MM2_Kernel_Boundary"
  then have "2 ^ 30 \<le> unat a" by (simp add: word_le_nat_alt MM2_Kernel_Boundary_def)
  then have "2 ^ 30 div 4096 \<le> unat a div 4096" by (rule div_le_mono)
  then show ?thesis by (simp add: MM2_Kernel_Pages_def)
qed

lemma mask_low: "take_bit 12 (x AND MM2_Address_Mask) = 0" "take_bit 12 (x AND NOT MM2_Address_Mask) = take_bit 12 x"
proof -
  have m: "take_bit 12 MM2_Address_Mask = 0" "take_bit 12 (NOT MM2_Address_Mask) = mask 12"
    by (simp_all add: MM2_Address_Mask_def mask_eq_exp_minus_1)
  show "take_bit 12 (x AND MM2_Address_Mask) = 0" by (simp add: take_bit_and m)
  show "take_bit 12 (x AND NOT MM2_Address_Mask) = take_bit 12 x"
    by (simp add: take_bit_and m) (simp add: take_bit_eq_mask and.assoc)
qed

lemma phys_offset:
  assumes "e AND MM2_Address_Mask \<noteq> (0 :: u32)"
  shows "(e AND MM2_Address_Mask) + (a AND NOT MM2_Address_Mask) \<noteq> 0"
    and "((e AND MM2_Address_Mask) + (a AND NOT MM2_Address_Mask)) mod 4096 = a mod 4096"
proof -
  let ?x = "e AND MM2_Address_Mask" and ?y = "a AND NOT MM2_Address_Mask"
  have sum: "?x + ?y = ?x OR ?y" by (rule disjunctive_add) (auto simp: bit_simps)
  show "?x + ?y \<noteq> 0" unfolding sum using assms by (simp add: or_eq_0_iff)
  have "take_bit 12 (?x + ?y) = take_bit 12 a" unfolding sum take_bit_or mask_low by simp
  then show "(?x + ?y) mod 4096 = a mod 4096" by (simp add: take_bit_eq_mod)
qed

lemma virt2phys_plain:
  assumes "plain_ok i s" and "a \<ge> MM2_Kernel_Boundary"
  shows "\<exists>p d m. virt2phys a (dirs s i) (mm s) = (p, d, m) \<and> same_maps i s (put_dir i (d, m) s)
    \<and> (p \<noteq> 0) = mapped i s a \<and> (mapped i s a \<longrightarrow> p mod 4096 = a mod 4096)"
proof -
  let ?d = "dirs s i" and ?m = "mm s" and ?n = "unat a div 4096"
  have t: "tables_ok ?d ?m" and c: "cache_ok ?d ?m" and r: "regions ?d = Some []" and w: "window_page ?m < MM2_Kernel_Pages"
    using assms(1) by (simp_all add: plain_ok_def)
  have v: "valid_page ?m (unat b div 4096)" if "b \<ge> MM2_Kernel_Boundary" for b
    using user_page [OF that] w page_range [of b] by (simp add: valid_page_def)
  obtain e d m where g: "get_table_entry ?n ?d ?m = (e, d, m)" by (metis prod_cases3)
  note ok = get_table_entry_ok [OF t c page_range g]
  have e: "e = pte ?d ?m ?n" by (rule ok(4) [OF v [OF assms(2)]])
  have keep: "regions d = regions ?d" "window_page m = window_page ?m" using ok(6,7) by auto
  define p where "p = (let entry = (e AND MM2_Address_Mask) in if entry \<noteq> 0 then entry + (a AND NOT MM2_Address_Mask) else entry)"
  have run: "virt2phys a ?d ?m = (p, d, m)" by (simp add: virt2phys_def g p_def Let_def)
  have same: "mapped i (put_dir i (d, m) s) b = mapped i s b" if "b \<ge> MM2_Kernel_Boundary" for b
    using ok(3) v [OF that] by (simp add: mapped_def put_dir_def same_view_def)
  have "plain_ok i (put_dir i (d, m) s)" using ok(1,2) keep r w by (simp add: plain_ok_def put_dir_def)
  then have "same_maps i s (put_dir i (d, m) s)" using same by (simp add: same_maps_def put_dir_def)
  moreover have "(p \<noteq> 0) = mapped i s a" "mapped i s a \<longrightarrow> p mod 4096 = a mod 4096"
    using phys_offset [of e a] by (auto simp: p_def mapped_def e [symmetric] Let_def)
  ultimately show ?thesis using run by blast
qed

lemma resolve_plain:
  assumes "plain_ok i s" and "a \<ge> MM2_Kernel_Boundary"
  shows "\<exists>s'. resolve_addr f i a s =
      Inr (if mapped i s a then (if a mod 4096 = 0 then 4096 else a mod 4096) else 0, s') \<and> same_maps i s s'"
proof -
  obtain p d m where v1: "virt2phys a (dirs s i) (mm s) = (p, d, m)" and s1: "same_maps i s (put_dir i (d, m) s)"
    and p1: "(p \<noteq> 0) = mapped i s a"
    using virt2phys_plain [OF assms] by blast
  let ?s1 = "put_dir i (d, m) s"
  have ok1: "plain_ok i ?s1" using s1 by (simp add: same_maps_def)
  obtain q d2 m2 where v2: "virt2phys a (dirs ?s1 i) (mm ?s1) = (q, d2, m2)" and s2: "same_maps i ?s1 (put_dir i (d2, m2) ?s1)"
    and q: "(q \<noteq> 0) = mapped i ?s1 a" "mapped i ?s1 a \<longrightarrow> q mod 4096 = a mod 4096"
    using virt2phys_plain [OF ok1 assms(2)] by blast
  have mp: "mapped i ?s1 a = mapped i s a" using s1 assms(2) by (simp add: same_maps_def)
  have noreg: "find_region a (dirs ?s1 i) = None" using ok1 by (simp add: plain_ok_def find_region_def)
  have pf: "handle_pf f i a s = Inr (False, ?s1)"
    using noreg by (simp add: handle_pf_def is_mapped_def v1 Let_def)
  have "resolve_addr f i a s = Inr (if mapped i s a then (if a mod 4096 = 0 then 4096 else a mod 4096) else 0, put_dir i (d2, m2) ?s1)"
    using q mp by (simp add: resolve_addr_def pf v2 MM2_Page_Size_def Let_def)
  then show ?thesis using same_maps_trans [OF s1 s2] by blast
qed

lemma user_range:
  fixes ptr sz :: u32
  assumes "MM2_Kernel_Boundary \<le> ptr" and "unat ptr + unat sz \<le> 2 ^ 32" and "n < unat sz"
  shows "unat (ptr + word_of_nat n) = unat ptr + n" and "MM2_Kernel_Boundary \<le> ptr + word_of_nat n"
proof -
  have "n < 2 ^ LENGTH(32)" by (rule less_trans [OF assms(3)]) (rule unsigned_less)
  then have w: "unat (word_of_nat n :: u32) = n" by (rule unat_word_of_nat)
  show u: "unat (ptr + word_of_nat n) = unat ptr + n" using w assms(2,3) by (subst unat_add_lem [THEN iffD1]) simp_all
  show "MM2_Kernel_Boundary \<le> ptr + word_of_nat n" using assms(1) u by (simp add: word_le_nat_alt)
qed

lemma safe_loop_aligned:
  assumes "plain_ok i s" and "active_dir s = i" and "MM2_Kernel_Boundary \<le> ptr" and "ptr mod 4096 = 0"
    and "unat ptr + unat sz \<le> 2 ^ 32" and "4096 * k \<le> unat sz + 4095" and "unat sz + 4096 \<le> 4096 * (k + fuel)"
  shows "\<exists>s'. safe_loop fuel f ptr sz (word_of_nat (4096 * k)) s
      = Inr (\<forall>j. k \<le> j \<and> 4096 * j < unat sz \<longrightarrow> mapped i s (ptr + word_of_nat (4096 * j)), s') \<and> same_maps i s s'"
  using assms
proof (induction fuel arbitrary: k s)
  case (Suc fuel)
  have big: "2 ^ 30 \<le> unat ptr" using Suc.prems(3) by (simp add: word_le_nat_alt MM2_Kernel_Boundary_def)
  define P where "P n t \<longleftrightarrow> (\<forall>j. n \<le> j \<and> 4096 * j < unat sz \<longrightarrow> mapped i t (ptr + word_of_nat (4096 * j)))" for n t
  define w :: u32 where "w = word_of_nat (4096 * k)"
  define a where "a = ptr + w"
  have uw: "unat w = 4096 * k" unfolding w_def using Suc.prems(5,6) big by (intro unat_word_of_nat) simp
  have lt: "w < sz \<longleftrightarrow> 4096 * k < unat sz" by (simp only: word_less_nat_alt uw)
  have "\<exists>s'. safe_loop (Suc fuel) f ptr sz w s = Inr (P k s, s') \<and> same_maps i s s'"
  proof (cases "4096 * k < unat sz")
    case False
    then have "safe_loop (Suc fuel) f ptr sz w s = Inr (True, s)" using lt by simp
    moreover have "same_maps i s s" using Suc.prems(1) by (simp add: same_maps_def)
    moreover have "\<not> (k \<le> j \<and> 4096 * j < unat sz)" for j using False by (metis less_le_trans mult_le_mono2 not_le)
    ultimately show ?thesis by (auto simp: P_def)
  next
    case True
    note ra = user_range [OF Suc.prems(3,5) True, folded w_def a_def]
    have "unat ptr mod 4096 = 0" using arg_cong [OF Suc.prems(4), of unat] by (simp add: unat_mod)
    then have "unat a mod 4096 = 0" unfolding ra(1) by presburger
    then have al: "a mod 4096 = 0" by (simp add: word_arith_nat_mod)
    obtain s1 where r: "resolve_addr f i a s = Inr (if mapped i s a then 4096 else 0, s1)" and sm: "same_maps i s s1"
      using resolve_plain [OF Suc.prems(1) ra(2), of f] unfolding al by auto
    have step: "safe_loop (Suc fuel) f ptr sz w s = (if mapped i s a then safe_loop fuel f ptr sz (w + 4096) s1 else Inr (False, s1))"
      using lt True r Suc.prems(2) by (simp add: a_def [symmetric])
    have all: "P k s \<longleftrightarrow> mapped i s a \<and> P (Suc k) s"
      unfolding P_def a_def w_def using True by (metis Suc_leD le_eq_less_or_eq less_eq_Suc_le)
    show ?thesis
    proof (cases "mapped i s a")
      case False
      then show ?thesis using step sm all by auto
    next
      case yes: True
      have nx: "w + 4096 = word_of_nat (4096 * Suc k)" by (simp add: w_def)
      have "\<exists>s'. safe_loop fuel f ptr sz (word_of_nat (4096 * Suc k)) s1 = Inr (P (Suc k) s1, s') \<and> same_maps i s1 s'"
        unfolding P_def
      proof (rule Suc.IH)
        show "plain_ok i s1" "active_dir s1 = i" using sm Suc.prems(2) by (simp_all add: same_maps_def)
        show "4096 * Suc k \<le> unat sz + 4095" "unat sz + 4096 \<le> 4096 * (Suc k + fuel)" using True Suc.prems(7) by simp_all
      qed (use Suc.prems in blast)+
      then obtain s' where s': "safe_loop fuel f ptr sz (w + 4096) s1 = Inr (P (Suc k) s1, s')" "same_maps i s1 s'"
        unfolding nx by blast
      have "mapped i s1 (ptr + word_of_nat (4096 * j)) = mapped i s (ptr + word_of_nat (4096 * j))" if "4096 * j < unat sz" for j
        using sm user_range(2) [OF Suc.prems(3,5) that] unfolding same_maps_def by blast
      then have eq: "P (Suc k) s1 \<longleftrightarrow> P (Suc k) s" unfolding P_def by metis
      show ?thesis using step yes s' all eq same_maps_trans [OF sm s'(2)] by auto
    qed
  qed
  then show ?case unfolding P_def w_def .
qed simp

lemma vm_proc_switch_self:
  assumes "proc_get_status (proc_current_pid s) s \<noteq> st_DoesNotExist"
  shows "vm_proc_switch (proc_current_pid s) s = Inr (True, s\<lparr>thread_pid := proc_current_pid s\<rparr>)"
  using assms by (simp add: vm_proc_switch_def proc_switch_def sch_setpid_def)

lemma thread_pid_irrelevant [simp]:
  "plain_ok i (s\<lparr>thread_pid := p\<rparr>) = plain_ok i s" "mapped i (s\<lparr>thread_pid := p\<rparr>) a = mapped i s a"
  "proc_get_status q (s\<lparr>thread_pid := p\<rparr>) = proc_get_status q s"
  by (simp_all add: plain_ok_def mapped_def proc_get_status_def proc_get_def)

lemma is_safe_ptr_current:
  assumes "proc_get_status (proc_current_pid s) s \<noteq> st_DoesNotExist" and "MM2_Kernel_Boundary \<le> ptr"
    and "safe_loop fuel f ptr sz 0 (s\<lparr>thread_pid := proc_current_pid s\<rparr>) = Inr (ok, s2)"
    and "same_maps i (s\<lparr>thread_pid := proc_current_pid s\<rparr>) s2"
  shows "\<exists>s'. is_safe_ptr fuel f ptr sz (proc_current_pid s) s = Inr (ok, s')"
proof -
  have c: "proc_current_pid s2 = proc_current_pid s" "proc_processes s2 = proc_processes s"
    using assms(4) by (simp_all add: same_maps_def)
  then have "proc_get_status (proc_current_pid s2) s2 \<noteq> st_DoesNotExist"
    using assms(1) by (simp add: proc_get_status_def proc_get_def)
  then have "vm_proc_switch (proc_current_pid s) s2 = Inr (True, s2\<lparr>thread_pid := proc_current_pid s\<rparr>)"
    using vm_proc_switch_self [of s2] c(1) by simp
  then show ?thesis using assms(2,3) vm_proc_switch_self [OF assms(1)] by (simp add: is_safe_ptr_def Let_def)
qed

lemma page_probe:
  fixes ptr sz a :: u32
  assumes "MM2_Kernel_Boundary \<le> ptr" and "ptr mod 4096 = 0" and "unat ptr + unat sz \<le> 2 ^ 32"
  shows "(\<forall>j. 4096 * j < unat sz \<longrightarrow> mapped i s (ptr + word_of_nat (4096 * j)))
    \<longleftrightarrow> (\<forall>a. ptr \<le> a \<and> unat a < unat ptr + unat sz \<longrightarrow> mapped i s a)"
proof (intro iffI allI impI)
  fix j assume h: "\<forall>a. ptr \<le> a \<and> unat a < unat ptr + unat sz \<longrightarrow> mapped i s a" and j: "4096 * j < unat sz"
  note r = user_range [OF assms(1,3) j]
  have "ptr \<le> ptr + word_of_nat (4096 * j)" unfolding word_le_nat_alt r(1) by simp
  then show "mapped i s (ptr + word_of_nat (4096 * j))" using h r(1) j by (metis add_less_cancel_left)
next
  fix a assume h: "\<forall>j. 4096 * j < unat sz \<longrightarrow> mapped i s (ptr + word_of_nat (4096 * j))"
    and a: "ptr \<le> a \<and> unat a < unat ptr + unat sz"
  define j where "j = (unat a - unat ptr) div 4096"
  have le: "unat ptr \<le> unat a" using a by (simp add: word_le_nat_alt)
  have p0: "unat ptr mod 4096 = 0" using arg_cong [OF assms(2), of unat] by (simp add: unat_mod)
  have "4096 * j \<le> unat a - unat ptr" unfolding j_def by (metis div_times_less_eq_dividend mult.commute)
  then have j: "4096 * j < unat sz" using a le by linarith
  have m: "mapped i s (ptr + word_of_nat (4096 * j))" using h j by blast
  have "(unat ptr + 4096 * j) div 4096 = unat a div 4096"
  proof -
    obtain q where q: "unat ptr = 4096 * q" using p0 by auto
    have "unat a = 4096 * q + (unat a - unat ptr)" using le q by simp
    then have "unat a div 4096 = q + j" unfolding j_def by (metis div_mult_self4 zero_neq_numeral add.commute)
    then show ?thesis using q by simp
  qed
  then show "mapped i s a" using m unfolding mapped_def user_range(1) [OF assms(1,3) j] by simp
qed

section \<open>Sharing of pages\<close>

definition shm_page_flags :: u32 where "shm_page_flags = PF_Present OR PF_Writable OR PF_Usermode"

lemma shm_page_flags_mask: "shm_page_flags AND MM2_Address_Mask = 0" "shm_page_flags AND PF_Writable \<noteq> 0"
  by (simp_all add: shm_page_flags_def PF_Present_def PF_Writable_def PF_Usermode_def MM2_Address_Mask_def)

text \<open>
  A fault at a place of a space whose page exists maps that page and leaves the spaces alone; a
  fault at one that does not exist yet is such a fault in the state with a new page recorded.
\<close>

definition place :: "shm_mapping \<Rightarrow> u32 \<Rightarrow> u32" where
  "place mp a = (a - sm_addr mp) + sm_offset mp"

definition faulted :: "page_ref \<Rightarrow> u32 \<Rightarrow> vsys \<Rightarrow> vsys \<Rightarrow> bool" where
  "faulted page a s s' \<longleftrightarrow> pd_ok (dirs s' (active_dir s)) (mm s') \<and> active_dir s' = active_dir s
     \<and> spaces s' = spaces s \<and> mappings s' = mappings s \<and> window_page (mm s') = window_page (mm s)
     \<and> free_count (pm (mm s)) \<le> Suc (free_count (pm (mm s')))
     \<and> (\<forall>k. page_address (physical_pages (pm (mm s')) ! k) = page_address (physical_pages (pm (mm s)) ! k))
     \<and> pte (dirs s' (active_dir s)) (mm s') (unat a div 4096) AND PF_Writable \<noteq> 0
     \<and> fst (virt2phys a (dirs s' (active_dir s)) (mm s'))
         = page_address (page_at page (pm (mm s))) + (a AND NOT MM2_Address_Mask)"

lemma shm_fault_existing:
  assumes "pd_ok (dirs s (active_dir s)) (mm s)" and "2 \<le> free_count (pm (mm s))" and "valid_page (mm s) (unat a div 4096)"
    and "map_of (mappings s) i = Some mp" and "map_of (spaces s) (sm_space mp) = Some sp"
    and "map_of (sp_pages sp) (place mp a AND MM2_Address_Mask) = Some page"
    and "page_address (page_at page (pm (mm s))) \<noteq> 0"
  shows "\<exists>s'. shm_pf_handler i a s = Inr s' \<and> faulted page a s s'"
proof -
  let ?d = "dirs s (active_dir s)" and ?m = "mm s"
  define pg where "pg = page_at page (pm ?m)"
  obtain d' m' where r: "map_phys_at (a AND MM2_Address_Mask) pg shm_page_flags ?d ?m = Inr (d', m')"
    and ok: "pd_ok d' m'" and wp: "window_page m' = window_page ?m"
    and v: "\<forall>j. valid_page ?m j \<longrightarrow> pte d' m' j = (if j = unat a div 4096 then page_address pg OR shm_page_flags else pte ?d ?m j)"
    and fc: "free_count (pm ?m) \<le> Suc (free_count (pm m'))"
    and ad: "\<forall>k. page_address (physical_pages (pm m') ! k) = page_address (physical_pages (pm ?m) ! k)"
    by (rule map_phys_at_ok [OF assms(1,2)])
  let ?s' = "put_dir (active_dir s) (d', m') s"
  have run: "shm_pf_handler i a s = Inr ?s'"
    using r assms(4-6) by (simp add: shm_pf_handler_def place_def on_dir_def pg_def shm_page_flags_def Let_def)
  have e: "pte d' m' (unat a div 4096) = page_address pg OR shm_page_flags" using v assms(3) by simp
  have fr: "(page_address pg OR shm_page_flags) AND MM2_Address_Mask = page_address pg"
    by (rule frame_of_entry [OF _ shm_page_flags_mask(1)]) simp
  have "valid_page m' (unat a div 4096)" using assms(3) wp by (simp add: valid_page_def)
  then have "fst (virt2phys a d' m') = page_address pg + (a AND NOT MM2_Address_Mask)"
    using virt2phys_pte [OF ok] assms(7) [folded pg_def] by (simp add: e fr Let_def)
  moreover have "(page_address pg OR shm_page_flags) AND PF_Writable \<noteq> 0"
    using shm_page_flags_mask(2) by (simp add: bit.conj_disj_distrib2 or_eq_0_iff)
  ultimately have "faulted page a s ?s'" using ok wp fc ad by (simp add: faulted_def put_dir_def e pg_def)
  then show ?thesis using run by blast
qed

definition record_page :: "u64 \<Rightarrow> shm_space \<Rightarrow> u32 \<Rightarrow> u32 \<times> pmm \<Rightarrow> vsys \<Rightarrow> vsys" where
  "record_page k sp x al s = s\<lparr>mm := (mm s)\<lparr>pm := snd al\<rparr>,
     spaces := map_put k (sp\<lparr>sp_pages := map_put x (RamPage (unat (fst al))) (sp_pages sp)\<rparr>) (spaces s)\<rparr>"

lemma shm_fault_first:
  assumes "map_of (mappings s) i = Some mp" and "map_of (spaces s) (sm_space mp) = Some sp"
    and "map_of (sp_pages sp) (place mp a AND MM2_Address_Mask) = None"
    and "physical_alloc 0xFFFFFFFF (pm (mm s)) = Inr al"
  shows "shm_pf_handler i a s
    = shm_pf_handler i a (record_page (sm_space mp) sp (place mp a AND MM2_Address_Mask) al s)"
  using assms by (cases al) (simp add: shm_pf_handler_def place_def record_page_def map_of_put Let_def)

lemma add_page_multiple:
  fixes x y :: u32
  assumes "y mod 4096 = 0"
  shows "(x + y) mod 4096 = x mod 4096"
proof -
  have "unat y mod 4096 = unat (y mod 4096)" by (simp add: unat_mod)
  then have y: "unat y mod 4096 = 0" by (simp add: assms)
  have u: "unat (x + y) = (unat x + unat y) mod 2 ^ 32" by (simp add: unat_word_ariths)
  have "unat (x + y) mod 4096 = (unat x + unat y) mod 4096" unfolding u by (rule mod_mod_cancel) simp
  also have "\<dots> = (unat x + unat y mod 4096) mod 4096" by (rule mod_add_right_eq [symmetric])
  also have "\<dots> = unat x mod 4096" by (simp only: y add_0_right)
  finally show ?thesis by (simp add: word_arith_nat_mod)
qed

lemma place_low:
  assumes "sm_addr mp mod 4096 = 0" and "sm_offset mp mod 4096 = 0"
  shows "place mp a mod 4096 = a mod 4096"
  unfolding place_def using add_page_multiple [OF assms(1), of "a - sm_addr mp"] add_page_multiple [OF assms(2), of "a - sm_addr mp"]
  by simp

lemma low_bits: "a AND NOT MM2_Address_Mask = a mod 4096"
proof -
  have "NOT MM2_Address_Mask = mask 12" by (simp add: MM2_Address_Mask_def mask_eq_exp_minus_1)
  then have "a AND NOT MM2_Address_Mask = take_bit 12 a" by (simp add: take_bit_eq_mask)
  then show ?thesis by (simp add: take_bit_eq_mod)
qed

section \<open>Properties\<close>


definition small_vm :: vsys where
  "small_vm = psys.extend (proc_init 0 0 0)
     (vsys.fields (\<lambda>_. small_dir) 0 small_mm [] [] 0 0)"


text \<open>
  (C9) Shared memory is shared. The first touch of a place of a space through one mapping takes a
  free page; a touch of the same place through another mapping of the space, in whichever directory
  is then current, maps the same frame, so that both addresses have one physical address. The page
  is writable there, whatever the flags of space and mapping say.
\<close>

theorem shm_mappings_share:
  assumes "pd_ok (dirs s (active_dir s)) (mm s)" and "3 \<le> free_count (pm (mm s))"
    and "map_of (mappings s) i = Some p" and "map_of (mappings s) j = Some q" and "sm_space q = sm_space p"
    and "map_of (spaces s) (sm_space p) = Some sp" and "map_of (sp_pages sp) (place p a AND MM2_Address_Mask) = None"
    and "place q b = place p a" and "\<forall>mp \<in> {p, q}. sm_addr mp mod 4096 = 0 \<and> sm_offset mp mod 4096 = 0"
    and "valid_page (mm s) (unat a div 4096)" and "valid_page (mm s) (unat b div 4096)"
  shows "\<exists>s1. shm_pf_handler i a s = Inr s1 \<and> pd_ok (dirs s1 (active_dir s)) (mm s1)
     \<and> free_count (pm (mm s)) \<le> Suc (Suc (free_count (pm (mm s1))))
     \<and> (\<forall>n. pd_ok (dirs s1 n) (mm s1) \<and> 2 \<le> free_count (pm (mm s1)) \<longrightarrow>
         (\<exists>s2. shm_pf_handler j b (s1\<lparr>active_dir := n\<rparr>) = Inr s2
            \<and> fst (virt2phys b (dirs s2 n) (mm s2)) = fst (virt2phys a (dirs s1 (active_dir s)) (mm s1))
            \<and> pte (dirs s2 n) (mm s2) (unat b div 4096) AND PF_Writable \<noteq> 0))"
proof -
  define x where "x = place p a AND MM2_Address_Mask"
  have pool: "pool_ok (dirs s (active_dir s)) (pm (mm s))" "pmm_ok (pm (mm s))"
    using assms(1) by (simp_all add: pd_ok_def pool_ok_def)
  obtain y pm' where al: "physical_alloc 0xFFFFFFFF (pm (mm s)) = Inr (y, pm')"
    using physical_alloc_spare [OF pool(1) spare_page_count] assms(2) by auto
  note fc = free_count_alloc [OF pool(2) al]
  define t where "t = record_page (sm_space p) sp x (y, pm') s"
  define sp' where "sp' = sp\<lparr>sp_pages := map_put x (RamPage (unat y)) (sp_pages sp)\<rparr>"
  have t: "dirs t = dirs s" "active_dir t = active_dir s" "mm t = (mm s)\<lparr>pm := pm'\<rparr>" "mappings t = mappings s"
    "map_of (spaces t) (sm_space p) = Some sp'" by (simp_all add: t_def record_page_def sp'_def map_of_put)
  have pgs: "map_of (sp_pages sp') x = Some (RamPage (unat y))" by (simp add: sp'_def map_of_put)
  have nz: "page_address (page_at (RamPage (unat y)) pm') \<noteq> 0" using pool_ok_fresh(1) [OF pool(1) al] by simp
  have okt: "pd_ok (dirs t (active_dir t)) (mm t)" unfolding t by (rule pd_ok_alloc [OF assms(1) al])
  obtain s1 where r1: "shm_pf_handler i a t = Inr s1" and f1: "faulted (RamPage (unat y)) a t s1"
    using shm_fault_existing [OF okt, of a i p sp'] assms(2,3,10) fc pgs nz t(3-5) unfolding x_def by auto
  have run: "shm_pf_handler i a s = Inr s1"
    using shm_fault_first [OF assms(3,6,7) al] r1 by (simp add: t_def x_def)
  have low: "b AND NOT MM2_Address_Mask = a AND NOT MM2_Address_Mask"
    unfolding low_bits using place_low [of p a] place_low [of q b] assms(8,9) by simp
  have second: "\<exists>s2. shm_pf_handler j b (s1\<lparr>active_dir := n\<rparr>) = Inr s2
      \<and> fst (virt2phys b (dirs s2 n) (mm s2)) = fst (virt2phys a (dirs s1 (active_dir s)) (mm s1))
      \<and> pte (dirs s2 n) (mm s2) (unat b div 4096) AND PF_Writable \<noteq> 0"
    if n: "pd_ok (dirs s1 n) (mm s1)" "2 \<le> free_count (pm (mm s1))" for n
  proof -
    let ?u = "s1\<lparr>active_dir := n\<rparr>"
    have ad: "page_address (page_at (RamPage (unat y)) (pm (mm s1))) = page_address (page_at (RamPage (unat y)) pm')"
      using f1 t(3) by (simp add: faulted_def)
    have v: "valid_page (mm ?u) (unat b div 4096)" using f1 t(3) assms(11) by (simp add: faulted_def valid_page_def)
    have m: "map_of (mappings ?u) j = Some q" "map_of (spaces ?u) (sm_space q) = Some sp'"
      using f1 t(4,5) assms(4,5) by (simp_all add: faulted_def)
    have g: "map_of (sp_pages sp') (place q b AND MM2_Address_Mask) = Some (RamPage (unat y))"
      using pgs assms(8) by (simp add: x_def)
    have "\<exists>s2. shm_pf_handler j b ?u = Inr s2 \<and> faulted (RamPage (unat y)) b ?u s2"
      by (rule shm_fault_existing [OF _ _ v m g]) (use n ad nz in simp_all)
    then show ?thesis using f1 ad low t(2,3) by (auto simp: faulted_def)
  qed
  have "pd_ok (dirs s1 (active_dir s)) (mm s1) \<and> free_count (pm (mm s)) \<le> Suc (Suc (free_count (pm (mm s1))))"
    using f1 fc t(2,3) by (simp add: faulted_def)
  then show ?thesis using run second by blast
qed

definition shared_vm :: vsys where
  "shared_vm = small_vm\<lparr>spaces := [(1, \<lparr>sp_pages = [], sp_flags = shm_ReadOnly, sp_owner = 5\<rparr>)],
     mappings := [(1, \<lparr>sm_space = 1, sm_addr = 0x9000, sm_offset = 0, sm_pages = 2, sm_flags = 0\<rparr>),
                  (2, \<lparr>sm_space = 1, sm_addr = 0x20000, sm_offset = 0x1000, sm_pages = 1, sm_flags = 0\<rparr>)]\<rparr>"

theorem shm_mappings_share_witness:
  "\<exists>s1 s2. shm_pf_handler 1 0xA123 shared_vm = Inr s1 \<and> shm_pf_handler 2 0x20123 (s1\<lparr>active_dir := 0\<rparr>) = Inr s2
     \<and> fst (virt2phys 0x20123 (dirs s2 0) (mm s2)) = fst (virt2phys 0xA123 (dirs s1 0) (mm s1))
     \<and> pte (dirs s2 0) (mm s2) 32 AND PF_Writable \<noteq> 0"
proof -
  let ?p = "\<lparr>sm_space = 1, sm_addr = 0x9000, sm_offset = 0, sm_pages = 2, sm_flags = 0\<rparr> :: shm_mapping"
  let ?q = "\<lparr>sm_space = 1, sm_addr = 0x20000, sm_offset = 0x1000, sm_pages = 1, sm_flags = 0\<rparr> :: shm_mapping"
  have v: "active_dir shared_vm = 0" "dirs shared_vm 0 = small_dir" "mm shared_vm = small_mm"
    "map_of (mappings shared_vm) 1 = Some ?p" "map_of (mappings shared_vm) 2 = Some ?q"
    "map_of (spaces shared_vm) 1 = Some \<lparr>sp_pages = [], sp_flags = shm_ReadOnly, sp_owner = 5\<rparr>"
    by (simp_all add: shared_vm_def small_vm_def proc_init_def psys.defs vsys.defs)
  note f = small_free_count
  from shm_mappings_share [of shared_vm 1 ?p 2 ?q _ "0xA123" "0x20123"]
  obtain s1 where s1: "shm_pf_handler 1 0xA123 shared_vm = Inr s1" "pd_ok (dirs s1 0) (mm s1)" "2 \<le> free_count (pm (mm s1))"
    and all: "\<forall>n. pd_ok (dirs s1 n) (mm s1) \<and> 2 \<le> free_count (pm (mm s1)) \<longrightarrow>
         (\<exists>s2. shm_pf_handler 2 0x20123 (s1\<lparr>active_dir := n\<rparr>) = Inr s2
            \<and> fst (virt2phys 0x20123 (dirs s2 n) (mm s2)) = fst (virt2phys 0xA123 (dirs s1 0) (mm s1))
            \<and> pte (dirs s2 n) (mm s2) 32 AND PF_Writable \<noteq> 0)"
    using small_pd_ok small_valid [of 10] small_valid [of 32] f by (auto simp: v place_def)
  then show ?thesis by blast
qed

end
