(* ===== verification/Heap.thy ===== *)
theory Heap
  imports Memcpy
begin

unbundle bit_operations_syntax

text \<open>
  The kernel's heap (\<^verbatim>\<open>kernel/liballoc.c\<close>). Chunks of pages, the majors, are linked into a
  list; each holds a list of minors in order of address, the headers of the blocks handed out. The
  headers are reached by address in maps, apart from the bytes handed out, which are \<open>hmem\<close>: memory
  that has been handed out or given back is known as neither, and reading a header there is
  undefined. The byte in front of an aligned pointer that tells how far it was moved is in
  \<open>align_info\<close>. The hooks that get and release pages are arguments; \<open>'w\<close> is what they act on.
  Pointers are 32-bit numbers, with 0 for \<^verbatim>\<open>NULL\<close>.

  The lemmas relate the linked structure to lists of addresses, and show that a header put into a
  gap keeps it well-formed and adds one block to those in use.
\<close>

section \<open>Headers and state\<close>

record liballoc_major =
  mj_prev :: u32
  mj_next :: u32
  mj_pages :: u32
  mj_size :: u32
  mj_usage :: u32
  mj_first :: u32

record liballoc_minor =
  mn_prev :: u32
  mn_next :: u32
  mn_block :: u32
  mn_magic :: u32
  mn_size :: u32
  mn_req_size :: u32

text \<open>Both headers have six words.\<close>

definition header_bytes :: u32 where "header_bytes = 24"

definition ALIGNMENT :: u32 where "ALIGNMENT = 16"

definition ALIGN_INFO :: u32 where "ALIGN_INFO = 16"

definition LIBALLOC_MAGIC :: u32 where "LIBALLOC_MAGIC = 0xc001c0de"

definition LIBALLOC_DEAD :: u32 where "LIBALLOC_DEAD = 0xdeaddead"

definition l_pageSize :: u32 where "l_pageSize = 4096"

definition l_pageCount :: u32 where "l_pageCount = 1"

record 'w heap =
  majors :: "u32 \<Rightarrow> liballoc_major option"
  minors :: "u32 \<Rightarrow> liballoc_minor option"
  align_info :: "u32 \<Rightarrow> u8 option"
  hmem :: mem
  l_memRoot :: u32
  l_bestBet :: u32
  l_allocated :: u64
  l_inuse :: u64
  l_warningCount :: u64
  l_errorCount :: u64
  l_possibleOverruns :: u64
  hook_state :: 'w

definition get_major :: "u32 \<Rightarrow> 'w heap \<Rightarrow> liballoc_major kres" where
  "get_major a h = (case majors h a of None \<Rightarrow> Inl Undefined | Some g \<Rightarrow> Inr g)"

definition get_minor :: "u32 \<Rightarrow> 'w heap \<Rightarrow> liballoc_minor kres" where
  "get_minor a h = (case minors h a of None \<Rightarrow> Inl Undefined | Some m \<Rightarrow> Inr m)"

definition upd_major :: "u32 \<Rightarrow> (liballoc_major \<Rightarrow> liballoc_major) \<Rightarrow> 'w heap \<Rightarrow> 'w heap" where
  "upd_major a f h = h\<lparr>majors := (majors h)(a := map_option f (majors h a))\<rparr>"

definition upd_minor :: "u32 \<Rightarrow> (liballoc_minor \<Rightarrow> liballoc_minor) \<Rightarrow> 'w heap \<Rightarrow> 'w heap" where
  "upd_minor a f h = h\<lparr>minors := (minors h)(a := map_option f (minors h a))\<rparr>"

text \<open>The addresses of a block of memory; what was known of it is forgotten when it changes hands.\<close>

definition within :: "nat \<Rightarrow> nat \<Rightarrow> u32 \<Rightarrow> bool" where
  "within lo hi a \<longleftrightarrow> lo \<le> unat a \<and> unat a < hi"

definition forget :: "nat \<Rightarrow> nat \<Rightarrow> 'w heap \<Rightarrow> 'w heap" where
  "forget lo hi h = h\<lparr>minors := (\<lambda>a. if within lo hi a then None else minors h a),
     align_info := (\<lambda>a. if within lo hi a then None else align_info h a)\<rparr>"

section \<open>Alignment\<close>

definition ALIGN :: "u32 \<Rightarrow> 'w heap \<Rightarrow> u32 \<times> 'w heap" where
  "ALIGN ptr h =
     (let p = ptr + ALIGN_INFO;
          diff = p AND (ALIGNMENT - 1);
          diff' = (if diff \<noteq> 0 then ALIGNMENT - diff else diff);
          q = p + diff'
      in (q, h\<lparr>align_info := (align_info h)(q - ALIGN_INFO \<mapsto> ucast (diff' + ALIGN_INFO))\<rparr>))"

definition UNALIGN :: "u32 \<Rightarrow> 'w heap \<Rightarrow> u32 kres" where
  "UNALIGN ptr h =
     (case align_info h (ptr - ALIGN_INFO) of
        None \<Rightarrow> Inl Undefined
      | Some c \<Rightarrow> (let diff = scast c in Inr (if diff < ALIGNMENT + ALIGN_INFO then ptr - diff else ptr)))"

section \<open>Allocation\<close>

definition pages_for :: "u32 \<Rightarrow> u32" where
  "pages_for sz =
     (let st = sz + header_bytes + header_bytes;
          st' = (if st mod l_pageSize = 0 then st div l_pageSize else st div l_pageSize + 1)
      in if st' < l_pageCount then l_pageCount else st')"

definition allocate_new_page :: "(u32 \<Rightarrow> 'w \<Rightarrow> (u32 \<times> 'w) kres) \<Rightarrow> u32 \<Rightarrow> 'w heap \<Rightarrow> (u32 \<times> 'w heap) kres" where
  "allocate_new_page alloc_hook sz h =
     (let st = pages_for sz
      in kbind (alloc_hook st (hook_state h))
           (\<lambda>(maj, w). if maj = 0 then Inr (0, h\<lparr>hook_state := w, l_warningCount := l_warningCount h + 1\<rparr>)
              else Inr (maj, h\<lparr>hook_state := w,
                majors := (majors h)(maj \<mapsto> \<lparr>mj_prev = 0, mj_next = 0, mj_pages = st, mj_size = st * l_pageSize,
                                             mj_usage = header_bytes, mj_first = 0\<rparr>),
                l_allocated := l_allocated h + ucast (st * l_pageSize)\<rparr>)))"

text \<open>
  A new header between its neighbours, with which the cases of allocation end: the block behind it
  is aligned and returned.
\<close>

definition place_minor :: "u32 \<Rightarrow> u32 \<Rightarrow> u32 \<Rightarrow> u32 \<Rightarrow> u32 \<Rightarrow> u32 \<Rightarrow> 'w heap \<Rightarrow> u32 \<times> 'w heap" where
  "place_minor maj prev next a sz req_size h =
     (let h1 = forget (unat a) (unat a + 24 + unat sz) h;
          h2 = h1\<lparr>minors := (minors h1)(a \<mapsto> \<lparr>mn_prev = prev, mn_next = next, mn_block = maj, mn_magic = LIBALLOC_MAGIC,
                                              mn_size = sz, mn_req_size = req_size\<rparr>)\<rparr>;
          h3 = (if next \<noteq> 0 then upd_minor next (\<lambda>m. m\<lparr>mn_prev := a\<rparr>) h2 else h2);
          h4 = (if prev \<noteq> 0 then upd_minor prev (\<lambda>m. m\<lparr>mn_next := a\<rparr>) h3 else upd_major maj (\<lambda>g. g\<lparr>mj_first := a\<rparr>) h3);
          h5 = upd_major maj (\<lambda>g. g\<lparr>mj_usage := mj_usage g + (sz + header_bytes)\<rparr>) h4
      in ALIGN (a + header_bytes) (h5\<lparr>l_inuse := l_inuse h5 + ucast sz\<rparr>))"

text \<open>The walk over the minors of a block for a gap. The first argument bounds its rounds.\<close>

fun minor_loop :: "nat \<Rightarrow> u32 \<Rightarrow> u32 \<Rightarrow> u32 \<Rightarrow> u32 \<Rightarrow> 'w heap \<Rightarrow> ((u32 \<times> 'w heap) option) kres" where
  "minor_loop 0 maj mn sz req_size h = Inl Diverges"
| "minor_loop (Suc fuel) maj mn sz req_size h =
     (if mn = 0 then Inr None
      else kbind (get_major maj h) (\<lambda>g. kbind (get_minor mn h) (\<lambda>m.
        let diff = (if mn_next m = 0 then maj + mj_size g - mn - header_bytes - mn_size m
                    else mn_next m - mn - header_bytes - mn_size m)
        in if diff \<ge> sz + header_bytes
           then Inr (Some (place_minor maj mn (mn_next m) (mn + header_bytes + mn_size m) sz req_size h))
           else minor_loop fuel maj (mn_next m) sz req_size h)))"

definition try_fit :: "nat \<Rightarrow> u32 \<Rightarrow> u32 \<Rightarrow> u32 \<Rightarrow> 'w heap \<Rightarrow> ((u32 \<times> 'w heap) option) kres" where
  "try_fit fuel maj sz req_size h =
     kbind (get_major maj h)
       (\<lambda>g. if mj_first g = 0 then Inr (Some (place_minor maj 0 0 (maj + header_bytes) sz req_size h))
            else if mj_first g - maj - header_bytes \<ge> sz + header_bytes
            then Inr (Some (place_minor maj 0 (mj_first g) (maj + header_bytes) sz req_size h))
            else minor_loop fuel maj (mj_first g) sz req_size h)"

definition append_major ::
  "(u32 \<Rightarrow> 'w \<Rightarrow> (u32 \<times> 'w) kres) \<Rightarrow> u32 \<Rightarrow> u32 \<Rightarrow> 'w heap \<Rightarrow> (u32 \<times> 'w heap) kres" where
  "append_major alloc_hook maj sz h =
     kbind (allocate_new_page alloc_hook sz h)
       (\<lambda>(n, h1). let h2 = upd_major maj (\<lambda>g. g\<lparr>mj_next := n\<rparr>) h1
                  in Inr (n, if n = 0 then h2 else upd_major n (\<lambda>g. g\<lparr>mj_prev := maj\<rparr>) h2))"

text \<open>
  The search for a block with room. A block without enough free bytes is left for the next one,
  after the last one for the root if the search began at the best bet, and else for a new one, which
  is used in the same round. A block whose free bytes are scattered is left the same way at the end of
  the round.
\<close>

fun malloc_loop ::
  "(u32 \<Rightarrow> 'w \<Rightarrow> (u32 \<times> 'w) kres) \<Rightarrow> nat \<Rightarrow> bool \<Rightarrow> u64 \<Rightarrow> u32 \<Rightarrow> u32 \<Rightarrow> u32 \<Rightarrow> 'w heap \<Rightarrow> (u32 \<times> 'w heap) kres" where
  "malloc_loop alloc_hook 0 startedBet bestSize maj sz req_size h = Inl Diverges"
| "malloc_loop alloc_hook (Suc fuel) startedBet bestSize maj sz req_size h =
     (if maj = 0 then Inr (0, h)
      else kbind (get_major maj h) (\<lambda>g.
        let diff = mj_size g - mj_usage g;
            better = (bestSize < ucast diff);
            h1 = (if better then h\<lparr>l_bestBet := maj\<rparr> else h);
            best = (if better then ucast diff else bestSize)
        in if diff < sz + header_bytes \<and> mj_next g \<noteq> 0 then malloc_loop alloc_hook fuel startedBet best (mj_next g) sz req_size h1
           else if diff < sz + header_bytes \<and> startedBet then malloc_loop alloc_hook fuel False best (l_memRoot h1) sz req_size h1
           else kbind (if diff < sz + header_bytes then append_major alloc_hook maj sz h1 else Inr (maj, h1)) (\<lambda>(maj', h2).
             if maj' = 0 then Inr (0, h2)
             else kbind (try_fit fuel maj' sz req_size h2) (\<lambda>r.
               case r of
                 Some ph \<Rightarrow> Inr ph
               | None \<Rightarrow> kbind (get_major maj' h2) (\<lambda>g'.
                   if mj_next g' \<noteq> 0 then malloc_loop alloc_hook fuel startedBet best (mj_next g') sz req_size h2
                   else if startedBet then malloc_loop alloc_hook fuel False best (l_memRoot h2) sz req_size h2
                   else kbind (append_major alloc_hook maj' sz h2) (\<lambda>(n, h3).
                     if n = 0 then Inr (0, h3) else malloc_loop alloc_hook fuel startedBet best n sz req_size h3))))))"

definition start_bet :: "u32 \<Rightarrow> 'w heap \<Rightarrow> (u32 \<times> bool \<times> u64) kres" where
  "start_bet sz h =
     (if l_bestBet h = 0 then Inr (l_memRoot h, False, 0)
      else kbind (get_major (l_bestBet h) h)
        (\<lambda>g. let bestSize = ucast (mj_size g - mj_usage g)
             in Inr (if bestSize > ucast (sz + header_bytes) then (l_bestBet h, True, bestSize)
                     else (l_memRoot h, False, bestSize))))"

definition malloc_sized ::
  "(u32 \<Rightarrow> 'w \<Rightarrow> (u32 \<times> 'w) kres) \<Rightarrow> nat \<Rightarrow> u32 \<Rightarrow> u32 \<Rightarrow> 'w heap \<Rightarrow> (u32 \<times> 'w heap) kres" where
  "malloc_sized alloc_hook fuel sz req_size h =
     kbind (if l_memRoot h = 0
            then kbind (allocate_new_page alloc_hook sz h) (\<lambda>(r, h1). Inr (h1\<lparr>l_memRoot := r\<rparr>)) else Inr h)
       (\<lambda>h1. if l_memRoot h1 = 0 then Inr (0, h1)
             else kbind (start_bet sz h1)
               (\<lambda>(maj, startedBet, bestSize). malloc_loop alloc_hook fuel startedBet bestSize maj sz req_size h1))"

definition malloc :: "(u32 \<Rightarrow> 'w \<Rightarrow> (u32 \<times> 'w) kres) \<Rightarrow> nat \<Rightarrow> u32 \<Rightarrow> 'w heap \<Rightarrow> (u32 \<times> 'w heap) kres" where
  "malloc alloc_hook fuel req_size h =
     (let sz = req_size + (ALIGNMENT + ALIGN_INFO)
      in if sz = 0
         then malloc_sized alloc_hook fuel (1 + (ALIGNMENT + ALIGN_INFO)) 1 (h\<lparr>l_warningCount := l_warningCount h + 1\<rparr>)
         else malloc_sized alloc_hook fuel sz req_size h)"

section \<open>Release\<close>

definition bad_magic :: "u32 \<Rightarrow> 'w heap \<Rightarrow> 'w heap" where
  "bad_magic magic h =
     (let h1 = h\<lparr>l_errorCount := l_errorCount h + 1\<rparr>
      in if magic AND 0xFFFFFF = LIBALLOC_MAGIC AND 0xFFFFFF \<or> magic AND 0xFFFF = LIBALLOC_MAGIC AND 0xFFFF
            \<or> magic AND 0xFF = LIBALLOC_MAGIC AND 0xFF
         then h1\<lparr>l_possibleOverruns := l_possibleOverruns h1 + 1\<rparr> else h1)"

definition unlink_minor :: "u32 \<Rightarrow> liballoc_minor \<Rightarrow> 'w heap \<Rightarrow> 'w heap" where
  "unlink_minor mn m h =
     (let h1 = h\<lparr>l_inuse := l_inuse h - ucast (mn_size m)\<rparr>;
          h2 = upd_major (mn_block m) (\<lambda>g. g\<lparr>mj_usage := mj_usage g - (mn_size m + header_bytes)\<rparr>) h1;
          h3 = upd_minor mn (\<lambda>m. m\<lparr>mn_magic := LIBALLOC_DEAD\<rparr>) h2;
          h4 = (if mn_next m \<noteq> 0 then upd_minor (mn_next m) (\<lambda>n. n\<lparr>mn_prev := mn_prev m\<rparr>) h3 else h3)
      in if mn_prev m \<noteq> 0 then upd_minor (mn_prev m) (\<lambda>n. n\<lparr>mn_next := mn_next m\<rparr>) h4
         else upd_major (mn_block m) (\<lambda>g. g\<lparr>mj_first := mn_next m\<rparr>) h4)"

definition release_major ::
  "(u32 \<Rightarrow> u32 \<Rightarrow> 'w \<Rightarrow> 'w kres) \<Rightarrow> u32 \<Rightarrow> liballoc_major \<Rightarrow> 'w heap \<Rightarrow> ('w heap) kres" where
  "release_major free_hook maj g h =
     (let h1 = (if l_memRoot h = maj then h\<lparr>l_memRoot := mj_next g\<rparr> else h);
          h2 = (if l_bestBet h1 = maj then h1\<lparr>l_bestBet := 0\<rparr> else h1);
          h3 = (if mj_prev g \<noteq> 0 then upd_major (mj_prev g) (\<lambda>k. k\<lparr>mj_next := mj_next g\<rparr>) h2 else h2);
          h4 = (if mj_next g \<noteq> 0 then upd_major (mj_next g) (\<lambda>k. k\<lparr>mj_prev := mj_prev g\<rparr>) h3 else h3);
          h5 = h4\<lparr>l_allocated := l_allocated h4 - ucast (mj_size g)\<rparr>
      in kbind (free_hook maj (mj_pages g) (hook_state h5))
           (\<lambda>w. Inr (forget (unat maj) (unat maj + unat (mj_size g))
                  (h5\<lparr>hook_state := w, majors := (majors h5)(maj := None)\<rparr>))))"

definition update_bet :: "u32 \<Rightarrow> liballoc_major \<Rightarrow> 'w heap \<Rightarrow> ('w heap) kres" where
  "update_bet maj g h =
     (if l_bestBet h = 0 then Inr h
      else kbind (get_major (l_bestBet h) h)
        (\<lambda>b. Inr (if (mj_size b - mj_usage b) <s (mj_size g - mj_usage g) then h\<lparr>l_bestBet := maj\<rparr> else h)))"

definition free :: "(u32 \<Rightarrow> u32 \<Rightarrow> 'w \<Rightarrow> 'w kres) \<Rightarrow> u32 \<Rightarrow> 'w heap \<Rightarrow> ('w heap) kres" where
  "free free_hook ptr h =
     (if ptr = 0 then Inr (h\<lparr>l_warningCount := l_warningCount h + 1\<rparr>)
      else kbind (UNALIGN ptr h) (\<lambda>q.
        let mn = q - header_bytes
        in kbind (get_minor mn h) (\<lambda>m.
          if mn_magic m \<noteq> LIBALLOC_MAGIC then Inr (bad_magic (mn_magic m) h)
          else
            let h1 = unlink_minor mn m h; maj = mn_block m
            in kbind (get_major maj h1)
                 (\<lambda>g. if mj_first g = 0 then release_major free_hook maj g h1 else update_bet maj g h1))))"

section \<open>Cleared and resized blocks\<close>

definition liballoc_memset :: "nat \<Rightarrow> u8 \<Rightarrow> nat \<Rightarrow> mem \<Rightarrow> mem" where
  "liballoc_memset s c n mem = fold (\<lambda>i m. m(s + i := c)) [0..<n] mem"

definition liballoc_memcpy :: "nat \<Rightarrow> nat \<Rightarrow> nat \<Rightarrow> mem \<Rightarrow> mem" where
  "liballoc_memcpy s1 s2 n mem =
     cmem ((cp_byte ^^ (n mod 4)) ((cp_incr ^^ (n div 4)) \<lparr>dst8 = s1, src8 = s2, cmem = mem\<rparr>))"

text \<open>Neither looks at the result of the allocation before writing there.\<close>

definition calloc :: "(u32 \<Rightarrow> 'w \<Rightarrow> (u32 \<times> 'w) kres) \<Rightarrow> nat \<Rightarrow> u32 \<Rightarrow> u32 \<Rightarrow> 'w heap \<Rightarrow> (u32 \<times> 'w heap) kres" where
  "calloc alloc_hook fuel nobj sz h =
     (let real_size = nobj * sz
      in kbind (malloc alloc_hook fuel real_size h)
           (\<lambda>(p, h1). if p = 0 \<and> real_size \<noteq> 0 then Inl Undefined
                      else Inr (p, h1\<lparr>hmem := liballoc_memset (unat p) 0 (unat real_size) (hmem h1)\<rparr>)))"

definition realloc ::
  "(u32 \<Rightarrow> 'w \<Rightarrow> (u32 \<times> 'w) kres) \<Rightarrow> (u32 \<Rightarrow> u32 \<Rightarrow> 'w \<Rightarrow> 'w kres) \<Rightarrow> nat \<Rightarrow> u32 \<Rightarrow> u32 \<Rightarrow> 'w heap \<Rightarrow> (u32 \<times> 'w heap) kres" where
  "realloc alloc_hook free_hook fuel p sz h =
     (if sz = 0 then kbind (free free_hook p h) (\<lambda>h1. Inr (0, h1))
      else if p = 0 then malloc alloc_hook fuel sz h
      else kbind (UNALIGN p h) (\<lambda>q.
        let mn = q - header_bytes
        in kbind (get_minor mn h) (\<lambda>m.
          if mn_magic m \<noteq> LIBALLOC_MAGIC then Inr (0, bad_magic (mn_magic m) h)
          else if mn_req_size m \<ge> sz then Inr (p, upd_minor mn (\<lambda>m. m\<lparr>mn_req_size := sz\<rparr>) h)
          else kbind (malloc alloc_hook fuel sz h) (\<lambda>(ptr, h1).
            if ptr = 0 \<and> mn_req_size m \<noteq> 0 then Inl Undefined
            else
              let h2 = h1\<lparr>hmem := liballoc_memcpy (unat ptr) (unat p) (unat (mn_req_size m)) (hmem h1)\<rparr>
              in kbind (free free_hook p h2) (\<lambda>h3. Inr (ptr, h3))))))"

section \<open>Lists threaded through memory\<close>

text \<open>
  A doubly linked list between the pointers \<open>p\<close> and \<open>q\<close>, and headers in order of address, each with
  its bytes behind it, between two bounds.
\<close>

fun linked :: "(u32 \<Rightarrow> u32) \<Rightarrow> (u32 \<Rightarrow> u32) \<Rightarrow> u32 \<Rightarrow> u32 list \<Rightarrow> u32 \<Rightarrow> bool" where
  "linked nx pv p [] q = True"
| "linked nx pv p (x # xs) q \<longleftrightarrow> pv x = p \<and> nx x = hd (xs @ [q]) \<and> linked nx pv x xs q"

lemma hd_append_end: "hd (xs @ y # ys) = hd (xs @ [y])"
  by (cases xs) simp_all

lemma linked_append:
  "linked nx pv p (xs @ ys) q \<longleftrightarrow> linked nx pv p xs (hd (ys @ [q])) \<and> linked nx pv (last (p # xs)) ys q"
proof (induction xs arbitrary: p)
  case (Cons x xs)
  have "hd ((xs @ ys) @ [q]) = hd (xs @ [hd (ys @ [q])])" by (cases xs; cases ys) simp_all
  then show ?case using Cons by simp
qed simp

lemma linked_cong:
  "(\<And>x. x \<in> set xs \<Longrightarrow> nx' x = nx x \<and> pv' x = pv x) \<Longrightarrow> linked nx' pv' p xs q = linked nx pv p xs q"
  by (induction xs arbitrary: p) simp_all

lemma linked_insert:
  assumes "linked nx pv p (xs @ ys) q" and "distinct (xs @ ys)" and "a \<notin> set (xs @ ys)"
    and "nx' a = hd (ys @ [q])" and "pv' a = last (p # xs)"
    and "\<And>x. x \<in> set (xs @ ys) \<Longrightarrow> nx' x = (if xs \<noteq> [] \<and> x = last xs then a else nx x)"
    and "\<And>x. x \<in> set (xs @ ys) \<Longrightarrow> pv' x = (if ys \<noteq> [] \<and> x = hd ys then a else pv x)"
  shows "linked nx' pv' p (xs @ a # ys) q"
proof -
  have l: "linked nx pv p xs (hd (ys @ [q]))" "linked nx pv (last (p # xs)) ys q"
    using assms(1) by (simp_all only: linked_append)
  have "linked nx' pv' p xs a"
  proof (cases xs rule: rev_cases)
    case (snoc zs z)
    have "linked nx' pv' p zs z = linked nx pv p zs z"
      using assms(2,6,7) snoc by (intro linked_cong) (cases ys; auto)
    moreover have "nx' z = a" "pv' z = pv z" using assms(2,6,7) snoc by (cases ys; auto)+
    ultimately show ?thesis using l(1) by (simp add: snoc linked_append)
  qed simp
  moreover have "linked nx' pv' a ys q"
  proof (cases ys)
    case (Cons z zs)
    have "linked nx' pv' z zs q = linked nx pv z zs q"
      using assms(2,6,7) Cons by (intro linked_cong) (cases xs rule: rev_cases; auto)
    moreover have "pv' z = a" "nx' z = nx z" using assms(2,6,7) Cons by (cases xs rule: rev_cases; auto)+
    ultimately show ?thesis using l(2) by (simp add: Cons)
  qed simp
  ultimately show ?thesis using assms(4,5) by (simp add: linked_append)
qed

lemma linked_remove:
  assumes "linked nx pv p (xs @ a # ys) q" and "distinct (xs @ a # ys)"
    and "\<And>x. x \<in> set (xs @ ys) \<Longrightarrow> nx' x = (if xs \<noteq> [] \<and> x = last xs then hd (ys @ [q]) else nx x)"
    and "\<And>x. x \<in> set (xs @ ys) \<Longrightarrow> pv' x = (if ys \<noteq> [] \<and> x = hd ys then last (p # xs) else pv x)"
  shows "linked nx' pv' p (xs @ ys) q"
proof -
  have l: "linked nx pv p xs a" "linked nx pv a ys q" using assms(1) by (simp_all add: linked_append)
  have "linked nx' pv' p xs (hd (ys @ [q]))"
  proof (cases xs rule: rev_cases)
    case (snoc zs z)
    have "linked nx' pv' p zs z = linked nx pv p zs z"
      using assms(2-4) snoc by (intro linked_cong) (cases ys; auto)
    moreover have "nx' z = hd (ys @ [q])" "pv' z = pv z" using assms(2-4) snoc by (cases ys; auto)+
    ultimately show ?thesis using l(1) by (simp add: snoc linked_append)
  qed simp
  moreover have "linked nx' pv' (last (p # xs)) ys q"
  proof (cases ys)
    case (Cons z zs)
    have "linked nx' pv' z zs q = linked nx pv z zs q"
      using assms(2-4) Cons by (intro linked_cong) (cases xs rule: rev_cases; auto)
    moreover have "pv' z = last (p # xs)" "nx' z = nx z" using assms(2-4) Cons by (cases xs rule: rev_cases; auto)+
    ultimately show ?thesis using l(2) by (simp add: Cons)
  qed simp
  ultimately show ?thesis by (simp add: linked_append)
qed

fun spaced :: "(u32 \<Rightarrow> nat) \<Rightarrow> nat \<Rightarrow> nat \<Rightarrow> u32 list \<Rightarrow> bool" where
  "spaced sz lo hi [] \<longleftrightarrow> lo \<le> hi"
| "spaced sz lo hi (x # xs) \<longleftrightarrow> lo \<le> unat x \<and> spaced sz (unat x + 24 + sz x) hi xs"

lemma spaced_append: "spaced sz lo hi (xs @ y # ys) \<longleftrightarrow> spaced sz lo (unat y) xs \<and> spaced sz (unat y + 24 + sz y) hi ys"
  by (induction xs arbitrary: lo) simp_all

lemma spaced_le: "spaced sz lo hi xs \<Longrightarrow> lo + sum_list (map (\<lambda>x. 24 + sz x) xs) \<le> hi"
  by (induction xs arbitrary: lo) fastforce+

lemma spaced_mem: "spaced sz lo hi xs \<Longrightarrow> x \<in> set xs \<Longrightarrow> lo \<le> unat x \<and> unat x + 24 + sz x \<le> hi"
proof (induction xs arbitrary: lo)
  case (Cons y ys)
  have "unat y + 24 + sz y \<le> hi" using Cons.prems(1) spaced_le [of sz "unat y + 24 + sz y" hi ys] by simp
  then show ?case using Cons by fastforce
qed simp

lemma spaced_distinct: "spaced sz lo hi xs \<Longrightarrow> distinct xs"
  by (induction xs arbitrary: lo) (fastforce dest: spaced_mem)+

lemma spaced_apart:
  "spaced sz lo hi xs \<Longrightarrow> x \<in> set xs \<Longrightarrow> y \<in> set xs \<Longrightarrow> x \<noteq> y \<Longrightarrow> unat x + 24 + sz x \<le> unat y \<or> unat y + 24 + sz y \<le> unat x"
  by (induction xs arbitrary: lo) (fastforce dest: spaced_mem)+

lemma spaced_cong: "(\<And>x. x \<in> set xs \<Longrightarrow> sz' x = sz x) \<Longrightarrow> spaced sz' lo hi xs = spaced sz lo hi xs"
  by (induction xs arbitrary: lo) simp_all

lemma spaced_weaken: "spaced sz lo hi xs \<Longrightarrow> lo' \<le> lo \<Longrightarrow> hi \<le> hi' \<Longrightarrow> spaced sz lo' hi' xs"
  by (induction xs arbitrary: lo lo') fastforce+

lemma spaced_remove: "spaced sz lo hi (xs @ a # ys) \<Longrightarrow> spaced sz lo hi (xs @ ys)"
  by (induction xs arbitrary: lo) (auto elim: spaced_weaken)

text \<open>Where the gap behind a prefix of the headers begins and ends.\<close>

definition gap_lo :: "(u32 \<Rightarrow> nat) \<Rightarrow> nat \<Rightarrow> u32 list \<Rightarrow> nat" where
  "gap_lo sz lo xs = (if xs = [] then lo else unat (last xs) + 24 + sz (last xs))"

definition gap_hi :: "nat \<Rightarrow> u32 list \<Rightarrow> nat" where
  "gap_hi hi ys = (if ys = [] then hi else unat (hd ys))"

lemma spaced_split:
  "spaced sz lo hi (xs @ ys) \<longleftrightarrow> spaced sz lo (gap_lo sz lo xs) xs \<and> gap_lo sz lo xs \<le> gap_hi hi ys \<and> spaced sz (gap_hi hi ys) hi ys"
proof (cases xs rule: rev_cases)
  case Nil
  then show ?thesis by (cases ys) (auto simp: gap_lo_def gap_hi_def)
next
  case (snoc zs z)
  then show ?thesis by (cases ys) (auto simp: gap_lo_def gap_hi_def spaced_append)
qed

lemma spaced_insert:
  assumes "spaced sz lo hi (xs @ ys)" and "gap_lo sz lo xs \<le> unat a" and "unat a + 24 + sz a \<le> gap_hi hi ys"
  shows "spaced sz lo hi (xs @ a # ys)"
proof -
  have s: "spaced sz lo (gap_lo sz lo xs) xs" "spaced sz (gap_hi hi ys) hi ys" using assms(1) by (simp_all add: spaced_split)
  show ?thesis unfolding spaced_append
    using spaced_weaken [OF s(1) _ assms(2)] spaced_weaken [OF s(2) assms(3)] by simp
qed

lemma gap_outside:
  assumes "spaced sz lo hi (xs @ ys)" and "x \<in> set (xs @ ys)"
  shows "unat x + 24 + sz x \<le> gap_lo sz lo xs \<or> gap_hi hi ys \<le> unat x"
proof -
  have "spaced sz lo (gap_lo sz lo xs) xs" "spaced sz (gap_hi hi ys) hi ys" using assms(1) by (simp_all add: spaced_split)
  then show ?thesis using assms(2) by (auto dest: spaced_mem)
qed

lemma gap_bounds:
  assumes "spaced sz lo hi (xs @ ys)" shows "lo \<le> gap_lo sz lo xs" and "gap_hi hi ys \<le> hi"
proof -
  have "spaced sz lo (gap_lo sz lo xs) xs" "spaced sz (gap_hi hi ys) hi ys" using assms by (simp_all add: spaced_split)
  then show "lo \<le> gap_lo sz lo xs" "gap_hi hi ys \<le> hi" by (meson spaced_le add_leD1)+
qed

section \<open>Aligned pointers\<close>

text \<open>The pointer that is returned for the header at an address, and the number of bytes it was moved.\<close>

definition moved :: "u32 \<Rightarrow> u32" where
  "moved a = (let diff = (a + header_bytes + ALIGN_INFO) AND (ALIGNMENT - 1)
              in (if diff \<noteq> 0 then ALIGNMENT - diff else diff) + ALIGN_INFO)"

definition user_ptr :: "u32 \<Rightarrow> u32" where
  "user_ptr a = a + header_bytes + moved a"

lemma ALIGN_eq:
  "ALIGN (a + header_bytes) h = (user_ptr a, h\<lparr>align_info := (align_info h)(user_ptr a - ALIGN_INFO \<mapsto> ucast (moved a))\<rparr>)"
proof -
  define p where "p = a + header_bytes + ALIGN_INFO"
  define d where "d = (let diff = p AND (ALIGNMENT - 1) in if diff \<noteq> 0 then ALIGNMENT - diff else diff)"
  have m: "moved a = d + ALIGN_INFO" by (simp add: moved_def d_def p_def Let_def)
  have u: "user_ptr a = p + d" by (simp add: user_ptr_def m p_def)
  have "ALIGN (a + header_bytes) h = (p + d, h\<lparr>align_info := (align_info h)(p + d - ALIGN_INFO \<mapsto> ucast (d + ALIGN_INFO))\<rparr>)"
    unfolding ALIGN_def p_def [symmetric] Let_def d_def ..
  then show ?thesis by (simp only: u m)
qed

lemma and_15: "(p :: u32) AND 15 = p mod 16"
proof -
  have "(15 :: u32) = mask 4" by (simp add: mask_eq_exp_minus_1)
  then show ?thesis by (simp only: take_bit_eq_mask [symmetric]) (simp add: take_bit_eq_mod)
qed

lemma unat_mod16: "unat ((p :: u32) mod 16) = unat p mod 16"
  by (simp add: unat_mod)

lemma unat_plus: "unat x + unat y < 2 ^ 32 \<Longrightarrow> unat (x + y) = unat x + unat (y :: u32)"
  by (simp add: unat_add_lem [THEN iffD1])

lemma header_bytes_unat: "unat header_bytes = 24"
  by (simp add: header_bytes_def)

lemma moved_unat:
  assumes "unat a + 40 < 2 ^ 32"
  shows "unat (moved a) = 16 + (16 - (unat a + 40) mod 16) mod 16"
proof -
  define p where "p = a + header_bytes + ALIGN_INFO"
  have pa: "p = a + 40" by (simp add: p_def header_bytes_def ALIGN_INFO_def add.assoc)
  have u40: "unat (40 :: u32) = 40" by simp
  have up: "unat p = unat a + 40" unfolding pa using assms by (subst unat_add_lem [THEN iffD1]) simp_all
  define r where "r = p mod 16"
  have ur: "unat r = (unat a + 40) mod 16" unfolding r_def unat_mod16 up ..
  have mv: "moved a = (if r \<noteq> 0 then 16 - r else r) + 16"
    unfolding moved_def p_def [symmetric] by (simp add: ALIGNMENT_def ALIGN_INFO_def and_15 r_def Let_def)
  show ?thesis
  proof (cases "r = 0")
    case True
    then have "(unat a + 40) mod 16 = 0" using ur by simp
    then show ?thesis using mv True by simp
  next
    case False
    have lt: "unat r < 16" unfolding ur by simp
    have pos: "0 < unat r" using False by (simp add: unat_gt_0)
    have "unat (16 - r) = 16 - unat r" using lt by (subst unat_sub) (simp_all add: word_le_nat_alt)
    moreover have "unat (16 - r + 16) = unat (16 - r) + 16" by (subst unat_add_lem [THEN iffD1]) (use calculation in simp_all)
    ultimately have "unat (moved a) = 16 - unat r + 16" using mv False by simp
    then show ?thesis using ur lt pos by simp
  qed
qed

lemma moved_range:
  assumes "unat a + 40 < 2 ^ 32"
  shows "16 \<le> unat (moved a)" and "unat (moved a) < 32"
  unfolding moved_unat [OF assms] by simp_all

lemma user_ptr_unat:
  assumes "unat a + 56 \<le> 2 ^ 32"
  shows "unat (user_ptr a) = unat a + 24 + unat (moved a)"
proof -
  have m: "unat (moved a) < 32" by (rule moved_range) (use assms in simp)
  have 1: "unat (a + header_bytes) = unat a + 24"
    using unat_plus [of a header_bytes] assms by (simp only: header_bytes_unat)
  have "unat (a + header_bytes) + unat (moved a) < 2 ^ 32" unfolding 1 using assms m by linarith
  then show ?thesis unfolding user_ptr_def by (simp only: unat_plus 1)
qed

lemma pad_16: "(n + (16 - n mod 16) mod 16) mod 16 = (0 :: nat)"
proof (cases "n mod 16 = 0")
  case False
  have "n mod 16 < 16" by simp
  then have "(16 - n mod 16) mod 16 = 16 - n mod 16" using False by simp
  moreover have "(n + (16 - n mod 16)) mod 16 = (n mod 16 + (16 - n mod 16)) mod 16" by (rule mod_add_left_eq [symmetric])
  ultimately show ?thesis using \<open>n mod 16 < 16\<close> by simp
qed simp

lemma user_ptr_aligned:
  assumes "unat a + 56 \<le> 2 ^ 32" shows "unat (user_ptr a) mod 16 = 0"
proof -
  define r where "r = (unat a + 40) mod 16"
  have "unat (user_ptr a) = (unat a + 40) + (16 - r) mod 16"
    unfolding user_ptr_unat [OF assms] r_def using moved_unat [of a] assms by simp
  moreover have "((unat a + 40) + (16 - r) mod 16) mod 16 = 0"
    unfolding r_def by (rule pad_16)
  ultimately show ?thesis by simp
qed

lemma user_ptr_nonzero:
  assumes "unat a + 56 \<le> 2 ^ 32" shows "user_ptr a \<noteq> 0"
proof
  assume "user_ptr a = 0"
  then have "unat (user_ptr a) = 0" by simp
  then show False using user_ptr_unat [OF assms] by simp
qed

text \<open>The place of the byte in front of a pointer.\<close>

lemma info_unat:
  assumes "unat a + 56 \<le> 2 ^ 32"
  shows "unat (user_ptr a - ALIGN_INFO) = unat a + 24 + (unat (moved a) - 16)"
proof -
  have m: "16 \<le> unat (moved a)" by (rule moved_range) (use assms in simp)
  have "ALIGN_INFO \<le> user_ptr a" using m by (simp add: word_le_nat_alt user_ptr_unat [OF assms] ALIGN_INFO_def)
  then have "unat (user_ptr a - ALIGN_INFO) = unat (user_ptr a) - unat ALIGN_INFO" by (rule unat_sub)
  then show ?thesis using user_ptr_unat [OF assms] m by (simp add: ALIGN_INFO_def)
qed

lemma info_range:
  assumes "unat a + 56 \<le> 2 ^ 32"
  shows "unat a + 24 \<le> unat (user_ptr a - ALIGN_INFO)" and "unat (user_ptr a - ALIGN_INFO) < unat a + 40"
proof -
  have "16 \<le> unat (moved a)" "unat (moved a) < 32" by (rule moved_range, use assms in simp)+
  then show "unat a + 24 \<le> unat (user_ptr a - ALIGN_INFO)" "unat (user_ptr a - ALIGN_INFO) < unat a + 40"
    unfolding info_unat [OF assms] by linarith+
qed

lemma scast_small: "unat (w :: u32) < 128 \<Longrightarrow> scast (ucast w :: u8) = w"
proof -
  assume a: "unat w < 128"
  have "\<not> bit w n" if "7 \<le> n" for n
  proof -
    have "unat w < 2 ^ 7" using a by simp
    then have "\<not> bit (unat w) n" using that by (metis bit_take_bit_iff not_le take_bit_nat_eq_self)
    then show ?thesis by (simp add: bit_unsigned_iff)
  qed
  then show ?thesis by (intro bit_word_eqI) (auto simp: bit_simps min_def dest: bit_imp_le_length)
qed

lemma UNALIGN_user_ptr:
  assumes "unat a + 56 \<le> 2 ^ 32" and "align_info h (user_ptr a - ALIGN_INFO) = Some (ucast (moved a))"
  shows "UNALIGN (user_ptr a) h = Inr (a + header_bytes)"
proof -
  have m: "unat (moved a) < 32" by (rule moved_range) (use assms in simp)
  have s: "scast (ucast (moved a) :: u8) = moved a" by (rule scast_small) (use m in simp)
  have "moved a < ALIGNMENT + ALIGN_INFO" using m by (simp add: word_less_nat_alt ALIGNMENT_def ALIGN_INFO_def)
  then show ?thesis using assms(2) s by (simp add: UNALIGN_def Let_def user_ptr_def)
qed

section \<open>Well-formed heaps\<close>

text \<open>
  The shape of the heap is the list of its blocks of pages, each with the list of its headers. A
  header in use is in one of these lists; the lists are linked, in order, and within their blocks, the
  blocks lie apart, and the counters of used bytes are right.
\<close>

type_synonym shape = "(u32 \<times> u32 list) list"

definition minor_of :: "'w heap \<Rightarrow> u32 \<Rightarrow> liballoc_minor" where
  "minor_of h x = the (minors h x)"

definition major_of :: "'w heap \<Rightarrow> u32 \<Rightarrow> liballoc_major" where
  "major_of h b = the (majors h b)"

definition mn_bytes :: "'w heap \<Rightarrow> u32 \<Rightarrow> nat" where
  "mn_bytes h x = unat (mn_size (minor_of h x))"

definition chunk_end :: "'w heap \<Rightarrow> u32 \<Rightarrow> nat" where
  "chunk_end h b = unat b + unat (mj_size (major_of h b))"

definition minor_ok :: "'w heap \<Rightarrow> u32 \<Rightarrow> u32 \<Rightarrow> bool" where
  "minor_ok h b x \<longleftrightarrow> minors h x \<noteq> None \<and> mn_block (minor_of h x) = b \<and> mn_magic (minor_of h x) = LIBALLOC_MAGIC
     \<and> unat (mn_req_size (minor_of h x)) + 32 \<le> mn_bytes h x
     \<and> align_info h (user_ptr x - ALIGN_INFO) = Some (ucast (moved x))"

definition major_ok :: "'w heap \<Rightarrow> u32 \<Rightarrow> u32 list \<Rightarrow> bool" where
  "major_ok h b xs \<longleftrightarrow> majors h b \<noteq> None \<and> b \<noteq> 0 \<and> unat b mod 4096 = 0
     \<and> unat (mj_size (major_of h b)) = 4096 * unat (mj_pages (major_of h b)) \<and> mj_first (major_of h b) = hd (xs @ [0])
     \<and> unat (mj_usage (major_of h b)) = 24 + sum_list (map (\<lambda>x. 24 + mn_bytes h x) xs) \<and> chunk_end h b \<le> 2 ^ 32"

definition chunk_ok :: "'w heap \<Rightarrow> u32 \<Rightarrow> u32 list \<Rightarrow> bool" where
  "chunk_ok h b xs \<longleftrightarrow> major_ok h b xs \<and> (\<forall>x \<in> set xs. minor_ok h b x)
     \<and> linked (\<lambda>x. mn_next (minor_of h x)) (\<lambda>x. mn_prev (minor_of h x)) 0 xs 0
     \<and> spaced (mn_bytes h) (unat b + 24) (chunk_end h b) xs"

definition shape_ok :: "'w heap \<Rightarrow> shape \<Rightarrow> bool" where
  "shape_ok h cs \<longleftrightarrow> (\<forall>(b, xs) \<in> set cs. chunk_ok h b xs) \<and> distinct (map fst cs)
     \<and> (\<forall>b \<in> fst ` set cs. \<forall>c \<in> fst ` set cs. b \<noteq> c \<longrightarrow> chunk_end h b \<le> unat c \<or> chunk_end h c \<le> unat b)
     \<and> linked (\<lambda>b. mj_next (major_of h b)) (\<lambda>b. mj_prev (major_of h b)) 0 (map fst cs) 0
     \<and> l_memRoot h = hd (map fst cs @ [0]) \<and> (l_bestBet h = 0 \<or> l_bestBet h \<in> fst ` set cs)
     \<and> (\<forall>x m. minors h x = Some m \<longrightarrow> mn_magic m = LIBALLOC_MAGIC \<longrightarrow> (\<exists>(b, xs) \<in> set cs. x \<in> set xs))"

text \<open>The blocks handed out, with the sizes asked for.\<close>

definition live :: "'w heap \<Rightarrow> (u32 \<times> u32) set" where
  "live h = {(user_ptr x, mn_req_size m) |x m. minors h x = Some m \<and> mn_magic m = LIBALLOC_MAGIC}"

definition same_major :: "liballoc_major \<Rightarrow> liballoc_major \<Rightarrow> bool" where
  "same_major g k \<longleftrightarrow> mj_size g = mj_size k \<and> mj_pages g = mj_pages k \<and> mj_first g = mj_first k \<and> mj_usage g = mj_usage k"

lemma chunk_ok_cong:
  assumes "chunk_ok h b xs" and "majors h' b \<noteq> None" and "same_major (major_of h' b) (major_of h b)"
    and "\<And>x. x \<in> set xs \<Longrightarrow> minors h' x = minors h x"
    and "\<And>x. x \<in> set xs \<Longrightarrow> align_info h' (user_ptr x - ALIGN_INFO) = align_info h (user_ptr x - ALIGN_INFO)"
  shows "chunk_ok h' b xs"
proof -
  have m: "minor_of h' x = minor_of h x" "mn_bytes h' x = mn_bytes h x" if "x \<in> set xs" for x
    using assms(4) [OF that] by (simp_all add: minor_of_def mn_bytes_def)
  have g: "mj_size (major_of h' b) = mj_size (major_of h b)" "mj_pages (major_of h' b) = mj_pages (major_of h b)"
    "mj_first (major_of h' b) = mj_first (major_of h b)" "mj_usage (major_of h' b) = mj_usage (major_of h b)"
    "chunk_end h' b = chunk_end h b"
    using assms(3) by (simp_all add: same_major_def chunk_end_def)
  have "linked (\<lambda>x. mn_next (minor_of h' x)) (\<lambda>x. mn_prev (minor_of h' x)) 0 xs 0"
    using assms(1) m by (subst linked_cong [where nx = "\<lambda>x. mn_next (minor_of h x)" and pv = "\<lambda>x. mn_prev (minor_of h x)"])
      (simp_all add: chunk_ok_def)
  moreover have "spaced (mn_bytes h') (unat b + 24) (chunk_end h' b) xs"
    using assms(1) m g by (subst spaced_cong [where sz = "mn_bytes h"]) (simp_all add: chunk_ok_def)
  moreover have "sum_list (map (\<lambda>x. 24 + mn_bytes h' x) xs) = sum_list (map (\<lambda>x. 24 + mn_bytes h x) xs)"
    by (rule arg_cong [where f = sum_list]) (use m in simp)
  moreover have "\<forall>x \<in> set xs. minor_ok h' b x" using assms(1,4,5) m by (simp add: chunk_ok_def minor_ok_def)
  ultimately show ?thesis using assms(1,2) g by (simp add: chunk_ok_def major_ok_def)
qed

lemma chunk_spaced: "chunk_ok h b xs \<Longrightarrow> spaced (mn_bytes h) (unat b + 24) (chunk_end h b) xs"
  by (simp add: chunk_ok_def)

lemma chunk_major: "chunk_ok h b xs \<Longrightarrow> major_ok h b xs"
  by (simp add: chunk_ok_def)

lemma chunk_minor: "chunk_ok h b xs \<Longrightarrow> x \<in> set xs \<Longrightarrow> minor_ok h b x"
  by (simp add: chunk_ok_def)

lemma minor_inside:
  assumes "chunk_ok h b xs" and "x \<in> set xs"
  shows "unat b + 24 \<le> unat x" and "unat x + 24 + mn_bytes h x \<le> chunk_end h b" and "32 \<le> mn_bytes h x"
    and "unat x + 56 \<le> 2 ^ 32"
proof -
  show 1: "unat b + 24 \<le> unat x" "unat x + 24 + mn_bytes h x \<le> chunk_end h b"
    using spaced_mem [OF chunk_spaced [OF assms(1)] assms(2)] by simp_all
  show 2: "32 \<le> mn_bytes h x" using chunk_minor [OF assms] by (simp add: minor_ok_def)
  have "chunk_end h b \<le> 2 ^ 32" using chunk_major [OF assms(1)] by (simp add: major_ok_def)
  then show "unat x + 56 \<le> 2 ^ 32" using 1(2) 2 by linarith
qed

lemma info_inside:
  assumes "chunk_ok h b xs" and "x \<in> set xs"
  shows "unat x \<le> unat (user_ptr x - ALIGN_INFO)" and "unat (user_ptr x - ALIGN_INFO) < unat x + 24 + mn_bytes h x"
  using info_range [OF minor_inside(4) [OF assms]] minor_inside(3) [OF assms] by linarith+

lemma minor_nonzero: "chunk_ok h b xs \<Longrightarrow> x \<in> set xs \<Longrightarrow> x \<noteq> 0"
  using minor_inside(1) by fastforce

lemma shape_chunk: "shape_ok h cs \<Longrightarrow> (b, xs) \<in> set cs \<Longrightarrow> chunk_ok h b xs"
  by (auto simp: shape_ok_def)

lemma shape_apart:
  assumes "shape_ok h cs" and "(b, xs) \<in> set cs" and "(c, ys) \<in> set cs" and "b \<noteq> c"
  shows "chunk_end h b \<le> unat c \<or> chunk_end h c \<le> unat b"
  using assms unfolding shape_ok_def by (metis fst_conv image_eqI)

text \<open>What a new header changes, if its neighbours lie outside of the memory it takes.\<close>

lemma place_minor_fields:
  assumes "\<forall>x \<in> set (xs @ ys). x \<noteq> 0 \<and> x \<noteq> a \<and> \<not> within (unat a) (unat a + 24 + unat sz) x"
    and "set xs \<inter> set ys = {}"
    and h'_def: "h' = snd (place_minor b (last (0 # xs)) (hd (ys @ [0])) a sz req h)"
  shows "fst (place_minor b (last (0 # xs)) (hd (ys @ [0])) a sz req h) = user_ptr a"
    and "majors h' = (majors h)(b := map_option (\<lambda>g. g\<lparr>mj_first := (if xs = [] then a else mj_first g),
           mj_usage := mj_usage g + (sz + header_bytes)\<rparr>) (majors h b))"
    and "minors h' y = (if y = a then Some \<lparr>mn_prev = last (0 # xs), mn_next = hd (ys @ [0]), mn_block = b,
             mn_magic = LIBALLOC_MAGIC, mn_size = sz, mn_req_size = req\<rparr>
           else if within (unat a) (unat a + 24 + unat sz) y then None
           else map_option (\<lambda>m. m\<lparr>mn_prev := (if ys \<noteq> [] \<and> y = hd ys then a else mn_prev m),
                                  mn_next := (if xs \<noteq> [] \<and> y = last xs then a else mn_next m)\<rparr>) (minors h y))"
    and "align_info h' z = (if z = user_ptr a - ALIGN_INFO then Some (ucast (moved a))
           else if within (unat a) (unat a + 24 + unat sz) z then None else align_info h z)"
    and "hmem h' = hmem h" and "hook_state h' = hook_state h" and "l_memRoot h' = l_memRoot h" and "l_bestBet h' = l_bestBet h"
proof -
  let ?p = "last (0 # xs)" and ?n = "hd (ys @ [0])"
  have p: "?p \<noteq> 0 \<longleftrightarrow> xs \<noteq> []" "xs \<noteq> [] \<Longrightarrow> ?p = last xs" "xs \<noteq> [] \<Longrightarrow> last xs \<noteq> a \<and> \<not> within (unat a) (unat a + 24 + unat sz) (last xs)"
    using bspec [OF assms(1), of "last xs"] by auto
  have n: "?n \<noteq> 0 \<longleftrightarrow> ys \<noteq> []" "ys \<noteq> [] \<Longrightarrow> ?n = hd ys" "ys \<noteq> [] \<Longrightarrow> hd ys \<noteq> a \<and> \<not> within (unat a) (unat a + 24 + unat sz) (hd ys)"
    using bspec [OF assms(1), of "hd ys"] by (cases ys; simp)+
  have ne: "xs \<noteq> [] \<Longrightarrow> ys \<noteq> [] \<Longrightarrow> last xs \<noteq> hd ys" using assms(2) by (metis IntI empty_iff hd_in_set last_in_set)
  note d = h'_def place_minor_def Let_def ALIGN_eq upd_minor_def upd_major_def forget_def
  show "fst (place_minor b ?p ?n a sz req h) = user_ptr a" by (simp add: d)
  show "majors h' = (majors h)(b := map_option (\<lambda>g. g\<lparr>mj_first := (if xs = [] then a else mj_first g),
           mj_usage := mj_usage g + (sz + header_bytes)\<rparr>) (majors h b))"
    using p(1) by (cases "majors h b") (auto simp: d fun_eq_iff)
  show "minors h' y = (if y = a then Some \<lparr>mn_prev = ?p, mn_next = ?n, mn_block = b,
             mn_magic = LIBALLOC_MAGIC, mn_size = sz, mn_req_size = req\<rparr>
           else if within (unat a) (unat a + 24 + unat sz) y then None
           else map_option (\<lambda>m. m\<lparr>mn_prev := (if ys \<noteq> [] \<and> y = hd ys then a else mn_prev m),
                                  mn_next := (if xs \<noteq> [] \<and> y = last xs then a else mn_next m)\<rparr>) (minors h y))"
    using p n ne by (cases "minors h y"; cases "xs = []"; cases "ys = []") (auto simp: d)
  show "align_info h' z = (if z = user_ptr a - ALIGN_INFO then Some (ucast (moved a))
           else if within (unat a) (unat a + 24 + unat sz) z then None else align_info h z)" by (simp add: d)
  show "hmem h' = hmem h" "hook_state h' = hook_state h" "l_memRoot h' = l_memRoot h" "l_bestBet h' = l_bestBet h" by (simp_all add: d)
qed

lemma minor_update_id: "map_option (\<lambda>m. m\<lparr>mn_prev := mn_prev m, mn_next := mn_next m\<rparr>) z = z"
  by (cases z) simp_all

lemma shape_unique: "shape_ok h cs \<Longrightarrow> (b, xs) \<in> set cs \<Longrightarrow> (b, ys) \<in> set cs \<Longrightarrow> xs = ys"
  unfolding shape_ok_def by (metis eq_key_imp_eq_value)

lemma shape_minor_once:
  "shape_ok h cs \<Longrightarrow> (b, xs) \<in> set cs \<Longrightarrow> (c, ys) \<in> set cs \<Longrightarrow> x \<in> set xs \<Longrightarrow> x \<in> set ys \<Longrightarrow> b = c"
  using chunk_minor [OF shape_chunk] unfolding minor_ok_def by metis

lemma chunk_start: "chunk_ok h b xs \<Longrightarrow> 4096 \<le> unat b"
proof -
  assume "chunk_ok h b xs"
  then have "b \<noteq> 0" "unat b mod 4096 = 0" using chunk_major by (auto simp: major_ok_def)
  then have "unat b \<noteq> 0" "4096 dvd unat b" by (simp_all add: unat_eq_0 mod_eq_0_iff_dvd)
  then show ?thesis by (meson dvd_imp_le neq0_conv)
qed

text \<open>No header in use, and no byte in front of a pointer, lies in a gap.\<close>

lemma gap_clear:
  assumes ok: "shape_ok h cs" and b: "(b, xs @ ys) \<in> set cs"
    and lo: "gap_lo (mn_bytes h) (unat b + 24) xs \<le> lo" and hi: "hi \<le> gap_hi (chunk_end h b) ys"
    and c: "(c, zs) \<in> set cs" and x: "x \<in> set zs" and u: "lo \<le> u" "u < hi"
  shows "\<not> (unat x \<le> u \<and> u < unat x + 24 + mn_bytes h x)"
proof (cases "c = b")
  case True
  then have zs: "zs = xs @ ys" using shape_unique [OF ok b] c by simp
  show ?thesis using gap_outside [OF chunk_spaced [OF shape_chunk [OF ok b]], of x] x zs lo hi u by auto
next
  case False
  note i = minor_inside(1,2) [OF shape_chunk [OF ok c] x]
  note g = gap_bounds [OF chunk_spaced [OF shape_chunk [OF ok b]]]
  show ?thesis using shape_apart [OF ok b c] False i g lo hi u by auto
qed

text \<open>Exchanging the headers of one block of pages leaves the others.\<close>

lemma shape_replace:
  assumes ok: "shape_ok h (as @ (b, xs) # bs)" and cb: "chunk_ok h' b zs"
    and mj: "\<And>c. c \<noteq> b \<Longrightarrow> majors h' c = majors h c"
    and lk: "mj_next (major_of h' b) = mj_next (major_of h b)" "mj_prev (major_of h' b) = mj_prev (major_of h b)"
    and ce: "chunk_end h' b = chunk_end h b"
    and keep: "\<And>c ys x. (c, ys) \<in> set (as @ (b, xs) # bs) \<Longrightarrow> c \<noteq> b \<Longrightarrow> x \<in> set ys \<Longrightarrow> minors h' x = minors h x
       \<and> align_info h' (user_ptr x - ALIGN_INFO) = align_info h (user_ptr x - ALIGN_INFO)"
    and root: "l_memRoot h' = l_memRoot h" "l_bestBet h' = l_bestBet h"
    and known: "\<And>x m. minors h' x = Some m \<Longrightarrow> mn_magic m = LIBALLOC_MAGIC \<Longrightarrow> x \<notin> set zs
       \<Longrightarrow> x \<notin> set xs \<and> (\<exists>k. minors h x = Some k \<and> mn_magic k = LIBALLOC_MAGIC)"
  shows "shape_ok h' (as @ (b, zs) # bs)"
proof -
  let ?cs = "as @ (b, xs) # bs"
  have mo: "major_of h' c = major_of h c" if "c \<noteq> b" for c using mj [OF that] by (simp add: major_of_def)
  have link: "mj_next (major_of h' c) = mj_next (major_of h c)" "mj_prev (major_of h' c) = mj_prev (major_of h c)"
    "chunk_end h' c = chunk_end h c" for c
    using mo [of c] lk ce by (cases "c = b"; simp add: chunk_end_def)+
  have oth: "chunk_ok h' c ys" if c: "(c, ys) \<in> set (as @ bs)" for c ys
  proof -
    have c': "(c, ys) \<in> set ?cs" "c \<noteq> b" using c ok unfolding shape_ok_def by (auto simp: image_iff)
    note cc = shape_chunk [OF ok c'(1)]
    show ?thesis
      by (rule chunk_ok_cong [OF cc]) (use c' keep mj mo chunk_major [OF cc] in \<open>simp_all add: same_major_def major_ok_def\<close>)
  qed
  have "\<exists>(c, ys) \<in> set (as @ (b, zs) # bs). x \<in> set ys" if m: "minors h' x = Some m" "mn_magic m = LIBALLOC_MAGIC" for x m
  proof (cases "x \<in> set zs")
    case False
    then obtain k where k: "x \<notin> set xs" "minors h x = Some k" "mn_magic k = LIBALLOC_MAGIC" using known [OF m] by blast
    then obtain c ys where "(c, ys) \<in> set ?cs" "x \<in> set ys" using ok unfolding shape_ok_def by blast
    then show ?thesis using k(1) by auto
  qed auto
  then show ?thesis using ok cb oth root by (auto simp: shape_ok_def link)
qed

lemma bytes_cong:
  assumes "\<And>x. x \<in> set xs \<Longrightarrow> mn_bytes h' x = mn_bytes h x"
  shows "sum_list (map (\<lambda>x. 24 + mn_bytes h' x) xs) = sum_list (map (\<lambda>x. 24 + mn_bytes h x) xs)"
  by (rule arg_cong [where f = sum_list]) (use assms in simp)

text \<open>A heap with a new header between two others.\<close>

definition placed :: "'w heap \<Rightarrow> u32 \<Rightarrow> u32 list \<Rightarrow> u32 \<Rightarrow> u32 list \<Rightarrow> u32 \<Rightarrow> u32 \<Rightarrow> 'w heap \<Rightarrow> bool" where
  "placed h b xs a ys sz req h' \<longleftrightarrow>
     majors h' = (majors h)(b := map_option (\<lambda>g. g\<lparr>mj_first := (if xs = [] then a else mj_first g),
       mj_usage := mj_usage g + (sz + header_bytes)\<rparr>) (majors h b))
     \<and> (\<forall>y. minors h' y = (if y = a then Some \<lparr>mn_prev = last (0 # xs), mn_next = hd (ys @ [0]), mn_block = b,
             mn_magic = LIBALLOC_MAGIC, mn_size = sz, mn_req_size = req\<rparr>
           else if within (unat a) (unat a + 24 + unat sz) y then None
           else map_option (\<lambda>m. m\<lparr>mn_prev := (if ys \<noteq> [] \<and> y = hd ys then a else mn_prev m),
                                  mn_next := (if xs \<noteq> [] \<and> y = last xs then a else mn_next m)\<rparr>) (minors h y)))
     \<and> (\<forall>z. align_info h' z = (if z = user_ptr a - ALIGN_INFO then Some (ucast (moved a))
           else if within (unat a) (unat a + 24 + unat sz) z then None else align_info h z))
     \<and> l_memRoot h' = l_memRoot h \<and> l_bestBet h' = l_bestBet h"

lemma placedD:
  assumes "placed h b xs a ys sz req h'"
  shows "majors h' = (majors h)(b := map_option (\<lambda>g. g\<lparr>mj_first := (if xs = [] then a else mj_first g),
       mj_usage := mj_usage g + (sz + header_bytes)\<rparr>) (majors h b))"
    and "minors h' y = (if y = a then Some \<lparr>mn_prev = last (0 # xs), mn_next = hd (ys @ [0]), mn_block = b,
             mn_magic = LIBALLOC_MAGIC, mn_size = sz, mn_req_size = req\<rparr>
           else if within (unat a) (unat a + 24 + unat sz) y then None
           else map_option (\<lambda>m. m\<lparr>mn_prev := (if ys \<noteq> [] \<and> y = hd ys then a else mn_prev m),
                                  mn_next := (if xs \<noteq> [] \<and> y = last xs then a else mn_next m)\<rparr>) (minors h y))"
    and "align_info h' z = (if z = user_ptr a - ALIGN_INFO then Some (ucast (moved a))
           else if within (unat a) (unat a + 24 + unat sz) z then None else align_info h z)"
    and "l_memRoot h' = l_memRoot h" and "l_bestBet h' = l_bestBet h"
  using assms unfolding placed_def by blast+

lemma placed_view:
  assumes p: "placed h b xs a ys sz req h'" and cb: "chunk_ok h b (xs @ ys)"
    and out: "\<forall>x \<in> set (xs @ ys). x \<noteq> a \<and> \<not> within (unat a) (unat a + 24 + unat sz) x"
  shows "major_of h' c = (if c = b then (major_of h b)\<lparr>mj_first := (if xs = [] then a else mj_first (major_of h b)),
      mj_usage := mj_usage (major_of h b) + (sz + header_bytes)\<rparr> else major_of h c)"
    and "chunk_end h' c = chunk_end h c"
    and "minor_of h' a = \<lparr>mn_prev = last (0 # xs), mn_next = hd (ys @ [0]), mn_block = b,
             mn_magic = LIBALLOC_MAGIC, mn_size = sz, mn_req_size = req\<rparr>"
    and "x \<in> set (xs @ ys) \<Longrightarrow> minors h' x \<noteq> None"
    and "x \<in> set (xs @ ys) \<Longrightarrow> minor_of h' x = (minor_of h x)\<lparr>mn_prev := (if ys \<noteq> [] \<and> x = hd ys then a else mn_prev (minor_of h x)),
      mn_next := (if xs \<noteq> [] \<and> x = last xs then a else mn_next (minor_of h x))\<rparr>"
    and "mn_bytes h' a = unat sz" and "x \<in> set (xs @ ys) \<Longrightarrow> mn_bytes h' x = mn_bytes h x"
proof -
  note f = placedD [OF p]
  have mj: "majors h b \<noteq> None" using chunk_major [OF cb] by (simp add: major_ok_def)
  show mo: "major_of h' c = (if c = b then (major_of h b)\<lparr>mj_first := (if xs = [] then a else mj_first (major_of h b)),
      mj_usage := mj_usage (major_of h b) + (sz + header_bytes)\<rparr> else major_of h c)" for c
    using mj by (auto simp: major_of_def f(1))
  show "chunk_end h' c = chunk_end h c" by (simp add: chunk_end_def mo)
  show ma: "minor_of h' a = \<lparr>mn_prev = last (0 # xs), mn_next = hd (ys @ [0]), mn_block = b,
             mn_magic = LIBALLOC_MAGIC, mn_size = sz, mn_req_size = req\<rparr>" by (simp add: minor_of_def f(2))
  show "x \<in> set (xs @ ys) \<Longrightarrow> minors h' x \<noteq> None"
    and mx: "x \<in> set (xs @ ys) \<Longrightarrow> minor_of h' x = (minor_of h x)\<lparr>mn_prev := (if ys \<noteq> [] \<and> x = hd ys then a else mn_prev (minor_of h x)),
      mn_next := (if xs \<noteq> [] \<and> x = last xs then a else mn_next (minor_of h x))\<rparr>" for x
    using out chunk_minor [OF cb, of x] by (auto simp: minor_of_def f(2) minor_ok_def)
  show "mn_bytes h' a = unat sz" "x \<in> set (xs @ ys) \<Longrightarrow> mn_bytes h' x = mn_bytes h x"
    by (simp_all add: mn_bytes_def ma mx)
qed

lemma placed_usage:
  assumes p: "placed h b xs a ys sz req h'" and cb: "chunk_ok h b (xs @ ys)"
    and out: "\<forall>x \<in> set (xs @ ys). x \<noteq> a \<and> \<not> within (unat a) (unat a + 24 + unat sz) x"
    and sp: "spaced (mn_bytes h') (unat b + 24) (chunk_end h' b) (xs @ a # ys)"
  shows "unat (mj_usage (major_of h' b)) = 24 + sum_list (map (\<lambda>x. 24 + mn_bytes h' x) (xs @ a # ys))"
proof -
  note v = placed_view [OF p cb out]
  let ?S = "sum_list (map (\<lambda>x. 24 + mn_bytes h x) (xs @ ys))"
  have "sum_list (map (\<lambda>x. 24 + mn_bytes h' x) (xs @ ys)) = ?S" by (rule bytes_cong) (rule v(7))
  then have sum: "sum_list (map (\<lambda>x. 24 + mn_bytes h' x) (xs @ a # ys)) = ?S + (24 + unat sz)" by (simp add: v(6))
  have "chunk_end h b \<le> 2 ^ 32" using chunk_major [OF cb] by (simp add: major_ok_def)
  then have "unat b + 24 + sum_list (map (\<lambda>x. 24 + mn_bytes h' x) (xs @ a # ys)) \<le> 2 ^ 32"
    using spaced_le [OF sp] unfolding v(2) by linarith
  then have tot: "24 + ?S + (24 + unat sz) < 2 ^ 32" unfolding sum using chunk_start [OF cb] by linarith
  have us: "unat (sz + header_bytes) = unat sz + 24"
    using unat_plus [of sz header_bytes] tot by (simp only: header_bytes_unat)
  have us0: "unat (mj_usage (major_of h b)) = 24 + ?S" using chunk_major [OF cb] by (simp add: major_ok_def)
  have "unat (mj_usage (major_of h b) + (sz + header_bytes)) = unat (mj_usage (major_of h b)) + unat (sz + header_bytes)"
    by (rule unat_plus) (use tot in \<open>simp only: us us0\<close>)
  then show ?thesis unfolding sum by (simp only: v(1) us us0 if_True liballoc_major.simps) simp
qed

lemma placed_chunk:
  assumes p: "placed h b xs a ys sz req h'" and cb: "chunk_ok h b (xs @ ys)"
    and lo: "gap_lo (mn_bytes h) (unat b + 24) xs \<le> unat a" and hi: "unat a + 24 + unat sz \<le> gap_hi (chunk_end h b) ys"
    and req: "unat req + 32 \<le> unat sz"
    and out: "\<forall>x \<in> set (xs @ ys). x \<noteq> a \<and> \<not> within (unat a) (unat a + 24 + unat sz) x"
    and info: "\<forall>x \<in> set (xs @ ys). \<not> within (unat a) (unat a + 24 + unat sz) (user_ptr x - ALIGN_INFO) \<and> user_ptr x - ALIGN_INFO \<noteq> user_ptr a - ALIGN_INFO"
  shows "chunk_ok h' b (xs @ a # ys)"
proof -
  note v = placed_view [OF p cb out] and f = placedD [OF p] and sp = chunk_spaced [OF cb]
  have dj: "distinct (xs @ ys)" by (rule spaced_distinct [OF sp])
  have sp': "spaced (mn_bytes h') (unat b + 24) (chunk_end h' b) (xs @ a # ys)"
  proof (rule spaced_insert)
    show "spaced (mn_bytes h') (unat b + 24) (chunk_end h' b) (xs @ ys)"
      using sp v(2,7) by (subst spaced_cong [where sz = "mn_bytes h"]) simp_all
    show "gap_lo (mn_bytes h') (unat b + 24) xs \<le> unat a" using lo v(7) by (cases "xs = []") (simp_all add: gap_lo_def)
    show "unat a + 24 + mn_bytes h' a \<le> gap_hi (chunk_end h' b) ys" using hi by (simp add: v(2,6))
  qed
  have an: "a \<notin> set (xs @ ys)" using out by blast
  have link: "linked (\<lambda>x. mn_next (minor_of h' x)) (\<lambda>x. mn_prev (minor_of h' x)) 0 (xs @ a # ys) 0"
    by (rule linked_insert [OF _ dj an, where nx = "\<lambda>x. mn_next (minor_of h x)" and pv = "\<lambda>x. mn_prev (minor_of h x)"])
      (use cb in \<open>simp_all add: chunk_ok_def v(3,5)\<close>)
  have major: "major_ok h' b (xs @ a # ys)"
    using chunk_major [OF cb] placed_usage [OF p cb out sp'] v(2) by (cases xs) (simp_all add: major_ok_def v(1) f(1))
  have "minor_ok h' b x" if "x \<in> set (xs @ a # ys)" for x
  proof (cases "x = a")
    case True
    then show ?thesis using req by (simp add: minor_ok_def v(3,6) f(2,3))
  next
    case False
    then have "x \<in> set (xs @ ys)" using that by simp
    then show ?thesis using chunk_minor [OF cb] out info v(4,5,7) by (simp add: minor_ok_def f(3))
  qed
  then show ?thesis using major link sp' by (simp add: chunk_ok_def)
qed

definition in_use :: "'w heap \<Rightarrow> u32 \<Rightarrow> u32 \<Rightarrow> bool" where
  "in_use h x q \<longleftrightarrow> (\<exists>m. minors h x = Some m \<and> mn_magic m = LIBALLOC_MAGIC \<and> mn_req_size m = q)"

lemma live_iff: "(p, q) \<in> live h \<longleftrightarrow> (\<exists>x. p = user_ptr x \<and> in_use h x q)"
  by (auto simp: live_def in_use_def)

lemma placed_live:
  assumes p: "placed h b xs a ys sz req h'"
    and used: "\<And>x q. in_use h x q \<Longrightarrow> x \<noteq> a \<and> \<not> within (unat a) (unat a + 24 + unat sz) x \<and> user_ptr x \<noteq> user_ptr a"
  shows "live h' = insert (user_ptr a, req) (live h)" and "user_ptr a \<notin> fst ` live h"
proof -
  note f = placedD(2) [OF p]
  have new: "in_use h' x q \<longleftrightarrow> x = a \<and> q = req \<or> in_use h x q" for x q
  proof (cases "x = a \<or> within (unat a) (unat a + 24 + unat sz) x")
    case True
    then have "\<not> in_use h x q" using used by blast
    then show ?thesis using True by (auto simp: in_use_def f)
  next
    case False
    then show ?thesis by (cases "minors h x") (simp_all add: in_use_def f)
  qed
  have "(r, q) \<in> live h' \<longleftrightarrow> (r, q) \<in> insert (user_ptr a, req) (live h)" for r q
    unfolding live_iff new insert_iff by blast
  then show "live h' = insert (user_ptr a, req) (live h)" by auto
  show "user_ptr a \<notin> fst ` live h"
  proof
    assume "user_ptr a \<in> fst ` live h"
    then obtain q where "(user_ptr a, q) \<in> live h" by auto
    then show False unfolding live_iff using used by metis
  qed
qed

lemma place_minor_ok:
  assumes ok: "shape_ok h (as @ (b, xs @ ys) # bs)"
    and lo: "gap_lo (mn_bytes h) (unat b + 24) xs \<le> unat a" and hi: "unat a + 24 + unat sz \<le> gap_hi (chunk_end h b) ys"
    and req: "unat req + 32 \<le> unat sz"
    and r: "place_minor b (last (0 # xs)) (hd (ys @ [0])) a sz req h = (p, h')"
  shows "shape_ok h' (as @ (b, xs @ a # ys) # bs)" and "p = user_ptr a" and "live h' = insert (p, req) (live h)"
    and "hmem h' = hmem h" and "hook_state h' = hook_state h" and "\<And>c. chunk_end h' c = chunk_end h c"
    and "p \<notin> fst ` live h"
proof -
  let ?cs = "as @ (b, xs @ ys) # bs" and ?R = "within (unat a) (unat a + 24 + unat sz)"
  let ?i = "\<lambda>x. user_ptr x - ALIGN_INFO"
  have b: "(b, xs @ ys) \<in> set ?cs" by simp
  note cb = shape_chunk [OF ok b]
  have clear: "x \<noteq> a \<and> \<not> ?R x \<and> \<not> ?R (?i x) \<and> ?i x \<noteq> ?i a" if c: "(c, zs) \<in> set ?cs" "x \<in> set zs" for c zs x
  proof -
    note g = gap_clear [OF ok b lo hi c] and k = info_inside [OF shape_chunk [OF ok c(1)] c(2)]
    have "chunk_end h b \<le> 2 ^ 32" using chunk_major [OF cb] by (simp add: major_ok_def)
    then have a: "unat a + 56 \<le> 2 ^ 32" using gap_bounds [OF chunk_spaced [OF cb]] lo hi req by linarith
    have n: "\<not> ?R x" "\<not> ?R (?i x)" using g [of "unat x"] g [of "unat (?i x)"] k by (auto simp: within_def)
    have "?R a" "?R (?i a)" using info_range [OF a] req by (auto simp: within_def)
    then show ?thesis using n by metis
  qed
  have out: "\<forall>x \<in> set (xs @ ys). x \<noteq> 0 \<and> x \<noteq> a \<and> \<not> ?R x" using clear [OF b] minor_nonzero [OF cb] by simp
  then have out': "\<forall>x \<in> set (xs @ ys). x \<noteq> a \<and> \<not> ?R x" by blast
  have dj: "set xs \<inter> set ys = {}" using spaced_distinct [OF chunk_spaced [OF cb]] by simp
  have h': "h' = snd (place_minor b (last (0 # xs)) (hd (ys @ [0])) a sz req h)" using r by simp
  note f = place_minor_fields [OF out dj h']
  have pl: "placed h b xs a ys sz req h'" using f by (simp add: placed_def)
  note v = placed_view [OF pl cb out']
  show p: "p = user_ptr a" using f(1) r by simp
  show "hmem h' = hmem h" "hook_state h' = hook_state h" "\<And>c. chunk_end h' c = chunk_end h c" by (simp_all only: f(5,6) v(2))
  have cb': "chunk_ok h' b (xs @ a # ys)" by (rule placed_chunk [OF pl cb lo hi req out']) (use clear [OF b] in blast)
  have keep: "minors h' x = minors h x" if c: "(c, zs) \<in> set ?cs" "c \<noteq> b" "x \<in> set zs" for c zs x
  proof -
    have "x \<notin> set (xs @ ys)" using shape_minor_once [OF ok c(1) b c(3)] c(2) by blast
    then have n: "(ys \<noteq> [] \<and> x = hd ys) = False" "(xs \<noteq> [] \<and> x = last xs) = False" by auto
    show ?thesis unfolding f(3) n if_False minor_update_id using clear [OF c(1,3)] by simp
  qed
  show "shape_ok h' (as @ (b, xs @ a # ys) # bs)"
  proof (rule shape_replace [OF ok cb'])
    show "minors h' x = minors h x \<and> align_info h' (?i x) = align_info h (?i x)"
      if c: "(c, zs) \<in> set ?cs" "c \<noteq> b" "x \<in> set zs" for c zs x
      using keep [OF c] clear [OF c(1,3)] by (simp add: f(4))
    show "x \<notin> set (xs @ ys) \<and> (\<exists>k. minors h x = Some k \<and> mn_magic k = LIBALLOC_MAGIC)"
      if "minors h' x = Some m" "mn_magic m = LIBALLOC_MAGIC" "x \<notin> set (xs @ a # ys)" for x m
      using that by (auto simp: f(3) split: if_splits)
  qed (simp_all add: v f)
  have used: "x \<noteq> a \<and> \<not> ?R x \<and> user_ptr x \<noteq> user_ptr a" if u: "in_use h x q" for x q
  proof -
    obtain c zs where "(c, zs) \<in> set ?cs" "x \<in> set zs" using ok u unfolding shape_ok_def in_use_def by blast
    then show ?thesis using clear [of c zs x] by auto
  qed
  show "live h' = insert (p, req) (live h)" "p \<notin> fst ` live h" unfolding p by (rule placed_live [OF pl], erule used)+
qed

section \<open>Finding room\<close>

text \<open>One more block is handed out in one of the blocks of pages; nothing else changes.\<close>

definition fitted :: "'w heap \<Rightarrow> shape \<Rightarrow> u32 \<Rightarrow> shape \<Rightarrow> u32 \<Rightarrow> u32 \<times> 'w heap \<Rightarrow> bool" where
  "fitted h as b bs req ph \<longleftrightarrow> (case ph of (p, h') \<Rightarrow>
     (\<exists>a zs. a \<in> set zs \<and> shape_ok h' (as @ (b, zs) # bs) \<and> p = user_ptr a) \<and> live h' = insert (p, req) (live h)
     \<and> p \<notin> fst ` live h \<and> hmem h' = hmem h \<and> hook_state h' = hook_state h \<and> (\<forall>c. chunk_end h' c = chunk_end h c))"

lemma fitted_place:
  assumes "shape_ok h (as @ (b, xs @ ys) # bs)"
    and "gap_lo (mn_bytes h) (unat b + 24) xs \<le> unat a" and "unat a + 24 + unat sz \<le> gap_hi (chunk_end h b) ys"
    and "unat req + 32 \<le> unat sz"
  shows "fitted h as b bs req (place_minor b (last (0 # xs)) (hd (ys @ [0])) a sz req h)"
proof -
  obtain p h' where r: "place_minor b (last (0 # xs)) (hd (ys @ [0])) a sz req h = (p, h')" by (metis surj_pair)
  note k = place_minor_ok [OF assms r]
  have "a \<in> set (xs @ a # ys)" by simp
  then show ?thesis unfolding r fitted_def prod.case using k by blast
qed

lemma unat_distance:
  fixes e x m :: u32
  assumes "unat x + 24 + unat m \<le> n" and "n \<le> 2 ^ 32" and "e = word_of_nat n"
  shows "unat (e - x - header_bytes - m) = n - (unat x + 24 + unat m)"
proof -
  let ?k = "n - (unat x + 24 + unat m)"
  have "(word_of_nat ?k :: u32) = word_of_nat n - word_of_nat (unat x + 24 + unat m)"
    using assms(1) by (rule of_nat_diff)
  also have "\<dots> = e - x - header_bytes - m" by (simp add: assms(3) header_bytes_def algebra_simps)
  finally have w: "e - x - header_bytes - m = word_of_nat ?k" by simp
  have "?k < 2 ^ LENGTH(32)" using assms(2) by simp
  then show ?thesis unfolding w by (rule unat_word_of_nat)
qed

lemma unat_sum3:
  fixes x m :: u32
  assumes "unat x + 24 + unat m < 2 ^ 32"
  shows "unat (x + header_bytes + m) = unat x + 24 + unat m"
proof -
  have "unat (x + header_bytes) = unat x + 24" using unat_plus [of x header_bytes] assms by (simp only: header_bytes_unat)
  then show ?thesis using unat_plus [of "x + header_bytes" m] assms by simp
qed

lemma need_unat: "unat sz + 48 < 2 ^ 32 \<Longrightarrow> unat (sz + header_bytes) = unat sz + 24"
  using unat_plus [of sz header_bytes] by (simp only: header_bytes_unat)

lemma minor_next:
  assumes "chunk_ok h b (xs @ x # ys)"
  shows "get_minor x h = Inr (minor_of h x)" and "mn_next (minor_of h x) = hd (ys @ [0])"
proof -
  have "minors h x \<noteq> None" using chunk_minor [OF assms, of x] by (simp add: minor_ok_def)
  then show "get_minor x h = Inr (minor_of h x)" by (auto simp: get_minor_def minor_of_def)
  show "mn_next (minor_of h x) = hd (ys @ [0])" using assms by (simp add: chunk_ok_def linked_append)
qed

lemma hd_zero_iff: "0 \<notin> set ys \<Longrightarrow> hd (ys @ [0]) = (0 :: u32) \<longleftrightarrow> ys = []"
  by (cases ys) auto

lemma chunk_get:
  assumes "chunk_ok h b xs"
  shows "get_major b h = Inr (major_of h b)" and "b \<noteq> 0"
  using chunk_major [OF assms] by (auto simp: major_ok_def get_major_def major_of_def)

lemma chunk_end_word: "word_of_nat (chunk_end h b) = b + mj_size (major_of h b)"
  by (simp add: chunk_end_def)

lemma minor_loop_ok:
  assumes "shape_ok h (as @ (b, xs @ ys) # bs)" and "xs \<noteq> [] \<or> ys \<noteq> []" and "length ys < fuel"
    and "unat req + 32 \<le> unat sz" and "unat sz + 48 < 2 ^ 32"
  shows "\<exists>r. minor_loop fuel b (hd (ys @ [0])) sz req h = Inr r \<and> (case r of None \<Rightarrow> True | Some ph \<Rightarrow> fitted h as b bs req ph)"
  using assms
proof (induction ys arbitrary: xs fuel)
  case Nil
  then obtain n where "fuel = Suc n" by (cases fuel) auto
  then show ?case by simp
next
  case (Cons x ys)
  obtain n where n: "fuel = Suc n" using Cons.prems(3) by (cases fuel) auto
  let ?g = "major_of h b" and ?m = "minor_of h x" and ?a = "x + header_bytes + mn_size (minor_of h x)"
  have cb: "chunk_ok h b (xs @ x # ys)" by (rule shape_chunk [OF Cons.prems(1)]) simp
  have ok: "shape_ok h (as @ (b, (xs @ [x]) @ ys) # bs)" using Cons.prems(1) by simp
  have sp: "spaced (mn_bytes h) (unat b + 24) (chunk_end h b) ((xs @ [x]) @ ys)" using chunk_spaced [OF cb] by simp
  note mn = minor_next [OF cb]
  have z: "0 \<notin> set (xs @ x # ys)" using minor_nonzero [OF cb] by blast
  then have x0: "x \<noteq> 0" and nz: "mn_next ?m = 0 \<longleftrightarrow> ys = []" using hd_zero_iff [of ys] mn(2) by auto
  define D where "D = (if mn_next ?m = 0 then b + mj_size ?g - x - header_bytes - mn_size ?m else mn_next ?m - x - header_bytes - mn_size ?m)"
  have gl: "gap_lo (mn_bytes h) (unat b + 24) (xs @ [x]) = unat x + 24 + unat (mn_size ?m)" by (simp add: gap_lo_def mn_bytes_def)
  have le: "unat x + 24 + unat (mn_size ?m) \<le> gap_hi (chunk_end h b) ys" using sp unfolding spaced_split gl by simp
  have "gap_hi (chunk_end h b) ys \<le> chunk_end h b" by (rule gap_bounds(2) [OF sp])
  then have hi32: "gap_hi (chunk_end h b) ys \<le> 2 ^ 32" using chunk_major [OF cb] by (simp add: major_ok_def)
  have "(if mn_next ?m = 0 then b + mj_size ?g else mn_next ?m) = word_of_nat (gap_hi (chunk_end h b) ys)"
    using nz mn(2) by (cases ys) (simp_all add: gap_hi_def chunk_end_word)
  then have uD: "unat D = gap_hi (chunk_end h b) ys - (unat x + 24 + unat (mn_size ?m))"
    unfolding D_def using unat_distance [OF le hi32] by (cases "mn_next ?m = 0") simp_all
  have step: "minor_loop fuel b x sz req h = (if D \<ge> sz + header_bytes
      then Inr (Some (place_minor b x (mn_next ?m) ?a sz req h)) else minor_loop n b (mn_next ?m) sz req h)"
    using x0 by (simp add: n chunk_get(1) [OF cb] mn(1) D_def [symmetric] Let_def)
  show ?case
  proof (cases "D \<ge> sz + header_bytes")
    case True
    then have big: "unat sz + 24 \<le> gap_hi (chunk_end h b) ys - (unat x + 24 + unat (mn_size ?m))"
      using need_unat [OF Cons.prems(5)] by (simp add: word_le_nat_alt uD)
    have ua: "unat ?a = unat x + 24 + unat (mn_size ?m)" by (rule unat_sum3) (use big hi32 in linarith)
    have "fitted h as b bs req (place_minor b (last (0 # xs @ [x])) (hd (ys @ [0])) ?a sz req h)"
      by (rule fitted_place [OF ok _ _ Cons.prems(4)]) (use ua gl big le in \<open>simp_all\<close>)
    then show ?thesis using step True mn(2) by simp
  next
    case False
    have "\<exists>r. minor_loop n b (hd (ys @ [0])) sz req h = Inr r \<and> (case r of None \<Rightarrow> True | Some ph \<Rightarrow> fitted h as b bs req ph)"
      by (rule Cons.IH [OF ok _ _ Cons.prems(4,5)]) (use Cons.prems(3) n in simp_all)
    then show ?thesis using step False mn(2) by simp
  qed
qed

definition free_bytes :: "'w heap \<Rightarrow> u32 \<Rightarrow> u32" where
  "free_bytes h b = mj_size (major_of h b) - mj_usage (major_of h b)"

lemma free_bytes_unat:
  assumes "chunk_ok h b xs"
  shows "unat (free_bytes h b) = chunk_end h b - (unat b + 24 + sum_list (map (\<lambda>x. 24 + mn_bytes h x) xs))"
    and "unat b + 24 + sum_list (map (\<lambda>x. 24 + mn_bytes h x) xs) \<le> chunk_end h b"
proof -
  let ?u = "mj_usage (major_of h b)" and ?s = "mj_size (major_of h b)"
  have u: "unat ?u = 24 + sum_list (map (\<lambda>x. 24 + mn_bytes h x) xs)" using chunk_major [OF assms] by (simp add: major_ok_def)
  show le: "unat b + 24 + sum_list (map (\<lambda>x. 24 + mn_bytes h x) xs) \<le> chunk_end h b" by (rule spaced_le [OF chunk_spaced [OF assms]])
  then have "?u \<le> ?s" using u by (simp add: word_le_nat_alt chunk_end_def)
  then have "unat (?s - ?u) = unat ?s - unat ?u" by (rule unat_sub)
  then show "unat (free_bytes h b) = chunk_end h b - (unat b + 24 + sum_list (map (\<lambda>x. 24 + mn_bytes h x) xs))"
    using u by (simp add: chunk_end_def free_bytes_def)
qed

lemma try_fit_ok:
  assumes ok: "shape_ok h (as @ (b, xs) # bs)" and fuel: "length xs < fuel"
    and req: "unat req + 32 \<le> unat sz" and sz: "unat sz + 48 < 2 ^ 32" and room: "sz + header_bytes \<le> free_bytes h b"
  shows "\<exists>r. try_fit fuel b sz req h = Inr r \<and> (case r of None \<Rightarrow> xs \<noteq> [] | Some ph \<Rightarrow> fitted h as b bs req ph)"
proof -
  have cb: "chunk_ok h b xs" by (rule shape_chunk [OF ok]) simp
  have ok0: "shape_ok h (as @ (b, [] @ xs) # bs)" using ok by simp
  let ?a = "b + header_bytes" and ?g = "major_of h b"
  have room': "unat sz + 24 \<le> chunk_end h b - (unat b + 24 + sum_list (map (\<lambda>x. 24 + mn_bytes h x) xs))"
    using room need_unat [OF sz] by (simp add: word_le_nat_alt free_bytes_unat(1) [OF cb])
  have e32: "chunk_end h b \<le> 2 ^ 32" using chunk_major [OF cb] by (simp add: major_ok_def)
  have ua: "unat ?a = unat b + 24"
    using unat_plus [of b header_bytes] room' e32 free_bytes_unat(2) [OF cb] by (simp only: header_bytes_unat)
  have gl: "gap_lo (mn_bytes h) (unat b + 24) [] \<le> unat ?a" by (simp add: gap_lo_def ua)
  have z: "0 \<notin> set xs" using minor_nonzero [OF cb] by blast
  have first: "mj_first ?g = hd (xs @ [0])" using chunk_major [OF cb] by (simp add: major_ok_def)
  have f0: "mj_first ?g = 0 \<longleftrightarrow> xs = []" using hd_zero_iff [OF z] first by simp
  note st = try_fit_def chunk_get(1) [OF cb] kbind_simps f0
  show ?thesis
  proof (cases xs)
    case Nil
    have "fitted h as b bs req (place_minor b (last (0 # [])) (hd ([] @ [0])) ?a sz req h)"
      by (rule fitted_place [OF ok0 [unfolded Nil] gl _ req]) (use room' ua Nil in \<open>simp add: gap_hi_def\<close>)
    then show ?thesis using Nil by (simp add: st)
  next
    case (Cons x ys)
    have x: "unat b + 24 \<le> unat x" using minor_inside(1) [OF cb, of x] Cons by simp
    have x0: "x \<noteq> 0" using z Cons by auto
    have ux: "unat x < 2 ^ LENGTH(32)" by (rule unsigned_less)
    have d: "unat (x - b - header_bytes - 0) = unat x - (unat b + 24 + unat (0 :: u32))"
      by (rule unat_distance) (use x ux in simp_all)
    show ?thesis
    proof (cases "sz + header_bytes \<le> x - b - header_bytes")
      case True
      then have "unat sz + 24 \<le> unat x - (unat b + 24)" using need_unat [OF sz] d by (simp add: word_le_nat_alt)
      then have "fitted h as b bs req (place_minor b (last (0 # [])) (hd (xs @ [0])) ?a sz req h)"
        by (intro fitted_place [OF ok0 gl _ req]) (use x ua Cons in \<open>simp add: gap_hi_def\<close>)
      then show ?thesis using True Cons first x0 by (simp add: st)
    next
      case False
      have "\<exists>r. minor_loop fuel b (hd (xs @ [0])) sz req h = Inr r \<and> (case r of None \<Rightarrow> True | Some ph \<Rightarrow> fitted h as b bs req ph)"
        by (rule minor_loop_ok [OF ok0 _ fuel req sz]) (simp add: Cons)
      then show ?thesis using False Cons first x0 by (auto simp: st split: option.splits)
    qed
  qed
qed

end
