(* ===== verification/Heap_Correct.thy ===== *)
theory Heap_Correct
  imports Heap
begin

unbundle bit_operations_syntax

text \<open>
  The operations of the heap are correct over any source of pages. \<open>heap_ok\<close> joins the structure of
  the lists with the pages the heap holds; \<open>page_source\<close> is what the heap expects of the hooks.
  Allocation returns an aligned block apart from all others, freeing takes away one block and gives
  back the pages of a chunk that became empty, and reallocation keeps the content.
\<close>

section \<open>New blocks of pages\<close>

lemma linked_next: "linked nx pv p (xs @ x # ys) q \<Longrightarrow> nx x = hd (ys @ [q])"
  by (simp add: linked_append)

lemma shape_okD:
  assumes "shape_ok h cs"
  shows "linked (\<lambda>b. mj_next (major_of h b)) (\<lambda>b. mj_prev (major_of h b)) 0 (map fst cs) 0"
    and "distinct (map fst cs)" and "l_memRoot h = hd (map fst cs @ [0])" and "l_bestBet h = 0 \<or> l_bestBet h \<in> fst ` set cs"
    and "\<And>x m. minors h x = Some m \<Longrightarrow> mn_magic m = LIBALLOC_MAGIC \<Longrightarrow> \<exists>b xs. (b, xs) \<in> set cs \<and> x \<in> set xs"
  using assms unfolding shape_ok_def by blast+

lemma shape_next:
  assumes "shape_ok h (as @ (b, xs) # bs)" shows "mj_next (major_of h b) = hd (map fst bs @ [0])"
  by (rule linked_next [where pv = "\<lambda>b. mj_prev (major_of h b)" and p = 0 and xs = "map fst as"])
    (use shape_okD(1) [OF assms] in simp)

lemma shape_nonzero: "shape_ok h cs \<Longrightarrow> 0 \<notin> set (map fst cs)"
  using chunk_get(2) [OF shape_chunk] by fastforce

lemma add_chunk_ok:
  assumes ok: "shape_ok h cs" and n: "n \<noteq> 0" "unat n mod 4096 = 0" "n \<notin> fst ` set cs"
    and apart: "\<And>c. c \<in> fst ` set cs \<Longrightarrow> chunk_end h c \<le> unat n \<or> unat n + unat (mj_size g) \<le> unat c"
    and g: "unat (mj_size g) = 4096 * unat (mj_pages g)" "unat n + unat (mj_size g) \<le> 2 ^ 32" "24 \<le> unat (mj_size g)"
      "mj_first g = 0" "unat (mj_usage g) = 24" "mj_next g = 0" "mj_prev g = last (0 # map fst cs)"
    and mj: "majors h' = (\<lambda>c. if c = n then Some g else if cs \<noteq> [] \<and> c = fst (last cs)
        then map_option (\<lambda>k. k\<lparr>mj_next := n\<rparr>) (majors h c) else majors h c)"
    and same: "minors h' = minors h" "align_info h' = align_info h" "l_bestBet h' = l_bestBet h"
      "l_memRoot h' = hd (map fst cs @ [n])"
  shows "shape_ok h' (cs @ [(n, [])])"
proof -
  have mo: "major_of h' n = g" by (simp add: major_of_def mj)
  have mc: "major_of h' c = (if cs \<noteq> [] \<and> c = fst (last cs) then (major_of h c)\<lparr>mj_next := n\<rparr> else major_of h c)"
    "majors h' c \<noteq> None" if c: "c \<in> fst ` set cs" for c
  proof -
    obtain xs where "(c, xs) \<in> set cs" using c by auto
    then have "majors h c \<noteq> None" using chunk_major [OF shape_chunk [OF ok]] by (simp add: major_ok_def)
    moreover have "c \<noteq> n" using c n(3) by auto
    ultimately show "major_of h' c = (if cs \<noteq> [] \<and> c = fst (last cs) then (major_of h c)\<lparr>mj_next := n\<rparr> else major_of h c)"
      "majors h' c \<noteq> None" by (auto simp: major_of_def mj)
  qed
  have ce: "chunk_end h' c = chunk_end h c" if "c \<in> fst ` set cs" for c by (simp add: chunk_end_def mc(1) [OF that])
  have en: "chunk_end h' n = unat n + unat (mj_size g)" by (simp add: chunk_end_def mo)
  have old: "chunk_ok h' c xs" if c: "(c, xs) \<in> set cs" for c xs
  proof -
    have c': "c \<in> fst ` set cs" using c by force
    show ?thesis by (rule chunk_ok_cong [OF shape_chunk [OF ok c] mc(2) [OF c']]) (simp_all add: mc(1) [OF c'] same same_major_def)
  qed
  have new: "chunk_ok h' n []" using n g by (simp add: chunk_ok_def major_ok_def mo en) (simp add: mj)
  have link: "linked (\<lambda>c. mj_next (major_of h' c)) (\<lambda>c. mj_prev (major_of h' c)) 0 (map fst cs @ n # []) 0"
    by (rule linked_insert [where nx = "\<lambda>c. mj_next (major_of h c)" and pv = "\<lambda>c. mj_prev (major_of h c)"])
      (use ok n(3) g mc(1) in \<open>simp_all add: shape_ok_def mo last_map\<close>)
  show ?thesis unfolding shape_ok_def
  proof (intro conjI)
    show "\<forall>(c, xs) \<in> set (cs @ [(n, [])]). chunk_ok h' c xs" using old new by auto
    show "\<forall>c \<in> fst ` set (cs @ [(n, [])]). \<forall>d \<in> fst ` set (cs @ [(n, [])]). c \<noteq> d \<longrightarrow> chunk_end h' c \<le> unat d \<or> chunk_end h' d \<le> unat c"
      using ok apart ce en n(3) unfolding shape_ok_def by (auto simp del: split_paired_All)
    show "\<forall>x m. minors h' x = Some m \<longrightarrow> mn_magic m = LIBALLOC_MAGIC \<longrightarrow> (\<exists>(c, xs) \<in> set (cs @ [(n, [])]). x \<in> set xs)"
      using ok same(1) unfolding shape_ok_def by fastforce
  qed (use ok n link same in \<open>auto simp: shape_ok_def hd_append\<close>)
qed

text \<open>The pages from an address on.\<close>

definition page_run :: "u32 \<Rightarrow> u32 \<Rightarrow> nat set" where
  "page_run a n = {unat a div 4096 ..< unat a div 4096 + unat n}"

lemma runs_apart:
  assumes "unat a mod 4096 = 0" and "unat b mod 4096 = 0" and "0 < unat n" and "0 < unat k" and "page_run a n \<inter> page_run b k = {}"
  shows "unat a + 4096 * unat n \<le> unat b \<or> unat b + 4096 * unat k \<le> unat a"
proof -
  define i j where ij: "i = unat a div 4096" "j = unat b div 4096"
  have ab: "unat a = 4096 * i" "unat b = 4096 * j"
    using mult_div_mod_eq [of 4096 "unat a"] mult_div_mod_eq [of 4096 "unat b"] assms(1,2) by (simp_all add: ij)
  have dis: "{i ..< i + unat n} \<inter> {j ..< j + unat k} = {}" using assms(5) by (simp add: page_run_def ij)
  have "i + unat n \<le> j \<or> j + unat k \<le> i"
  proof (rule ccontr)
    assume "\<not> ?thesis"
    then have "max i j \<in> {i ..< i + unat n} \<inter> {j ..< j + unat k}" using assms(3,4) by auto
    then show False using dis by blast
  qed
  then show ?thesis unfolding ab by linarith
qed

lemma pages_for_unat:
  assumes "unat sz + 48 < 2 ^ 32"
  shows "unat sz + 48 \<le> 4096 * unat (pages_for sz)" and "pages_for sz \<noteq> 0"
proof -
  define st where "st = sz + header_bytes + header_bytes"
  have "unat (sz + header_bytes) = unat sz + 24" by (rule need_unat [OF assms])
  then have st: "unat st = unat sz + 48" unfolding st_def using unat_plus [of "sz + header_bytes" header_bytes] assms
    by (simp only: header_bytes_unat)
  define q where "q = (if st mod 4096 = 0 then st div 4096 else st div 4096 + 1)"
  have ud: "unat (st div 4096) = unat st div 4096" "unat (st mod 4096) = unat st mod 4096" by (simp_all add: unat_div_distrib unat_mod)
  have lt: "unat st < 2 ^ LENGTH(32)" by (rule unsigned_less)
  then have "unat (st div 4096) + unat (1 :: u32) < 2 ^ 32" unfolding ud(1) by simp
  then have u1: "unat (st div 4096 + 1) = unat st div 4096 + 1" using unat_plus [of "st div 4096" 1] ud(1) by simp
  have m0: "st mod 4096 = 0 \<longleftrightarrow> unat st mod 4096 = 0" unfolding ud(2) [symmetric] by (simp add: unat_eq_0)
  have split: "unat st = 4096 * (unat st div 4096) + unat st mod 4096" "unat st mod 4096 < 4096" by simp_all
  have q: "unat st \<le> 4096 * unat q"
  proof (cases "st mod 4096 = 0")
    case True
    then have "unat q = unat st div 4096" "unat st mod 4096 = 0" using ud(1) m0 by (simp_all add: q_def)
    then show ?thesis using split(1) by linarith
  next
    case False
    then have "unat q = unat st div 4096 + 1" using u1 by (simp add: q_def)
    then show ?thesis using split by linarith
  qed
  then have "q \<noteq> 0" using st by auto
  then have "\<not> q < 1" by (simp add: word_less_nat_alt) (simp add: unat_gt_0)
  then have "pages_for sz = q"
    unfolding pages_for_def st_def [symmetric] l_pageSize_def l_pageCount_def Let_def q_def [symmetric] by simp
  then show "unat sz + 48 \<le> 4096 * unat (pages_for sz)" "pages_for sz \<noteq> 0" using q st \<open>q \<noteq> 0\<close> by simp_all
qed

text \<open>The pages the heap holds, and what it expects of the hooks that get and release pages.\<close>

definition heap_pages :: "'w heap \<Rightarrow> shape \<Rightarrow> nat set" where
  "heap_pages h cs = (\<Union>b \<in> fst ` set cs. {unat b div 4096 ..< chunk_end h b div 4096})"

definition heap_ok :: "('w \<Rightarrow> nat set \<Rightarrow> bool) \<Rightarrow> 'w heap \<Rightarrow> shape \<Rightarrow> bool" where
  "heap_ok owns h cs \<longleftrightarrow> shape_ok h cs \<and> owns (hook_state h) (heap_pages h cs)"

lemma chunk_run:
  assumes "chunk_ok h b xs"
  shows "{unat b div 4096 ..< chunk_end h b div 4096} = page_run b (mj_pages (major_of h b))"
    and "0 < unat (mj_pages (major_of h b))" and "chunk_end h b = unat b + 4096 * unat (mj_pages (major_of h b))"
proof -
  have m: "unat (mj_size (major_of h b)) = 4096 * unat (mj_pages (major_of h b))" using chunk_major [OF assms] by (simp add: major_ok_def)
  then show e: "chunk_end h b = unat b + 4096 * unat (mj_pages (major_of h b))" by (simp add: chunk_end_def)
  then show "{unat b div 4096 ..< chunk_end h b div 4096} = page_run b (mj_pages (major_of h b))" by (simp add: page_run_def add.commute)
  show "0 < unat (mj_pages (major_of h b))" using free_bytes_unat(2) [OF assms] e by (cases "unat (mj_pages (major_of h b)) = 0") simp_all
qed

text \<open>A new block of pages linked in behind the last one, and the heap with it.\<close>

definition linked_in :: "'w heap \<Rightarrow> u32 \<Rightarrow> shape \<Rightarrow> 'w heap \<Rightarrow> bool" where
  "linked_in h n cs h' \<longleftrightarrow> majors h' = (\<lambda>c. if c = n then Some ((major_of h n)\<lparr>mj_prev := last (0 # map fst cs)\<rparr>)
       else if cs \<noteq> [] \<and> c = fst (last cs) then map_option (\<lambda>k. k\<lparr>mj_next := n\<rparr>) (majors h c) else majors h c)
     \<and> minors h' = minors h \<and> align_info h' = align_info h \<and> l_bestBet h' = l_bestBet h \<and> hook_state h' = hook_state h
     \<and> l_memRoot h' = hd (map fst cs @ [n])"

definition grown :: "('w \<Rightarrow> nat set \<Rightarrow> bool) \<Rightarrow> 'w heap \<Rightarrow> shape \<Rightarrow> u32 \<Rightarrow> u32 \<Rightarrow> 'w heap \<Rightarrow> bool" where
  "grown owns h cs sz n h' \<longleftrightarrow> n \<noteq> 0 \<and> heap_ok owns h' (cs @ [(n, [])]) \<and> sz + header_bytes \<le> free_bytes h' n \<and> live h' = live h"

text \<open>The heap with the header of a new block of pages written, but not yet linked in.\<close>

definition with_chunk :: "'w heap \<Rightarrow> u32 \<Rightarrow> u32 \<Rightarrow> 'w \<Rightarrow> 'w heap" where
  "with_chunk h n st w = h\<lparr>hook_state := w,
     majors := (majors h)(n \<mapsto> \<lparr>mj_prev = 0, mj_next = 0, mj_pages = st, mj_size = st * l_pageSize, mj_usage = header_bytes, mj_first = 0\<rparr>),
     l_allocated := l_allocated h + ucast (st * l_pageSize)\<rparr>"

lemma with_chunk_fields [simp]:
  "major_of (with_chunk h n st w) n = \<lparr>mj_prev = 0, mj_next = 0, mj_pages = st, mj_size = st * l_pageSize, mj_usage = header_bytes, mj_first = 0\<rparr>"
  "majors (with_chunk h n st w) n \<noteq> None" "c \<noteq> n \<Longrightarrow> majors (with_chunk h n st w) c = majors h c"
  "minors (with_chunk h n st w) = minors h" "align_info (with_chunk h n st w) = align_info h" "hmem (with_chunk h n st w) = hmem h"
  "l_bestBet (with_chunk h n st w) = l_bestBet h" "l_memRoot (with_chunk h n st w) = l_memRoot h" "hook_state (with_chunk h n st w) = w"
  by (simp_all add: with_chunk_def major_of_def)

lemma run_apart:
  assumes sh: "shape_ok h cs" and n: "unat n mod 4096 = 0" and st: "0 < unat st" and dis: "page_run n st \<inter> heap_pages h cs = {}"
  shows "c \<in> fst ` set cs \<Longrightarrow> chunk_end h c \<le> unat n \<or> unat n + 4096 * unat st \<le> unat c" and "n \<notin> fst ` set cs"
proof -
  show apart: "chunk_end h c \<le> unat n \<or> unat n + 4096 * unat st \<le> unat c" if "c \<in> fst ` set cs" for c
  proof -
    obtain xs where c: "(c, xs) \<in> set cs" using \<open>c \<in> fst ` set cs\<close> by auto
    note cc = shape_chunk [OF sh c]
    have "page_run n st \<inter> page_run c (mj_pages (major_of h c)) = {}"
      using dis c chunk_run(1) [OF cc] unfolding heap_pages_def by fastforce
    moreover have "unat c mod 4096 = 0" using chunk_major [OF cc] by (simp add: major_ok_def)
    ultimately have "unat n + 4096 * unat st \<le> unat c \<or> unat c + 4096 * unat (mj_pages (major_of h c)) \<le> unat n"
      by (intro runs_apart [OF n _ st chunk_run(2) [OF cc]])
    then show ?thesis unfolding chunk_run(3) [OF cc] by blast
  qed
  show "n \<notin> fst ` set cs"
  proof
    assume n': "n \<in> fst ` set cs"
    then obtain xs where "(n, xs) \<in> set cs" by auto
    then show False using apart [OF n'] free_bytes_unat(2) [OF shape_chunk [OF sh]] st by fastforce
  qed
qed

text \<open>Linked in, it is a well-formed empty block with room for the request.\<close>

lemma linked_in_grown:
  assumes ok: "heap_ok owns h cs" and n: "n \<noteq> 0" "unat n mod 4096 = 0" and e: "unat n + 4096 * unat (pages_for sz) \<le> 2 ^ 32"
    and dis: "page_run n (pages_for sz) \<inter> heap_pages h cs = {}" and ow: "owns w (heap_pages h cs \<union> page_run n (pages_for sz))"
    and sz: "unat sz + 48 < 2 ^ 32" and lk: "linked_in (with_chunk h n (pages_for sz) w) n cs h'"
  shows "grown owns h cs sz n h'"
proof -
  let ?st = "pages_for sz" and ?h1 = "with_chunk h n (pages_for sz) w"
  let ?g = "(major_of ?h1 n)\<lparr>mj_prev := last (0 # map fst cs)\<rparr>"
  note sh = ok [unfolded heap_ok_def, THEN conjunct1] and pf = pages_for_unat [OF sz]
  have st0: "0 < unat ?st" using pf(2) by (simp add: unat_gt_0)
  note ra = run_apart [OF sh n(2) st0 dis]
  have "0 < unat n" using n(1) by (simp add: unat_gt_0)
  then have size: "unat (?st * l_pageSize) = 4096 * unat ?st"
    using e by (simp add: l_pageSize_def unat_mult_lem [THEN iffD1] mult.commute)
  have mj: "majors h' = (\<lambda>c. if c = n then Some ?g else if cs \<noteq> [] \<and> c = fst (last cs)
         then map_option (\<lambda>k. k\<lparr>mj_next := n\<rparr>) (majors h c) else majors h c)"
    using lk unfolding linked_in_def by (intro ext) simp
  have s: "minors h' = minors h" "align_info h' = align_info h" "l_bestBet h' = l_bestBet h" "l_memRoot h' = hd (map fst cs @ [n])"
    "hook_state h' = w" using lk by (simp_all add: linked_in_def)
  have shape: "shape_ok h' (cs @ [(n, [])])"
    by (rule add_chunk_ok [OF sh n ra(2) _ _ _ _ _ _ _ _ mj]) (use ra(1) e pf size s in \<open>simp_all add: header_bytes_def\<close>)
  have ec: "chunk_end h' c = chunk_end h c" if c: "(c, xs) \<in> set cs" for c xs
  proof -
    have "c \<noteq> n" using c ra(2) by force
    moreover have "majors h c \<noteq> None" using chunk_major [OF shape_chunk [OF sh c]] by (simp add: major_ok_def)
    ultimately show ?thesis by (auto simp: chunk_end_def major_of_def mj)
  qed
  have en: "chunk_end h' n = unat n + 4096 * unat ?st" by (simp add: chunk_end_def major_of_def [of h'] mj size)
  have "heap_pages h' (cs @ [(n, [])]) = heap_pages h cs \<union> page_run n ?st"
    using ec en by (fastforce simp: heap_pages_def page_run_def)
  then have "heap_ok owns h' (cs @ [(n, [])])" using shape ow s by (simp add: heap_ok_def)
  moreover have "sz + header_bytes \<le> free_bytes h' n"
  proof -
    have "chunk_ok h' n []" by (rule shape_chunk [OF shape]) simp
    then have "unat (free_bytes h' n) = 4096 * unat ?st - 24" using free_bytes_unat(1) [of h' n "[]"] en by simp
    then show ?thesis using need_unat [OF sz] pf(1) by (simp add: word_le_nat_alt)
  qed
  moreover have "live h' = live h" by (simp add: live_def s)
  ultimately show ?thesis using n(1) by (simp add: grown_def)
qed

locale page_source =
  fixes alloc_hook :: "u32 \<Rightarrow> 'w \<Rightarrow> (u32 \<times> 'w) kres"
    and free_hook :: "u32 \<Rightarrow> u32 \<Rightarrow> 'w \<Rightarrow> 'w kres"
    and owns :: "'w \<Rightarrow> nat set \<Rightarrow> bool"
    and ready :: "u32 \<Rightarrow> 'w \<Rightarrow> bool"
  assumes alloc_law: "owns w P \<Longrightarrow> ready n w \<Longrightarrow> n \<noteq> 0 \<Longrightarrow> \<exists>a w'. alloc_hook n w = Inr (a, w') \<and> a \<noteq> 0
      \<and> unat a mod 4096 = 0 \<and> unat a + 4096 * unat n \<le> 2 ^ 32 \<and> page_run a n \<inter> P = {} \<and> owns w' (P \<union> page_run a n)"
    and free_law: "owns w P \<Longrightarrow> unat a mod 4096 = 0 \<Longrightarrow> page_run a n \<subseteq> P
      \<Longrightarrow> \<exists>w'. free_hook a n w = Inr w' \<and> owns w' (P - page_run a n)"
begin

text \<open>A new block of pages at the end of the list; it has room for the request.\<close>

lemma allocate_ok:
  assumes ok: "heap_ok owns h cs" and ready: "ready (pages_for sz) (hook_state h)" and sz: "unat sz + 48 < 2 ^ 32"
  obtains n h1 where "allocate_new_page alloc_hook sz h = Inr (n, h1)" and "n \<noteq> 0"
    and "\<forall>h'. linked_in h1 n cs h' \<longrightarrow> grown owns h cs sz n h'"
    and "majors h1 n \<noteq> None" and "n \<notin> fst ` set cs" and "hmem h1 = hmem h" and "l_memRoot h1 = l_memRoot h"
proof -
  let ?P = "heap_pages h cs" and ?st = "pages_for sz"
  have sh: "shape_ok h cs" and ow: "owns (hook_state h) ?P" using ok by (simp_all add: heap_ok_def)
  note pf = pages_for_unat [OF sz]
  obtain n w where al: "alloc_hook ?st (hook_state h) = Inr (n, w)" and n: "n \<noteq> 0" "unat n mod 4096 = 0"
    and e: "unat n + 4096 * unat ?st \<le> 2 ^ 32" and dis: "page_run n ?st \<inter> ?P = {}" and ow': "owns w (?P \<union> page_run n ?st)"
    using alloc_law [OF ow ready pf(2)] by (elim exE conjE)
  have run: "allocate_new_page alloc_hook sz h = Inr (n, with_chunk h n ?st w)"
    using al n(1) by (simp add: allocate_new_page_def with_chunk_def Let_def)
  have "n \<notin> fst ` set cs" by (rule run_apart(2) [OF sh n(2) _ dis]) (use pf(2) in \<open>simp add: unat_gt_0\<close>)
  then show thesis
    by (intro that [OF run n(1)]) (use linked_in_grown [OF ok n e dis ow' sz] in simp_all)
qed

lemma append_major_ok:
  assumes ok: "heap_ok owns h cs" and ready: "ready (pages_for sz) (hook_state h)" and sz: "unat sz + 48 < 2 ^ 32"
    and cs: "cs \<noteq> []"
  shows "\<exists>n h'. append_major alloc_hook (fst (last cs)) sz h = Inr (n, h') \<and> grown owns h cs sz n h' \<and> hmem h' = hmem h"
proof -
  let ?b = "fst (last cs)"
  obtain n h1 where r: "allocate_new_page alloc_hook sz h = Inr (n, h1)" "n \<noteq> 0"
    and use: "\<forall>h'. linked_in h1 n cs h' \<longrightarrow> grown owns h cs sz n h'"
    and n: "majors h1 n \<noteq> None" "n \<notin> fst ` set cs" and s: "hmem h1 = hmem h" "l_memRoot h1 = l_memRoot h"
    by (rule allocate_ok [OF ok ready sz])
  let ?h = "upd_major n (\<lambda>g. g\<lparr>mj_prev := ?b\<rparr>) (upd_major ?b (\<lambda>g. g\<lparr>mj_next := n\<rparr>) h1)"
  have "?b \<noteq> n" using n(2) cs by (metis image_eqI last_in_set)
  have root: "l_memRoot h = hd (map fst cs @ [n])" using ok cs by (cases cs) (simp_all add: heap_ok_def shape_ok_def)
  have "linked_in h1 n cs ?h"
    using \<open>?b \<noteq> n\<close> n(1) cs s root by (auto simp: linked_in_def upd_major_def major_of_def fun_eq_iff last_map)
  moreover have "append_major alloc_hook ?b sz h = Inr (n, ?h)" using r by (simp add: append_major_def Let_def)
  moreover have "hmem ?h = hmem h" using s by (simp add: upd_major_def)
  ultimately show ?thesis using use by blast
qed

end

section \<open>Allocation is correct\<close>

text \<open>What an allocation is meant to achieve.\<close>

definition malloced :: "('w \<Rightarrow> nat set \<Rightarrow> bool) \<Rightarrow> 'w heap \<Rightarrow> u32 \<Rightarrow> u32 \<times> 'w heap \<Rightarrow> bool" where
  "malloced owns h req ph \<longleftrightarrow> (case ph of (p, h') \<Rightarrow>
     (\<exists>cs b xs a. heap_ok owns h' cs \<and> (b, xs) \<in> set cs \<and> a \<in> set xs \<and> p = user_ptr a)
     \<and> live h' = insert (p, req) (live h) \<and> p \<notin> fst ` live h \<and> hmem h' = hmem h)"

lemma malloced_cong: "live h = live k \<Longrightarrow> hmem h = hmem k \<Longrightarrow> malloced owns h req ph = malloced owns k req ph"
  by (simp add: malloced_def)

lemma fitted_malloced:
  assumes "heap_ok owns h (as @ (b, xs) # bs)" and "fitted h as b bs req ph"
  shows "malloced owns h req ph"
proof -
  obtain p h' where ph: "ph = (p, h')" by (cases ph)
  then obtain a zs where a: "a \<in> set zs" "shape_ok h' (as @ (b, zs) # bs)" "p = user_ptr a"
    and f: "live h' = insert (p, req) (live h)" "p \<notin> fst ` live h" "hmem h' = hmem h" "hook_state h' = hook_state h"
      "\<forall>c. chunk_end h' c = chunk_end h c"
    using assms(2) by (auto simp: fitted_def)
  have "heap_pages h' (as @ (b, zs) # bs) = heap_pages h (as @ (b, xs) # bs)" using f(5) by (simp add: heap_pages_def)
  then have "heap_ok owns h' (as @ (b, zs) # bs)" using assms(1) a(2) f(4) by (simp add: heap_ok_def)
  moreover have "(b, zs) \<in> set (as @ (b, zs) # bs)" by simp
  ultimately show ?thesis using a f unfolding malloced_def ph prod.case by blast
qed

text \<open>The structure depends on the headers only.\<close>

lemma view_cong:
  assumes "majors k = majors h" and "minors k = minors h" and "align_info k = align_info h"
  shows "major_of k = major_of h" and "mn_bytes k = mn_bytes h" and "chunk_end k = chunk_end h" and "chunk_ok k = chunk_ok h"
    and "live k = live h" and "free_bytes k = free_bytes h" and "heap_pages k = heap_pages h"
proof -
  show 1: "major_of k = major_of h" by (rule ext) (simp add: major_of_def assms(1))
  have 2: "minor_of k = minor_of h" by (rule ext) (simp add: minor_of_def assms(2))
  show 3: "mn_bytes k = mn_bytes h" by (rule ext) (simp add: mn_bytes_def 2)
  show 4: "chunk_end k = chunk_end h" by (rule ext) (simp add: chunk_end_def 1)
  have 5: "major_ok k = major_ok h" by (intro ext) (simp add: major_ok_def 1 3 4 assms(1))
  have 6: "minor_ok k = minor_ok h" by (intro ext) (simp add: minor_ok_def 2 3 assms(2,3))
  show "chunk_ok k = chunk_ok h" by (intro ext) (simp add: chunk_ok_def 2 3 4 5 6)
  show "live k = live h" by (simp add: live_def assms(2))
  show "free_bytes k = free_bytes h" by (rule ext) (simp add: free_bytes_def 1)
  show "heap_pages k = heap_pages h" by (intro ext) (simp add: heap_pages_def 4)
qed

lemmas bet_irrelevant [simp] = view_cong [of "h\<lparr>l_bestBet := c\<rparr>" h for h c, simplified]

lemma heap_ok_bet: "heap_ok owns h cs \<Longrightarrow> c = 0 \<or> c \<in> fst ` set cs \<Longrightarrow> heap_ok owns (h\<lparr>l_bestBet := c\<rparr>) cs"
  by (simp add: heap_ok_def shape_ok_def)

definition headers :: "shape \<Rightarrow> nat" where
  "headers cs = sum_list (map (length \<circ> snd) cs)"

lemma headers_append [simp]: "headers (as @ bs) = headers as + headers bs"
  "headers ((b, xs) # bs) = length xs + headers bs" "headers [] = 0"
  by (simp_all add: headers_def)

context page_source
begin

lemma fit_new:
  assumes "grown owns h cs sz n h'" and "hmem h' = hmem h" and "0 < fuel" and "unat req + 32 \<le> unat sz" and "unat sz + 48 < 2 ^ 32"
  shows "\<exists>ph. try_fit fuel n sz req h' = Inr (Some ph) \<and> malloced owns h req ph"
proof -
  have ok: "heap_ok owns h' (cs @ (n, []) # [])" using assms(1) by (simp add: grown_def)
  obtain r where r: "try_fit fuel n sz req h' = Inr r" and f: "case r of None \<Rightarrow> [] \<noteq> ([] :: u32 list) | Some ph \<Rightarrow> fitted h' cs n [] req ph"
    using try_fit_ok [of h' cs n "[]" "[]" fuel req sz] ok assms by (auto simp: heap_ok_def grown_def)
  obtain ph where ph: "r = Some ph" using f by (cases r) auto
  have "malloced owns h' req ph" by (rule fitted_malloced [OF ok]) (use f ph in simp)
  moreover have "live h' = live h" using assms(1) by (simp add: grown_def)
  ultimately have "malloced owns h req ph" using malloced_cong assms(2) by metis
  then show ?thesis using r ph by blast
qed

text \<open>A round of the search at a block that was just appended succeeds.\<close>

lemma loop_new:
  assumes g: "grown owns h cs sz n h'" and m: "hmem h' = hmem h" and fuel: "1 < fuel"
    and req: "unat req + 32 \<le> unat sz" and sz: "unat sz + 48 < 2 ^ 32"
  shows "\<exists>ph. malloc_loop alloc_hook fuel st best n sz req h' = Inr ph \<and> malloced owns h req ph"
proof -
  obtain k where k: "fuel = Suc k" "0 < k" using fuel by (cases fuel) auto
  let ?c = "best < ucast (free_bytes h' n)"
  define h1 where "h1 = (if ?c then h'\<lparr>l_bestBet := n\<rparr> else h')"
  have ok: "heap_ok owns h' (cs @ [(n, [])])" using g by (simp add: grown_def)
  then have "heap_ok owns (h'\<lparr>l_bestBet := n\<rparr>) (cs @ [(n, [])])" by (rule heap_ok_bet) simp
  then have g1: "grown owns h cs sz n h1" using g by (simp add: grown_def h1_def)
  have m1: "hmem h1 = hmem h" using m by (simp add: h1_def)
  obtain ph where f: "try_fit k n sz req h1 = Inr (Some ph)" "malloced owns h req ph"
    using fit_new [OF g1 m1 k(2) req sz] by blast
  have c: "chunk_ok h' n []" by (rule shape_chunk [of h' "cs @ [(n, [])]"]) (use ok in \<open>simp_all add: heap_ok_def\<close>)
  have "\<not> free_bytes h' n < sz + header_bytes" using g by (simp add: grown_def not_less)
  then have "malloc_loop alloc_hook fuel st best n sz req h' = Inr ph"
    using f(1) by (simp add: k(1) chunk_get [OF c] free_bytes_def [symmetric] Let_def h1_def [symmetric] cong: if_cong)
  then show ?thesis using f(2) by blast
qed

end

text \<open>
  A round of the search notes a better bet. It leaves for the next block, or for the root once the
  search that began at the best bet has reached the end; else it uses the block or a new one.
\<close>

definition betted :: "u64 \<Rightarrow> u32 \<Rightarrow> 'w heap \<Rightarrow> 'w heap" where
  "betted best b h = (if best < ucast (free_bytes h b) then h\<lparr>l_bestBet := b\<rparr> else h)"

definition bet_size :: "u64 \<Rightarrow> u32 \<Rightarrow> 'w heap \<Rightarrow> u64" where
  "bet_size best b h = (if best < ucast (free_bytes h b) then ucast (free_bytes h b) else best)"

lemma betted_simps [simp]:
  "hook_state (betted best b h) = hook_state h" "live (betted best b h) = live h" "hmem (betted best b h) = hmem h"
  "major_of (betted best b h) = major_of h" "free_bytes (betted best b h) = free_bytes h"
  by (simp_all add: betted_def)

lemma betted_ok: "heap_ok owns h cs \<Longrightarrow> b \<in> fst ` set cs \<Longrightarrow> heap_ok owns (betted best b h) cs"
  by (simp add: betted_def heap_ok_bet)

definition next_round ::
  "(u32 \<Rightarrow> 'w \<Rightarrow> (u32 \<times> 'w) kres) \<Rightarrow> nat \<Rightarrow> bool \<Rightarrow> u64 \<Rightarrow> u32 \<Rightarrow> shape \<Rightarrow> u32 \<Rightarrow> u32 \<Rightarrow> 'w heap \<Rightarrow> (u32 \<times> 'w heap) kres" where
  "next_round alloc_hook k st best b bs sz req h =
     (if bs \<noteq> [] then malloc_loop alloc_hook k st (bet_size best b h) (fst (hd bs)) sz req (betted best b h)
      else malloc_loop alloc_hook k False (bet_size best b h) (l_memRoot (betted best b h)) sz req (betted best b h))"

lemma malloc_round_step:
  assumes sh: "shape_ok h (as @ (b, xs) # bs)"
  shows "malloc_loop alloc_hook (Suc k) st best b sz req h =
      (if free_bytes h b < sz + header_bytes \<and> (bs \<noteq> [] \<or> st) then next_round alloc_hook k st best b bs sz req h
       else kbind (if free_bytes h b < sz + header_bytes then append_major alloc_hook b sz (betted best b h)
                   else Inr (b, betted best b h)) (\<lambda>(maj', h2).
             if maj' = 0 then Inr (0, h2)
             else kbind (try_fit k maj' sz req h2) (\<lambda>r.
               case r of
                 Some ph \<Rightarrow> Inr ph
               | None \<Rightarrow> kbind (get_major maj' h2) (\<lambda>g'.
                   if mj_next g' \<noteq> 0 then malloc_loop alloc_hook k st (bet_size best b h) (mj_next g') sz req h2
                   else if st then malloc_loop alloc_hook k False (bet_size best b h) (l_memRoot h2) sz req h2
                   else kbind (append_major alloc_hook maj' sz h2) (\<lambda>(n, h3).
                     if n = 0 then Inr (0, h3) else malloc_loop alloc_hook k st (bet_size best b h) n sz req h3)))))"
    and "bs \<noteq> [] \<Longrightarrow> mj_next (major_of h b) = fst (hd bs)" and "mj_next (major_of h b) = 0 \<longleftrightarrow> bs = []" and "b \<noteq> 0"
proof -
  have cb: "chunk_ok h b xs" by (rule shape_chunk [OF sh]) simp
  have nx: "mj_next (major_of h b) = hd (map fst bs @ [0])" by (rule shape_next [OF sh])
  show nh: "bs \<noteq> [] \<Longrightarrow> mj_next (major_of h b) = fst (hd bs)" unfolding nx by (cases bs) simp_all
  show nz: "mj_next (major_of h b) = 0 \<longleftrightarrow> bs = []" unfolding nx using hd_zero_iff [of "map fst bs"] shape_nonzero [OF sh] by simp
  show b0: "b \<noteq> 0" by (rule chunk_get(2) [OF cb])
  show "malloc_loop alloc_hook (Suc k) st best b sz req h =
      (if free_bytes h b < sz + header_bytes \<and> (bs \<noteq> [] \<or> st) then next_round alloc_hook k st best b bs sz req h
       else kbind (if free_bytes h b < sz + header_bytes then append_major alloc_hook b sz (betted best b h)
                   else Inr (b, betted best b h)) (\<lambda>(maj', h2).
             if maj' = 0 then Inr (0, h2)
             else kbind (try_fit k maj' sz req h2) (\<lambda>r.
               case r of
                 Some ph \<Rightarrow> Inr ph
               | None \<Rightarrow> kbind (get_major maj' h2) (\<lambda>g'.
                   if mj_next g' \<noteq> 0 then malloc_loop alloc_hook k st (bet_size best b h) (mj_next g') sz req h2
                   else if st then malloc_loop alloc_hook k False (bet_size best b h) (l_memRoot h2) sz req h2
                   else kbind (append_major alloc_hook maj' sz h2) (\<lambda>(n, h3).
                     if n = 0 then Inr (0, h3) else malloc_loop alloc_hook k st (bet_size best b h) n sz req h3)))))"
    using b0 nz nh
    by (simp add: chunk_get(1) [OF cb] free_bytes_def [symmetric] Let_def betted_def [symmetric] bet_size_def [symmetric]
        next_round_def cong: if_cong)
qed

context page_source
begin

text \<open>
  The search ends, since from any block it moves on along the list, once from its end to the root, and
  then to a new block.
\<close>

lemma malloc_round_ok:
  assumes ok: "heap_ok owns h (as @ (b, xs) # bs)" and ready: "ready (pages_for sz) (hook_state h)"
    and req: "unat req + 32 \<le> unat sz" and sz: "unat sz + 48 < 2 ^ 32" and k: "length xs + 1 < k"
    and L: "L = malloc_loop alloc_hook (Suc k) st best b sz req h"
    and next_ok: "bs \<noteq> [] \<or> st \<Longrightarrow> \<exists>ph. next_round alloc_hook k st best b bs sz req h = Inr ph \<and> malloced owns h req ph"
  shows "\<exists>ph. L = Inr ph \<and> malloced owns h req ph"
proof -
  let ?cs = "as @ (b, xs) # bs" and ?need = "sz + header_bytes" and ?h1 = "betted best b h"
  have sh: "shape_ok h ?cs" using ok by (simp add: heap_ok_def)
  have ok1: "heap_ok owns ?h1 ?cs" by (rule betted_ok [OF ok]) simp
  then have sh1: "shape_ok ?h1 ?cs" by (simp add: heap_ok_def)
  have cb1: "chunk_ok ?h1 b xs" by (rule shape_chunk [OF sh1]) simp
  have cong: "malloced owns ?h1 req ph = malloced owns h req ph" for ph by (rule malloced_cong) simp_all
  note step = malloc_round_step(1) [OF sh, of alloc_hook k st best sz req, folded L] and nx = malloc_round_step(2-4) [OF sh]
  have app: "\<exists>n h2. append_major alloc_hook b sz ?h1 = Inr (n, h2) \<and> n \<noteq> 0 \<and> grown owns ?h1 ?cs sz n h2 \<and> hmem h2 = hmem ?h1" if "bs = []"
    using append_major_ok [OF ok1 _ sz] ready that by (auto simp: grown_def)
  consider (leave) "free_bytes h b < ?need" "bs \<noteq> [] \<or> st" | (new) "free_bytes h b < ?need" "bs = []" "\<not> st"
    | (fits) "\<not> free_bytes h b < ?need" by blast
  then show ?thesis
  proof cases
    case leave
    then show ?thesis using step next_ok by simp
  next
    case new
    then obtain n h2 where a: "append_major alloc_hook b sz ?h1 = Inr (n, h2)" "n \<noteq> 0" "grown owns ?h1 ?cs sz n h2" "hmem h2 = hmem ?h1"
      using app by blast
    obtain ph where "try_fit k n sz req h2 = Inr (Some ph)" "malloced owns ?h1 req ph"
      using fit_new [OF a(3,4) _ req sz, of k] k by auto
    then show ?thesis using step new a(1,2) cong by simp
  next
    case fits
    have "\<exists>r. try_fit k b sz req ?h1 = Inr r \<and> (case r of None \<Rightarrow> xs \<noteq> [] | Some ph \<Rightarrow> fitted ?h1 as b bs req ph)"
      by (rule try_fit_ok [OF sh1 _ req sz]) (use k fits in \<open>simp_all add: not_less\<close>)
    then obtain r where r: "try_fit k b sz req ?h1 = Inr r" "case r of None \<Rightarrow> xs \<noteq> [] | Some ph \<Rightarrow> fitted ?h1 as b bs req ph" by blast
    consider (found) ph where "r = Some ph" | (full) "r = None" "bs \<noteq> [] \<or> st" | (last) "r = None" "bs = []" "\<not> st" by blast
    then show ?thesis
    proof cases
      case found
      then have "malloced owns ?h1 req ph" using r(2) fitted_malloced [OF ok1] by simp
      then show ?thesis using step fits r(1) found nx cong by simp
    next
      case full
      then have "L = next_round alloc_hook k st best b bs sz req h"
        using step fits r(1) nx chunk_get(1) [OF cb1] by (auto simp: next_round_def)
      then show ?thesis using next_ok full by simp
    next
      case last
      then obtain n h2 where a: "append_major alloc_hook b sz ?h1 = Inr (n, h2)" "n \<noteq> 0" "grown owns ?h1 ?cs sz n h2" "hmem h2 = hmem ?h1"
        using app by blast
      obtain ph where "malloc_loop alloc_hook k st (bet_size best b h) n sz req h2 = Inr ph" "malloced owns ?h1 req ph"
        using loop_new [OF a(3,4) _ req sz, of k st "bet_size best b h"] k by auto
      then show ?thesis using step fits last r(1) nx chunk_get(1) [OF cb1] a(1,2) cong by simp
    qed
  qed
qed

lemma malloc_loop_ok:
  assumes "heap_ok owns h (as @ (b, xs) # bs)" and "ready (pages_for sz) (hook_state h)"
    and "unat req + 32 \<le> unat sz" and "unat sz + 48 < 2 ^ 32"
    and "length bs + (if st then length as + length bs + 1 else 0) + headers (as @ (b, xs) # bs) + 3 \<le> fuel"
  shows "\<exists>ph. malloc_loop alloc_hook fuel st best b sz req h = Inr ph \<and> malloced owns h req ph"
  using assms
proof (induction "length bs + (if st then length as + length bs + 1 else 0)" arbitrary: as b xs bs st best fuel h rule: less_induct)
  case less
  let ?cs = "as @ (b, xs) # bs" and ?h1 = "betted best b h" and ?best = "bet_size best b h"
  obtain k where k: "fuel = Suc k" using less.prems(5) by (cases fuel) auto
  have ok1: "heap_ok owns ?h1 ?cs" by (rule betted_ok [OF less.prems(1)]) simp
  have rd1: "ready (pages_for sz) (hook_state ?h1)" using less.prems(2) by simp
  have cong: "malloced owns ?h1 req ph = malloced owns h req ph" for ph by (rule malloced_cong) simp_all
  have "\<exists>ph. next_round alloc_hook k st best b bs sz req h = Inr ph \<and> malloced owns h req ph" if go: "bs \<noteq> [] \<or> st"
  proof (cases bs)
    case (Cons c cs')
    obtain c0 ys where c: "c = (c0, ys)" by (cases c)
    have "\<exists>ph. malloc_loop alloc_hook k st ?best c0 sz req ?h1 = Inr ph \<and> malloced owns ?h1 req ph"
      by (rule less.hyps [of cs' st "as @ [(b, xs)]"])
        (use Cons c ok1 rd1 less.prems(3-5) k in \<open>auto split: if_splits\<close>)
    then show ?thesis unfolding next_round_def cong using Cons c by simp
  next
    case Nil
    then have st using go by simp
    obtain c0 ys cs' where c: "?cs = (c0, ys) # cs'" by (cases as) auto
    have len: "length cs' = length as" using arg_cong [OF c, of length] Nil by simp
    have ok': "heap_ok owns ?h1 ([] @ (c0, ys) # cs')" using ok1 c by simp
    have "\<exists>ph. malloc_loop alloc_hook k False ?best c0 sz req ?h1 = Inr ph \<and> malloced owns ?h1 req ph"
      by (rule less.hyps [of cs' False "[]", OF _ ok' rd1 less.prems(3,4)])
        (use Nil \<open>st\<close> len less.prems(5) k arg_cong [OF c, of headers] in simp_all)
    moreover have "l_memRoot ?h1 = c0" using shape_okD(3) [of ?h1 "(c0, ys) # cs'"] ok' by (simp add: heap_ok_def)
    ultimately show ?thesis unfolding next_round_def cong using Nil by simp
  qed
  then show ?case unfolding k by (intro malloc_round_ok [OF less.prems(1-4) _ refl]) (use less.prems(5) k in \<open>simp_all split: if_splits\<close>)
qed

lemma malloc_sized_ok:
  assumes ok: "heap_ok owns h cs" and ready: "ready (pages_for sz) (hook_state h)"
    and req: "unat req + 32 \<le> unat sz" and sz: "unat sz + 48 < 2 ^ 32" and fuel: "2 * length cs + headers cs + 4 \<le> fuel"
  shows "\<exists>ph. malloc_sized alloc_hook fuel sz req h = Inr ph \<and> malloced owns h req ph"
proof (cases "cs = []")
  case True
  have sh: "shape_ok h cs" using ok by (simp add: heap_ok_def)
  have r0: "l_memRoot h = 0" "l_bestBet h = 0" using shape_okD(3,4) [OF sh] True by simp_all
  obtain n h1 where r: "allocate_new_page alloc_hook sz h = Inr (n, h1)" "n \<noteq> 0"
    and use: "\<forall>h'. linked_in h1 n cs h' \<longrightarrow> grown owns h cs sz n h'"
    and n: "majors h1 n \<noteq> None" "n \<notin> fst ` set cs" and s: "hmem h1 = hmem h" "l_memRoot h1 = l_memRoot h"
    by (rule allocate_ok [OF ok ready sz])
  have g0: "mj_prev (major_of h1 n) = 0" "l_bestBet h1 = 0"
    using r r0 by (auto simp: allocate_new_page_def major_of_def kbind_Inr_iff Let_def split: if_splits)
  let ?h = "h1\<lparr>l_memRoot := n\<rparr>"
  have "(major_of h1 n)\<lparr>mj_prev := 0\<rparr> = major_of h1 n" using g0 by (metis liballoc_major.surjective liballoc_major.update_convs(1))
  then have "linked_in h1 n cs ?h" using True n(1) by (auto simp: linked_in_def major_of_def fun_eq_iff)
  then have g: "grown owns h cs sz n ?h" using use by blast
  have "\<exists>ph. malloc_loop alloc_hook fuel False 0 n sz req ?h = Inr ph \<and> malloced owns h req ph"
    by (rule loop_new [OF g _ _ req sz]) (use s fuel in simp_all)
  moreover have "malloc_sized alloc_hook fuel sz req h = malloc_loop alloc_hook fuel False 0 n sz req ?h"
    using r r0 g0 by (simp add: malloc_sized_def start_bet_def)
  ultimately show ?thesis by simp
next
  case False
  have sh: "shape_ok h cs" using ok by (simp add: heap_ok_def)
  have r0: "l_memRoot h = fst (hd cs)" "l_memRoot h \<noteq> 0"
    using shape_okD(3) [OF sh] shape_nonzero [OF sh] False by (cases cs; auto)+
  obtain b st best where bet: "start_bet sz h = Inr (b, st, best)" and b: "b \<in> fst ` set cs"
  proof (cases "l_bestBet h = 0")
    case True
    then show ?thesis using that [of "l_memRoot h" False 0] r0 False by (simp add: start_bet_def)
  next
    case n0: False
    then obtain xs where c: "(l_bestBet h, xs) \<in> set cs" using shape_okD(4) [OF sh] by auto
    note g = chunk_get(1) [OF shape_chunk [OF sh c]]
    have i: "l_bestBet h \<in> fst ` set cs" "l_memRoot h \<in> fst ` set cs" using c r0 False by force+
    show ?thesis
      by (rule that [of "if ucast (free_bytes h (l_bestBet h)) > (ucast (sz + header_bytes) :: u64) then l_bestBet h else l_memRoot h"
            "ucast (free_bytes h (l_bestBet h)) > (ucast (sz + header_bytes) :: u64)" "ucast (free_bytes h (l_bestBet h))"])
        (use n0 g i in \<open>simp_all add: start_bet_def Let_def free_bytes_def\<close>)
  qed
  obtain as xs bs where cs: "cs = as @ (b, xs) # bs" using b by (metis (no_types, lifting) imageE in_set_conv_decomp prod.collapse)
  have "\<exists>ph. malloc_loop alloc_hook fuel st best b sz req h = Inr ph \<and> malloced owns h req ph"
    by (rule malloc_loop_ok [OF ok [unfolded cs] ready req sz]) (use fuel cs in simp)
  moreover have "malloc_sized alloc_hook fuel sz req h = malloc_loop alloc_hook fuel st best b sz req h"
    using r0 bet by (simp add: malloc_sized_def)
  ultimately show ?thesis by simp
qed

lemma malloc_returns:
  assumes ok: "heap_ok owns h cs" and ready: "ready (pages_for (req + 32)) (hook_state h)"
    and req: "unat req + 80 < 2 ^ 32" and fuel: "2 * length cs + headers cs + 4 \<le> fuel"
  shows "\<exists>ph. malloc alloc_hook fuel req h = Inr ph \<and> malloced owns h req ph"
proof -
  have u: "unat (req + 32) = unat req + 32" using unat_plus [of req 32] req by simp
  then have "req + 32 \<noteq> 0" by (metis add_is_0 unat_0 zero_neq_numeral)
  then have "malloc alloc_hook fuel req h = malloc_sized alloc_hook fuel (req + 32) req h"
    by (simp add: malloc_def ALIGNMENT_def ALIGN_INFO_def Let_def)
  then show ?thesis using malloc_sized_ok [OF ok ready _ _ fuel, of req] u req by simp
qed

end

section \<open>Release is correct\<close>

lemma headers_apart:
  assumes ok: "shape_ok h cs" and x: "(b, xs) \<in> set cs" "x \<in> set xs" and y: "(c, ys) \<in> set cs" "y \<in> set ys" and ne: "x \<noteq> y"
  shows "unat x + 24 + mn_bytes h x \<le> unat y \<or> unat y + 24 + mn_bytes h y \<le> unat x"
proof (cases "b = c")
  case True
  then have "y \<in> set xs" using shape_unique [OF ok x(1)] y by auto
  then show ?thesis using spaced_apart [OF chunk_spaced [OF shape_chunk [OF ok x(1)]] x(2)] ne by blast
next
  case False
  show ?thesis using shape_apart [OF ok x(1) y(1) False] minor_inside(1,2) [OF shape_chunk [OF ok x(1)] x(2)]
      minor_inside(1,2) [OF shape_chunk [OF ok y(1)] y(2)] by linarith
qed

lemma user_ptr_inj:
  assumes ok: "shape_ok h cs" and x: "(b, xs) \<in> set cs" "x \<in> set xs" and y: "(c, ys) \<in> set cs" "y \<in> set ys"
    and eq: "user_ptr x = user_ptr y"
  shows "x = y"
proof (rule ccontr)
  assume "x \<noteq> y"
  then have "unat x + 24 + mn_bytes h x \<le> unat y \<or> unat y + 24 + mn_bytes h y \<le> unat x" by (rule headers_apart [OF ok x y])
  then show False using info_inside [OF shape_chunk [OF ok x(1)] x(2)] info_inside [OF shape_chunk [OF ok y(1)] y(2)] eq by simp
qed

lemma unlink_minor_fields:
  assumes d: "distinct (xs @ x # ys)" and z: "0 \<notin> set (xs @ x # ys)"
    and m: "mn_block m = b" "mn_prev m = last (0 # xs)" "mn_next m = hd (ys @ [0])" and h': "h' = unlink_minor x m h"
  shows "majors h' = (majors h)(b := map_option (\<lambda>g. g\<lparr>mj_first := (if xs = [] then hd (ys @ [0]) else mj_first g),
           mj_usage := mj_usage g - (mn_size m + header_bytes)\<rparr>) (majors h b))"
    and "minors h' y = map_option (\<lambda>k. k\<lparr>mn_magic := (if y = x then LIBALLOC_DEAD else mn_magic k),
           mn_prev := (if ys \<noteq> [] \<and> y = hd ys then last (0 # xs) else mn_prev k),
           mn_next := (if xs \<noteq> [] \<and> y = last xs then hd (ys @ [0]) else mn_next k)\<rparr>) (minors h y)"
    and "align_info h' = align_info h" and "hmem h' = hmem h" and "hook_state h' = hook_state h"
    and "l_memRoot h' = l_memRoot h" and "l_bestBet h' = l_bestBet h"
proof -
  have p: "last (0 # xs) \<noteq> 0 \<longleftrightarrow> xs \<noteq> []" "xs \<noteq> [] \<Longrightarrow> last (0 # xs) = last xs \<and> last xs \<noteq> x"
    using d z by (auto split: if_splits) (metis last_in_set)+
  have n: "hd (ys @ [0]) \<noteq> 0 \<longleftrightarrow> ys \<noteq> []" "ys \<noteq> [] \<Longrightarrow> hd (ys @ [0]) = hd ys \<and> hd ys \<noteq> x" using d z by (cases ys; auto)+
  have ne: "xs \<noteq> [] \<Longrightarrow> ys \<noteq> [] \<Longrightarrow> last xs \<noteq> hd ys" using d by (cases ys) auto
  note e = h' unlink_minor_def Let_def upd_minor_def upd_major_def m
  show "majors h' = (majors h)(b := map_option (\<lambda>g. g\<lparr>mj_first := (if xs = [] then hd (ys @ [0]) else mj_first g),
           mj_usage := mj_usage g - (mn_size m + header_bytes)\<rparr>) (majors h b))"
    using p(1) by (cases "majors h b") (auto simp: e fun_eq_iff)
  show "minors h' y = map_option (\<lambda>k. k\<lparr>mn_magic := (if y = x then LIBALLOC_DEAD else mn_magic k),
           mn_prev := (if ys \<noteq> [] \<and> y = hd ys then last (0 # xs) else mn_prev k),
           mn_next := (if xs \<noteq> [] \<and> y = last xs then hd (ys @ [0]) else mn_next k)\<rparr>) (minors h y)"
    using p n ne by (cases "minors h y"; cases "xs = []"; cases "ys = []") (auto simp: e)
  show "align_info h' = align_info h" "hmem h' = hmem h" "hook_state h' = hook_state h" "l_memRoot h' = l_memRoot h" "l_bestBet h' = l_bestBet h"
    by (simp_all add: e)
qed

lemma live_member:
  assumes "shape_ok h cs" and "(p, r) \<in> live h"
  obtains b xs x where "(b, xs) \<in> set cs" and "x \<in> set xs" and "p = user_ptr x" and "r = mn_req_size (minor_of h x)"
proof -
  obtain x m where x: "p = user_ptr x" "r = mn_req_size m" "minors h x = Some m" "mn_magic m = LIBALLOC_MAGIC"
    using assms(2) by (auto simp: live_def)
  obtain b xs where "(b, xs) \<in> set cs" "x \<in> set xs" using shape_okD(5) [OF assms(1) x(3,4)] by blast
  then show thesis by (rule that) (use x in \<open>simp_all add: minor_of_def\<close>)
qed

text \<open>A heap with a header taken out.\<close>

definition unlinked :: "'w heap \<Rightarrow> u32 \<Rightarrow> u32 list \<Rightarrow> u32 \<Rightarrow> u32 list \<Rightarrow> 'w heap \<Rightarrow> bool" where
  "unlinked h b xs x ys h' \<longleftrightarrow>
     majors h' = (majors h)(b := map_option (\<lambda>g. g\<lparr>mj_first := (if xs = [] then hd (ys @ [0]) else mj_first g),
       mj_usage := mj_usage g - (mn_size (minor_of h x) + header_bytes)\<rparr>) (majors h b))
     \<and> (\<forall>y. minors h' y = map_option (\<lambda>k. k\<lparr>mn_magic := (if y = x then LIBALLOC_DEAD else mn_magic k),
           mn_prev := (if ys \<noteq> [] \<and> y = hd ys then last (0 # xs) else mn_prev k),
           mn_next := (if xs \<noteq> [] \<and> y = last xs then hd (ys @ [0]) else mn_next k)\<rparr>) (minors h y))
     \<and> align_info h' = align_info h \<and> l_memRoot h' = l_memRoot h \<and> l_bestBet h' = l_bestBet h"

lemma unlinkedD:
  assumes "unlinked h b xs x ys h'"
  shows "majors h' = (majors h)(b := map_option (\<lambda>g. g\<lparr>mj_first := (if xs = [] then hd (ys @ [0]) else mj_first g),
       mj_usage := mj_usage g - (mn_size (minor_of h x) + header_bytes)\<rparr>) (majors h b))"
    and "minors h' y = map_option (\<lambda>k. k\<lparr>mn_magic := (if y = x then LIBALLOC_DEAD else mn_magic k),
           mn_prev := (if ys \<noteq> [] \<and> y = hd ys then last (0 # xs) else mn_prev k),
           mn_next := (if xs \<noteq> [] \<and> y = last xs then hd (ys @ [0]) else mn_next k)\<rparr>) (minors h y)"
    and "align_info h' = align_info h" and "l_memRoot h' = l_memRoot h" and "l_bestBet h' = l_bestBet h"
  using assms unfolding unlinked_def by blast+

lemma unlinked_view:
  assumes u: "unlinked h b xs x ys h'" and cb: "chunk_ok h b (xs @ x # ys)"
  shows "major_of h' c = (if c = b then (major_of h b)\<lparr>mj_first := (if xs = [] then hd (ys @ [0]) else mj_first (major_of h b)),
      mj_usage := mj_usage (major_of h b) - (mn_size (minor_of h x) + header_bytes)\<rparr> else major_of h c)"
    and "chunk_end h' c = chunk_end h c"
    and "y \<in> set (xs @ x # ys) \<Longrightarrow> minors h' y \<noteq> None"
    and "y \<in> set (xs @ x # ys) \<Longrightarrow> minor_of h' y = (minor_of h y)\<lparr>mn_magic := (if y = x then LIBALLOC_DEAD else mn_magic (minor_of h y)),
           mn_prev := (if ys \<noteq> [] \<and> y = hd ys then last (0 # xs) else mn_prev (minor_of h y)),
           mn_next := (if xs \<noteq> [] \<and> y = last xs then hd (ys @ [0]) else mn_next (minor_of h y))\<rparr>"
    and "y \<in> set (xs @ x # ys) \<Longrightarrow> mn_bytes h' y = mn_bytes h y"
proof -
  note f = unlinkedD [OF u]
  have mj: "majors h b \<noteq> None" using chunk_major [OF cb] by (simp add: major_ok_def)
  show mo: "major_of h' c = (if c = b then (major_of h b)\<lparr>mj_first := (if xs = [] then hd (ys @ [0]) else mj_first (major_of h b)),
      mj_usage := mj_usage (major_of h b) - (mn_size (minor_of h x) + header_bytes)\<rparr> else major_of h c)" for c
    using mj by (auto simp: major_of_def f(1))
  show "chunk_end h' c = chunk_end h c" by (simp add: chunk_end_def mo)
  show "y \<in> set (xs @ x # ys) \<Longrightarrow> minors h' y \<noteq> None"
    and my: "y \<in> set (xs @ x # ys) \<Longrightarrow> minor_of h' y = (minor_of h y)\<lparr>mn_magic := (if y = x then LIBALLOC_DEAD else mn_magic (minor_of h y)),
           mn_prev := (if ys \<noteq> [] \<and> y = hd ys then last (0 # xs) else mn_prev (minor_of h y)),
           mn_next := (if xs \<noteq> [] \<and> y = last xs then hd (ys @ [0]) else mn_next (minor_of h y))\<rparr>" for y
    using chunk_minor [OF cb, of y] by (auto simp: minor_of_def f(2) minor_ok_def)
  show "y \<in> set (xs @ x # ys) \<Longrightarrow> mn_bytes h' y = mn_bytes h y" by (simp add: mn_bytes_def my)
qed

lemma unlinked_usage:
  assumes u: "unlinked h b xs x ys h'" and cb: "chunk_ok h b (xs @ x # ys)"
  shows "unat (mj_usage (major_of h' b)) = 24 + sum_list (map (\<lambda>y. 24 + mn_bytes h' y) (xs @ ys))"
proof -
  note v = unlinked_view [OF u cb]
  let ?m = "minor_of h x" and ?g = "major_of h b" and ?S = "sum_list (map (\<lambda>y. 24 + mn_bytes h y) (xs @ ys))"
  have sum: "sum_list (map (\<lambda>y. 24 + mn_bytes h' y) (xs @ ys)) = ?S" by (rule bytes_cong) (rule v(5), auto)
  have us0: "unat (mj_usage ?g) = 24 + ?S + (24 + mn_bytes h x)" using chunk_major [OF cb] by (simp add: major_ok_def)
  have "24 + (24 + mn_bytes h x) < 2 ^ 32"
    using minor_inside [OF cb, of x] chunk_start [OF cb] chunk_major [OF cb] by (simp add: major_ok_def)
  then have us: "unat (mn_size ?m + header_bytes) = mn_bytes h x + 24"
    using unat_plus [of "mn_size ?m" header_bytes] by (simp add: header_bytes_unat mn_bytes_def)
  have "mn_size ?m + header_bytes \<le> mj_usage ?g" unfolding word_le_nat_alt us us0 by simp
  then have "unat (mj_usage ?g - (mn_size ?m + header_bytes)) = unat (mj_usage ?g) - (mn_bytes h x + 24)"
    using us by (simp add: unat_sub)
  then show ?thesis unfolding us0 sum by (simp add: v(1))
qed

lemma unlinked_chunk:
  assumes u: "unlinked h b xs x ys h'" and cb: "chunk_ok h b (xs @ x # ys)"
  shows "chunk_ok h' b (xs @ ys)"
proof -
  note v = unlinked_view [OF u cb] and f = unlinkedD [OF u] and sp = chunk_spaced [OF cb]
  have dj: "distinct (xs @ x # ys)" by (rule spaced_distinct [OF sp])
  have first: "mj_first (major_of h' b) = hd ((xs @ ys) @ [0])"
    using chunk_major [OF cb] by (cases xs) (simp_all add: v(1) major_ok_def)
  have major: "major_ok h' b (xs @ ys)"
    using chunk_major [OF cb] unlinked_usage [OF u cb] first v(2) by (simp add: major_ok_def v(1) f(1))
  have minor: "minor_ok h' b y" if "y \<in> set (xs @ ys)" for y
    using chunk_minor [OF cb, of y] that dj v(3,4,5) [of y] by (auto simp: minor_ok_def f(3))
  have "linked (\<lambda>x. mn_next (minor_of h x)) (\<lambda>x. mn_prev (minor_of h x)) 0 (xs @ x # ys) 0" using cb by (simp add: chunk_ok_def)
  then have link: "linked (\<lambda>x. mn_next (minor_of h' x)) (\<lambda>x. mn_prev (minor_of h' x)) 0 (xs @ ys) 0"
    by (rule linked_remove [OF _ dj]) (simp_all add: v(4))
  have "spaced (mn_bytes h') (unat b + 24) (chunk_end h' b) (xs @ ys)"
    using spaced_remove [OF sp] v(2,5) by (subst spaced_cong [where sz = "mn_bytes h"]) simp_all
  then show ?thesis using major minor link by (simp add: chunk_ok_def)
qed

lemma unlinked_in_use: "unlinked h b xs x ys h' \<Longrightarrow> in_use h' y q \<longleftrightarrow> y \<noteq> x \<and> in_use h y q"
  by (cases "minors h y") (auto simp: in_use_def unlinkedD(2) LIBALLOC_DEAD_def LIBALLOC_MAGIC_def)

lemma user_ptr_in_use:
  assumes ok: "shape_ok h cs" and x: "(b, xs) \<in> set cs" "x \<in> set xs"
  shows "in_use h x q \<longleftrightarrow> q = mn_req_size (minor_of h x)" and "in_use h y q \<Longrightarrow> user_ptr y = user_ptr x \<Longrightarrow> y = x"
proof -
  show "in_use h x q \<longleftrightarrow> q = mn_req_size (minor_of h x)"
    using chunk_minor [OF shape_chunk [OF ok x(1)] x(2)] by (auto simp: minor_ok_def in_use_def minor_of_def)
  assume y: "in_use h y q" "user_ptr y = user_ptr x"
  then obtain m where "minors h y = Some m" "mn_magic m = LIBALLOC_MAGIC" by (auto simp: in_use_def)
  then obtain c zs where c: "(c, zs) \<in> set cs" "y \<in> set zs" using shape_okD(5) [OF ok] by blast
  show "y = x" by (rule user_ptr_inj [OF ok c x y(2)])
qed

lemma unlink_minor_ok:
  assumes ok: "shape_ok h (as @ (b, xs @ x # ys) # bs)" and h': "h' = unlink_minor x (minor_of h x) h"
  shows "shape_ok h' (as @ (b, xs @ ys) # bs)" and "live h' = live h - {(user_ptr x, mn_req_size (minor_of h x))}"
    and "hmem h' = hmem h" and "hook_state h' = hook_state h" and "\<And>c. chunk_end h' c = chunk_end h c"
proof -
  let ?cs = "as @ (b, xs @ x # ys) # bs" and ?m = "minor_of h x"
  have b: "(b, xs @ x # ys) \<in> set ?cs" and x: "x \<in> set (xs @ x # ys)" by simp_all
  note cb = shape_chunk [OF ok b]
  have dj: "distinct (xs @ x # ys)" by (rule spaced_distinct [OF chunk_spaced [OF cb]])
  have z: "0 \<notin> set (xs @ x # ys)" using minor_nonzero [OF cb] by blast
  have mx: "mn_block ?m = b" using chunk_minor [OF cb x] by (simp add: minor_ok_def)
  have mp: "mn_prev ?m = last (0 # xs)" "mn_next ?m = hd (ys @ [0])" using cb by (simp_all add: chunk_ok_def linked_append)
  note f = unlink_minor_fields [OF dj z mx mp h']
  have u: "unlinked h b xs x ys h'" using f by (simp add: unlinked_def)
  note v = unlinked_view [OF u cb]
  show "hmem h' = hmem h" "hook_state h' = hook_state h" "\<And>c. chunk_end h' c = chunk_end h c" by (simp_all only: f v(2))
  have keep: "minors h' y = minors h y" if "y \<notin> set (xs @ x # ys)" for y
  proof -
    have n: "(y = x) = False" "(ys \<noteq> [] \<and> y = hd ys) = False" "(xs \<noteq> [] \<and> y = last xs) = False" using that by auto
    show ?thesis unfolding f(2) n if_False by (cases "minors h y") simp_all
  qed
  show "shape_ok h' (as @ (b, xs @ ys) # bs)"
  proof (rule shape_replace [OF ok unlinked_chunk [OF u cb]])
    show "minors h' y = minors h y \<and> align_info h' (user_ptr y - ALIGN_INFO) = align_info h (user_ptr y - ALIGN_INFO)"
      if c: "(c, zs) \<in> set ?cs" "c \<noteq> b" "y \<in> set zs" for c zs y
      using keep [of y] shape_minor_once [OF ok c(1) b c(3)] c(2) by (auto simp: f(3))
    show "y \<notin> set (xs @ x # ys) \<and> (\<exists>k. minors h y = Some k \<and> mn_magic k = LIBALLOC_MAGIC)"
      if k: "minors h' y = Some k" "mn_magic k = LIBALLOC_MAGIC" "y \<notin> set (xs @ ys)" for y k
      using unlinked_in_use [OF u, of y "mn_req_size k"] k by (auto simp: in_use_def)
  qed (simp_all add: v f)
  have "(p, q) \<in> live h' \<longleftrightarrow> (p, q) \<in> live h \<and> \<not> (p = user_ptr x \<and> q = mn_req_size ?m)" for p q
    unfolding live_iff unlinked_in_use [OF u] using user_ptr_in_use [OF ok b x] by metis
  then show "live h' = live h - {(user_ptr x, mn_req_size ?m)}" by auto
qed

text \<open>Taking an empty block of pages out of the list.\<close>

definition dropped :: "'w heap \<Rightarrow> shape \<Rightarrow> u32 \<Rightarrow> shape \<Rightarrow> 'w heap \<Rightarrow> bool" where
  "dropped h as b bs h' \<longleftrightarrow> majors h' = (\<lambda>c. if c = b then None else map_option
       (\<lambda>k. k\<lparr>mj_next := (if as \<noteq> [] \<and> c = fst (last as) then hd (map fst bs @ [0]) else mj_next k),
              mj_prev := (if bs \<noteq> [] \<and> c = fst (hd bs) then last (0 # map fst as) else mj_prev k)\<rparr>) (majors h c))
     \<and> minors h' = (\<lambda>a. if within (unat b) (chunk_end h b) a then None else minors h a)
     \<and> align_info h' = (\<lambda>a. if within (unat b) (chunk_end h b) a then None else align_info h a)
     \<and> l_memRoot h' = (if as = [] then hd (map fst bs @ [0]) else l_memRoot h)
     \<and> l_bestBet h' = (if l_bestBet h = b then 0 else l_bestBet h)"

lemma map_fst_last: "as \<noteq> [] \<Longrightarrow> last (map fst as) = fst (last as)" "bs \<noteq> [] \<Longrightarrow> hd (map fst bs) = fst (hd bs)"
  by (simp_all add: last_map hd_map)

lemma dropped_view:
  assumes ok: "shape_ok h (as @ (b, []) # bs)" and d: "dropped h as b bs h'" and c: "(c, xs) \<in> set (as @ bs)"
  shows "(c, xs) \<in> set (as @ (b, []) # bs)" and "c \<noteq> b" and "majors h' c \<noteq> None"
    and "major_of h' c = (major_of h c)\<lparr>mj_next := (if as \<noteq> [] \<and> c = fst (last as) then hd (map fst bs @ [0]) else mj_next (major_of h c)),
      mj_prev := (if bs \<noteq> [] \<and> c = fst (hd bs) then last (0 # map fst as) else mj_prev (major_of h c))\<rparr>"
    and "chunk_end h' c = chunk_end h c"
proof -
  show old: "(c, xs) \<in> set (as @ (b, []) # bs)" "c \<noteq> b" using c shape_okD(2) [OF ok] by force+
  have "majors h c \<noteq> None" using chunk_major [OF shape_chunk [OF ok old(1)]] by (simp add: major_ok_def)
  then obtain g where g: "majors h c = Some g" by blast
  note f = conjunct1 [OF d [unfolded dropped_def]]
  show "majors h' c \<noteq> None" and mo: "major_of h' c = (major_of h c)\<lparr>mj_next := (if as \<noteq> [] \<and> c = fst (last as) then hd (map fst bs @ [0]) else mj_next (major_of h c)),
      mj_prev := (if bs \<noteq> [] \<and> c = fst (hd bs) then last (0 # map fst as) else mj_prev (major_of h c))\<rparr>"
    using old(2) by (simp_all add: major_of_def f g)
  show "chunk_end h' c = chunk_end h c" by (simp add: chunk_end_def mo)
qed

lemma drop_chunk_ok:
  assumes ok: "shape_ok h (as @ (b, []) # bs)" and d: "dropped h as b bs h'"
  shows "shape_ok h' (as @ bs)" and "live h' = live h" and "\<And>c xs. (c, xs) \<in> set (as @ bs) \<Longrightarrow> chunk_end h' c = chunk_end h c"
proof -
  let ?cs = "as @ (b, []) # bs" and ?R = "within (unat b) (chunk_end h b)"
  have b: "(b, []) \<in> set ?cs" by simp
  have dist: "distinct (map fst as @ b # map fst bs)" using shape_okD(2) [OF ok] by simp
  note f = d [unfolded dropped_def]
  note v = dropped_view [OF ok d]
  show ce: "chunk_end h' c = chunk_end h c" if "(c, xs) \<in> set (as @ bs)" for c xs by (rule v(5) [OF that])
  have out: "\<not> ?R a" if c: "(c, xs) \<in> set (as @ bs)" and x: "x \<in> set xs" and a: "unat x \<le> unat a" "unat a < unat x + 24 + mn_bytes h x" for c xs x a
    using shape_apart [OF ok b v(1) [OF c]] v(2) [OF c] minor_inside(1,2) [OF shape_chunk [OF ok v(1) [OF c]] x] a
    by (auto simp: within_def)
  have chunk: "chunk_ok h' c xs" if c: "(c, xs) \<in> set (as @ bs)" for c xs
  proof -
    note cc = shape_chunk [OF ok v(1) [OF c]]
    show ?thesis
    proof (rule chunk_ok_cong [OF cc v(3) [OF c]])
      show "same_major (major_of h' c) (major_of h c)" by (simp add: v(4) [OF c] same_major_def)
      show "minors h' x = minors h x" if "x \<in> set xs" for x using out [OF c that, of x] f by simp
      show "align_info h' (user_ptr x - ALIGN_INFO) = align_info h (user_ptr x - ALIGN_INFO)" if "x \<in> set xs" for x
        using out [OF c that] info_inside [OF cc that] f by simp
    qed
  qed
  have link: "linked (\<lambda>c. mj_next (major_of h' c)) (\<lambda>c. mj_prev (major_of h' c)) 0 (map fst as @ map fst bs) 0"
  proof (rule linked_remove [where a = b and nx = "\<lambda>c. mj_next (major_of h c)" and pv = "\<lambda>c. mj_prev (major_of h c)"])
    show "linked (\<lambda>c. mj_next (major_of h c)) (\<lambda>c. mj_prev (major_of h c)) 0 (map fst as @ b # map fst bs) 0"
      using shape_okD(1) [OF ok] by simp
    fix c assume "c \<in> set (map fst as @ map fst bs)"
    then have "c \<in> fst ` set (as @ bs)" by auto
    then obtain xs where c: "(c, xs) \<in> set (as @ bs)" by (auto simp del: set_append)
    show "mj_next (major_of h' c) = (if map fst as \<noteq> [] \<and> c = last (map fst as) then hd (map fst bs @ [0]) else mj_next (major_of h c))"
      by (simp add: v(4) [OF c] map_fst_last cong: conj_cong)
    show "mj_prev (major_of h' c) = (if map fst bs \<noteq> [] \<and> c = hd (map fst bs) then last (0 # map fst as) else mj_prev (major_of h c))"
      by (simp add: v(4) [OF c] map_fst_last cong: conj_cong)
  qed (rule dist)
  have used: "\<not> ?R x \<and> (\<exists>c xs. (c, xs) \<in> set (as @ bs) \<and> x \<in> set xs)" if m: "minors h x = Some m" "mn_magic m = LIBALLOC_MAGIC" for x m
  proof -
    obtain c xs where "(c, xs) \<in> set ?cs" "x \<in> set xs" using shape_okD(5) [OF ok m] by blast
    then have c: "(c, xs) \<in> set (as @ bs)" "x \<in> set xs" by auto
    then show ?thesis using out [OF c, of x] by auto
  qed
  show "live h' = live h" unfolding live_def using used f by (auto split: if_splits)
  show "shape_ok h' (as @ bs)" unfolding shape_ok_def
  proof (intro conjI)
    show "\<forall>(c, xs) \<in> set (as @ bs). chunk_ok h' c xs" using chunk by auto
    show "distinct (map fst (as @ bs))" using dist by simp
    show "\<forall>c \<in> fst ` set (as @ bs). \<forall>e \<in> fst ` set (as @ bs). c \<noteq> e \<longrightarrow> chunk_end h' c \<le> unat e \<or> chunk_end h' e \<le> unat c"
    proof (intro ballI impI)
      fix c e assume ce2: "c \<in> fst ` set (as @ bs)" "e \<in> fst ` set (as @ bs)" "c \<noteq> e"
      then obtain xs ys where x: "(c, xs) \<in> set (as @ bs)" "(e, ys) \<in> set (as @ bs)" by (auto simp del: set_append)
      then show "chunk_end h' c \<le> unat e \<or> chunk_end h' e \<le> unat c"
        using shape_apart [OF ok v(1) v(1) ce2(3)] ce by metis
    qed
    show "linked (\<lambda>b. mj_next (major_of h' b)) (\<lambda>b. mj_prev (major_of h' b)) 0 (map fst (as @ bs)) 0" using link by simp
    show "l_memRoot h' = hd (map fst (as @ bs) @ [0])" using f shape_okD(3) [OF ok] by (cases as) simp_all
    show "l_bestBet h' = 0 \<or> l_bestBet h' \<in> fst ` set (as @ bs)" using f shape_okD(4) [OF ok] by auto
    show "\<forall>x m. minors h' x = Some m \<longrightarrow> mn_magic m = LIBALLOC_MAGIC \<longrightarrow> (\<exists>(c, xs) \<in> set (as @ bs). x \<in> set xs)"
      using used f by (fastforce split: if_splits)
  qed
qed

lemma pages_without:
  assumes ok: "shape_ok h (as @ (b, []) # bs)" and ce: "\<And>c xs. (c, xs) \<in> set (as @ bs) \<Longrightarrow> chunk_end h' c = chunk_end h c"
  shows "heap_pages h' (as @ bs) = heap_pages h (as @ (b, []) # bs) - page_run b (mj_pages (major_of h b))"
    and "page_run b (mj_pages (major_of h b)) \<subseteq> heap_pages h (as @ (b, []) # bs)"
proof -
  let ?cs = "as @ (b, []) # bs" and ?I = "\<lambda>c. {unat c div 4096 ..< chunk_end h c div 4096}"
  have b: "(b, []) \<in> set ?cs" by simp
  have run: "page_run b (mj_pages (major_of h b)) = ?I b" using chunk_run(1) [OF shape_chunk [OF ok b]] by simp
  have dis: "?I c \<inter> ?I b = {}" if c: "(c, xs) \<in> set (as @ bs)" for c xs
  proof -
    have c': "(c, xs) \<in> set ?cs" "c \<noteq> b" using c shape_okD(2) [OF ok] by force+
    have "chunk_end h b \<le> unat c \<or> chunk_end h c \<le> unat b" by (rule shape_apart [OF ok b c'(1)]) (use c'(2) in simp)
    then have "chunk_end h b div 4096 \<le> unat c div 4096 \<or> chunk_end h c div 4096 \<le> unat b div 4096" by (meson div_le_mono)
    then show ?thesis by auto
  qed
  define U J where "U = (\<Union>c \<in> fst ` set (as @ bs). ?I c)" and "J = ?I b"
  have 1: "heap_pages h' (as @ bs) = U"
    unfolding heap_pages_def U_def
  proof (rule SUP_cong)
    fix c assume "c \<in> fst ` set (as @ bs)"
    then obtain xs where c: "(c, xs) \<in> set (as @ bs)" by (auto simp del: set_append)
    show "{unat c div 4096 ..< chunk_end h' c div 4096} = ?I c" unfolding ce [OF c] ..
  qed simp
  have 2: "heap_pages h ?cs = U \<union> J" by (auto simp: heap_pages_def U_def J_def)
  have 3: "U \<inter> J = {}"
  proof -
    have "?I c \<inter> ?I b = {}" if "c \<in> fst ` set (as @ bs)" for c
    proof -
      obtain xs where "(c, xs) \<in> set (as @ bs)" using \<open>c \<in> fst ` set (as @ bs)\<close> by (auto simp del: set_append)
      then show ?thesis by (rule dis)
    qed
    then show ?thesis unfolding U_def J_def by blast
  qed
  show "heap_pages h' (as @ bs) = heap_pages h ?cs - page_run b (mj_pages (major_of h b))"
    unfolding run J_def [symmetric] 1 2 using 3 by blast
  show "page_run b (mj_pages (major_of h b)) \<subseteq> heap_pages h ?cs" unfolding run J_def [symmetric] 2 by blast
qed

context page_source
begin

lemma release_major_ok:
  assumes ok: "heap_ok owns h (as @ (b, []) # bs)"
  shows "\<exists>h' cs'. release_major free_hook b (major_of h b) h = Inr h' \<and> heap_ok owns h' cs' \<and> live h' = live h \<and> hmem h' = hmem h"
proof -
  let ?cs = "as @ (b, []) # bs" and ?g = "major_of h b"
  have sh: "shape_ok h ?cs" and ow: "owns (hook_state h) (heap_pages h ?cs)" using ok by (simp_all add: heap_ok_def)
  have cb: "chunk_ok h b []" by (rule shape_chunk [OF sh]) simp
  note mb = chunk_major [OF cb, unfolded major_ok_def]
  have lk: "linked (\<lambda>c. mj_next (major_of h c)) (\<lambda>c. mj_prev (major_of h c)) 0 (map fst as @ b # map fst bs) 0" using shape_okD(1) [OF sh] by simp
  have nx: "mj_next ?g = hd (map fst bs @ [0])" and pv: "mj_prev ?g = last (0 # map fst as)" using lk by (simp_all add: linked_append)
  have dist: "distinct (map fst as @ b # map fst bs)" using shape_okD(2) [OF sh] by simp
  have z: "0 \<notin> set (map fst as @ b # map fst bs)" using shape_nonzero [OF sh] by simp
  have p: "mj_prev ?g \<noteq> 0 \<longleftrightarrow> as \<noteq> []" "as \<noteq> [] \<Longrightarrow> mj_prev ?g = fst (last as) \<and> fst (last as) \<noteq> b"
    unfolding pv using z dist by (cases as rule: rev_cases; auto)+
  have n: "mj_next ?g \<noteq> 0 \<longleftrightarrow> bs \<noteq> []" "bs \<noteq> [] \<Longrightarrow> mj_next ?g = fst (hd bs) \<and> fst (hd bs) \<noteq> b"
    unfolding nx using z dist by (cases bs; auto)+
  have ne: "as \<noteq> [] \<Longrightarrow> bs \<noteq> [] \<Longrightarrow> fst (last as) \<noteq> fst (hd bs)" using dist by (cases as rule: rev_cases; cases bs) auto
  have root: "l_memRoot h = b \<longleftrightarrow> as = []" using shape_okD(3) [OF sh] dist by (cases as) auto
  have al: "unat b mod 4096 = 0" using mb by blast
  obtain w where w: "free_hook b (mj_pages ?g) (hook_state h) = Inr w" "owns w (heap_pages h ?cs - page_run b (mj_pages ?g))"
    using free_law [OF ow al pages_without(2) [OF sh refl]] by (elim exE conjE)
  have ce: "unat b + unat (mj_size ?g) = chunk_end h b" by (simp add: chunk_end_def)
  obtain h' where r: "release_major free_hook b ?g h = Inr h'" and dr: "dropped h as b bs h'" and s: "hook_state h' = w" "hmem h' = hmem h"
  proof -
    have hs: "hook_state (upd_major c u k) = hook_state k" for c u and k :: "'w heap" by (simp add: upd_major_def)
    let ?h2 = "(if l_bestBet h = b then (if as = [] then h\<lparr>l_memRoot := mj_next ?g\<rparr> else h)\<lparr>l_bestBet := 0\<rparr>
                else (if as = [] then h\<lparr>l_memRoot := mj_next ?g\<rparr> else h))"
    let ?h3 = "(if as \<noteq> [] then upd_major (mj_prev ?g) (\<lambda>k. k\<lparr>mj_next := mj_next ?g\<rparr>) ?h2 else ?h2)"
    let ?h4 = "(if bs \<noteq> [] then upd_major (mj_next ?g) (\<lambda>k. k\<lparr>mj_prev := mj_prev ?g\<rparr>) ?h3 else ?h3)"
    let ?h5 = "?h4\<lparr>l_allocated := l_allocated ?h4 - ucast (mj_size ?g)\<rparr>"
    let ?h' = "forget (unat b) (chunk_end h b) (?h5\<lparr>hook_state := w, majors := (majors ?h5)(b := None)\<rparr>)"
    have "hook_state ?h5 = hook_state h" by (simp add: hs)
    then have "release_major free_hook b ?g h = Inr ?h'"
      unfolding release_major_def root p(1) n(1) ce Let_def using w(1) by (simp add: hs cong: if_cong)
    moreover have "dropped h as b bs ?h'"
      unfolding dropped_def
    proof (intro conjI)
      show "majors ?h' = (\<lambda>c. if c = b then None else map_option
         (\<lambda>k. k\<lparr>mj_next := (if as \<noteq> [] \<and> c = fst (last as) then hd (map fst bs @ [0]) else mj_next k),
                mj_prev := (if bs \<noteq> [] \<and> c = fst (hd bs) then last (0 # map fst as) else mj_prev k)\<rparr>) (majors h c))"
      proof (rule ext)
        fix c
        show "majors ?h' c = (if c = b then None else map_option
         (\<lambda>k. k\<lparr>mj_next := (if as \<noteq> [] \<and> c = fst (last as) then hd (map fst bs @ [0]) else mj_next k),
                mj_prev := (if bs \<noteq> [] \<and> c = fst (hd bs) then last (0 # map fst as) else mj_prev k)\<rparr>) (majors h c))"
          using p n ne nx pv by (cases "majors h c"; cases "as = []"; cases "bs = []") (auto simp: forget_def upd_major_def)
      qed
    qed (use nx root in \<open>simp_all add: forget_def upd_major_def cong: if_cong\<close>)
    moreover have "hook_state ?h' = w" "hmem ?h' = hmem h" by (simp_all add: forget_def upd_major_def)
    ultimately show thesis by (rule that)
  qed
  note k = drop_chunk_ok [OF sh dr]
  have "heap_ok owns h' (as @ bs)" using k(1) w(2) s(1) pages_without(1) [OF sh k(3)] by (simp add: heap_ok_def)
  then show ?thesis using r k(2) s(2) by blast
qed

end

text \<open>The header of a block that is in use is found from its pointer.\<close>

lemma used_header:
  assumes ok: "shape_ok h cs" and x: "(b, xs) \<in> set cs" "x \<in> set xs"
  shows "UNALIGN (user_ptr x) h = Inr (x + header_bytes)" and "get_minor x h = Inr (minor_of h x)" and "user_ptr x \<noteq> 0"
    and "mn_magic (minor_of h x) = LIBALLOC_MAGIC" and "mn_block (minor_of h x) = b"
proof -
  note c = shape_chunk [OF ok x(1)]
  note m = chunk_minor [OF c x(2), unfolded minor_ok_def] and in4 = minor_inside(4) [OF c x(2)]
  show "UNALIGN (user_ptr x) h = Inr (x + header_bytes)" by (rule UNALIGN_user_ptr [OF in4]) (use m in blast)
  show "user_ptr x \<noteq> 0" by (rule user_ptr_nonzero [OF in4])
  show "mn_magic (minor_of h x) = LIBALLOC_MAGIC" "mn_block (minor_of h x) = b" using m by blast+
  show "get_minor x h = Inr (minor_of h x)" using m by (auto simp: get_minor_def minor_of_def split: option.splits)
qed

lemma update_bet_ok:
  assumes ok: "heap_ok owns h cs" and b: "b \<in> fst ` set cs"
  shows "\<exists>h'. update_bet b g h = Inr h' \<and> heap_ok owns h' cs \<and> live h' = live h \<and> hmem h' = hmem h"
proof (cases "l_bestBet h = 0")
  case False
  then have "l_bestBet h \<in> fst ` set cs" using shape_okD(4) ok by (auto simp: heap_ok_def)
  then obtain xs where "(l_bestBet h, xs) \<in> set cs" by auto
  then have c: "chunk_ok h (l_bestBet h) xs" using shape_chunk ok by (auto simp: heap_ok_def)
  show ?thesis using ok heap_ok_bet [OF ok, of b] b by (simp add: update_bet_def chunk_get [OF c])
qed (use ok in \<open>simp add: update_bet_def\<close>)

context page_source
begin

lemma free_ok:
  assumes ok: "heap_ok owns h cs" and p: "(p, r) \<in> live h"
  shows "\<exists>h' cs'. free free_hook p h = Inr h' \<and> heap_ok owns h' cs' \<and> live h' = live h - {(p, r)} \<and> hmem h' = hmem h"
proof -
  have sh: "shape_ok h cs" using ok by (simp add: heap_ok_def)
  obtain b zs x where x: "(b, zs) \<in> set cs" "x \<in> set zs" "p = user_ptr x" "r = mn_req_size (minor_of h x)"
    using live_member [OF sh p] by blast
  note u = used_header [OF sh x(1,2)]
  obtain as bs xs ys where cs: "cs = as @ (b, xs @ x # ys) # bs" using x(1,2) by (metis split_list)
  define h1 where "h1 = unlink_minor x (minor_of h x) h"
  note k = unlink_minor_ok [OF sh [unfolded cs] h1_def]
  let ?cs = "as @ (b, xs @ ys) # bs" and ?g = "major_of h1 b"
  have "heap_pages h1 ?cs = heap_pages h cs" using k(5) by (simp add: heap_pages_def cs)
  then have ok1: "heap_ok owns h1 ?cs" using ok k(1,4) by (simp add: heap_ok_def)
  have c1: "chunk_ok h1 b (xs @ ys)" by (rule shape_chunk [OF k(1)]) simp
  have f: "mj_first ?g = hd ((xs @ ys) @ [0])" using chunk_major [OF c1] by (simp add: major_ok_def)
  have run: "free free_hook p h = (if mj_first ?g = 0 then release_major free_hook b ?g h1 else update_bet b ?g h1)"
    using u by (simp add: free_def x(3) h1_def [symmetric] chunk_get [OF c1] Let_def)
  show ?thesis
  proof (cases "xs @ ys = []")
    case True
    then show ?thesis using release_major_ok [of h1 as b bs] ok1 f run k(2,3) x(3,4) by simp
  next
    case False
    then have "hd ((xs @ ys) @ [0]) \<in> set (xs @ ys)" by (metis hd_append2 hd_in_set)
    then have nz: "mj_first ?g \<noteq> 0" using minor_nonzero [OF c1] unfolding f by blast
    have "b \<in> fst ` set ?cs" by simp
    from update_bet_ok [OF ok1 this, of ?g]
    obtain h' where "update_bet b ?g h1 = Inr h'" "heap_ok owns h' ?cs" "live h' = live h1" "hmem h' = hmem h1"
      by (elim exE conjE)
    then show ?thesis using run nz k(2,3) x(3,4) by (intro exI [of _ h'] exI [of _ ?cs]) simp
  qed
qed

end

section \<open>The blocks handed out\<close>

text \<open>A block in use is aligned, not NULL, and lies with all the bytes asked for in pages of the heap.\<close>

lemma live_placed:
  assumes ok: "shape_ok h cs" and p: "(p, r) \<in> live h"
  shows "p \<noteq> 0" and "unat p mod 16 = 0" and "unat p + unat r \<le> 2 ^ 32"
    and "\<forall>i < unat r. (unat p + i) div 4096 \<in> heap_pages h cs"
proof -
  obtain b xs x where x: "(b, xs) \<in> set cs" "x \<in> set xs" "p = user_ptr x" "r = mn_req_size (minor_of h x)"
    using live_member [OF ok p] by blast
  note c = shape_chunk [OF ok x(1)]
  note in4 = minor_inside [OF c x(2)]
  show "p \<noteq> 0" "unat p mod 16 = 0" unfolding x(3) by (rule user_ptr_nonzero user_ptr_aligned, rule in4(4))+
  have m: "unat (moved x) < 32" by (rule moved_range) (use in4(4) in linarith)
  have r: "unat r + 32 \<le> mn_bytes h x" using chunk_minor [OF c x(2)] x(4) by (simp add: minor_ok_def)
  note u = user_ptr_unat [OF in4(4), folded x(3)]
  have "chunk_end h b \<le> 2 ^ 32" using chunk_major [OF c] by (simp add: major_ok_def)
  then show "unat p + unat r \<le> 2 ^ 32" using in4(2) u m r by linarith
  show "\<forall>i < unat r. (unat p + i) div 4096 \<in> heap_pages h cs"
  proof (intro allI impI)
    fix i assume "i < unat r"
    then have "unat p + i < chunk_end h b" "unat b \<le> unat p + i" using in4(1,2) u m r by linarith+
    moreover have "chunk_end h b = 4096 * (chunk_end h b div 4096)"
      using chunk_run(3) [OF c] chunk_major [OF c] by (auto simp: major_ok_def)
    ultimately have "(unat p + i) div 4096 \<in> {unat b div 4096 ..< chunk_end h b div 4096}"
      using div_le_mono [of "unat b" "unat p + i" 4096] by (simp add: less_mult_imp_div_less mult.commute)
    then show "(unat p + i) div 4096 \<in> heap_pages h cs" using x(1) unfolding heap_pages_def by force
  qed
qed

text \<open>Two blocks in use share no byte.\<close>

lemma live_apart:
  assumes ok: "shape_ok h cs" and p: "(p, r) \<in> live h" and q: "(q, s) \<in> live h" and ne: "(p, r) \<noteq> (q, s)"
  shows "unat p + unat r \<le> unat q \<or> unat q + unat s \<le> unat p"
proof -
  obtain b xs x where x: "(b, xs) \<in> set cs" "x \<in> set xs" "p = user_ptr x" "r = mn_req_size (minor_of h x)"
    using live_member [OF ok p] by blast
  obtain c ys y where y: "(c, ys) \<in> set cs" "y \<in> set ys" "q = user_ptr y" "s = mn_req_size (minor_of h y)"
    using live_member [OF ok q] by blast
  have "x \<noteq> y" using ne x y by auto
  note a = headers_apart [OF ok x(1,2) y(1,2) this]
  have at: "unat z + 24 \<le> unat (user_ptr z) \<and> unat (user_ptr z) + unat (mn_req_size (minor_of h z)) \<le> unat z + 24 + mn_bytes h z"
    if z: "(e, zs) \<in> set cs" "z \<in> set zs" for e zs z
  proof -
    note c = shape_chunk [OF ok z(1)]
    note in4 = minor_inside(4) [OF c z(2)]
    have "unat (moved z) < 32" by (rule moved_range) (use in4 in linarith)
    then show ?thesis using user_ptr_unat [OF in4] chunk_minor [OF c z(2)] by (simp add: minor_ok_def)
  qed
  show ?thesis using a at [OF x(1,2)] at [OF y(1,2)] unfolding x(3,4) y(3,4) by linarith
qed

text \<open>User memory is not part of the heap's own data.\<close>

lemmas mem_irrelevant [simp] = view_cong [of "h\<lparr>hmem := m\<rparr>" h for h m, simplified]

lemma heap_ok_mem [simp]: "heap_ok owns (h\<lparr>hmem := m\<rparr>) cs = heap_ok owns h cs"
  by (simp add: heap_ok_def shape_ok_def)

section \<open>Clearing, copying and resizing\<close>

lemma liballoc_memset_at: "liballoc_memset s c n mem = (\<lambda>a. if s \<le> a \<and> a < s + n then c else mem a)"
  by (induction n) (auto simp: liballoc_memset_def fun_eq_iff)

lemma liballoc_memcpy_block:
  assumes "forward_ok d s n"
  shows "liballoc_memcpy d s n mem = block_copy d s n mem"
proof -
  let ?st = "\<lparr>dst8 = d, src8 = s, cmem = mem\<rparr>"
  have n: "4 * (n div 4) + n mod 4 = n" by simp
  have ok: "forward_ok (dst8 ?st) (src8 ?st) (4 * (n div 4) + n mod 4)" unfolding n using assms by simp
  have "(cp_incr ^^ (n div 4)) ?st = advanced (4 * (n div 4)) ?st"
    unfolding cp_incr_advanced by (rule funpow_advanced) (rule forward_ok_mono [OF ok], simp)
  moreover have "(cp_byte ^^ (n mod 4)) (advanced (4 * (n div 4)) ?st) = advanced (n mod 4) (advanced (4 * (n div 4)) ?st)"
    unfolding cp_byte_advanced using funpow_advanced [of "advanced (4 * (n div 4)) ?st" 1 "n mod 4"] forward_ok_advanced [OF ok] by simp
  ultimately show ?thesis using advanced_advanced [OF ok] unfolding n by (simp add: liballoc_memcpy_def advanced_def)
qed

lemma copied_bytes:
  assumes "d + n \<le> s \<or> s + n \<le> d"
  shows "\<forall>i < n. liballoc_memcpy d s n mem (d + i) = mem (s + i)"
    and "a < d \<or> d + n \<le> a \<Longrightarrow> liballoc_memcpy d s n mem a = mem a"
  using assms by (auto simp: liballoc_memcpy_block forward_ok_def block_copy_def)

lemma resize_ok:
  assumes ok: "shape_ok h cs" and x: "(b, xs) \<in> set cs" "x \<in> set xs" and sz: "sz \<le> mn_req_size (minor_of h x)"
    and h': "h' = upd_minor x (\<lambda>m. m\<lparr>mn_req_size := sz\<rparr>) h"
  shows "shape_ok h' cs" and "heap_pages h' = heap_pages h"
    and "live h' = insert (user_ptr x, sz) (live h - {(user_ptr x, mn_req_size (minor_of h x))})"
proof -
  note m = chunk_minor [OF shape_chunk [OF ok x(1)] x(2), unfolded minor_ok_def]
  let ?m = "minor_of h x"
  have sx: "minors h x = Some ?m" using m by (auto simp: minor_of_def)
  have mi: "minors h' = (minors h)(x \<mapsto> ?m\<lparr>mn_req_size := sz\<rparr>)" by (simp add: h' upd_minor_def sx)
  have mo: "minor_of h' y = (if y = x then ?m\<lparr>mn_req_size := sz\<rparr> else minor_of h y)" for y by (simp add: minor_of_def mi)
  have e: "majors h' = majors h" "align_info h' = align_info h" "l_memRoot h' = l_memRoot h" "l_bestBet h' = l_bestBet h"
    by (simp_all add: h' upd_minor_def)
  have mj: "major_of h' = major_of h" "chunk_end h' = chunk_end h" "mn_bytes h' = mn_bytes h"
    by (auto simp: fun_eq_iff major_of_def chunk_end_def mn_bytes_def mo e)
  have f: "(\<lambda>y. mn_next (minor_of h' y)) = (\<lambda>y. mn_next (minor_of h y))" "(\<lambda>y. mn_prev (minor_of h' y)) = (\<lambda>y. mn_prev (minor_of h y))"
    by (auto simp: mo)
  have mn: "minor_ok h' c y" if "minor_ok h c y" for c y
    using that sz by (auto simp: minor_ok_def mo mi mj e word_le_nat_alt)
  have "major_ok h' = major_ok h" by (simp add: fun_eq_iff major_ok_def mj e)
  then have ck: "chunk_ok h' c ys" if "chunk_ok h c ys" for c ys using that mn by (simp add: chunk_ok_def f mj)
  have "\<exists>(b, xs) \<in> set cs. y \<in> set xs" if "minors h' y = Some k" "mn_magic k = LIBALLOC_MAGIC" for y k
    using that x shape_okD(5) [OF ok] by (cases "y = x") (force simp: mi)+
  then show "shape_ok h' cs" using ok ck by (auto simp: shape_ok_def mj e)
  show "heap_pages h' = heap_pages h" by (simp add: fun_eq_iff heap_pages_def mj)
  show "live h' = insert (user_ptr x, sz) (live h - {(user_ptr x, mn_req_size ?m)})"
  proof -
    note only = user_ptr_in_use(2,1) [OF ok x]
    have "in_use h' y q \<longleftrightarrow> (y = x \<and> q = sz) \<or> (y \<noteq> x \<and> in_use h y q)" for y q
      using m by (auto simp: mi in_use_def)
    note new = this
    have 1: "(user_ptr x, q) \<in> live h' \<longleftrightarrow> q = sz" "(user_ptr x, q) \<in> live h \<longleftrightarrow> q = mn_req_size ?m" for q
      unfolding live_iff new using only(1) [of _ q] only(2) [of q] by metis+
    have 2: "p \<noteq> user_ptr x \<Longrightarrow> (p, q) \<in> live h' \<longleftrightarrow> (p, q) \<in> live h" for p q
      unfolding live_iff new by metis
    have "(p, q) \<in> live h' \<longleftrightarrow> (p, q) \<in> insert (user_ptr x, sz) (live h - {(user_ptr x, mn_req_size ?m)})" for p q
      using 1 2 by (cases "p = user_ptr x") simp_all
    then show ?thesis by auto
  qed
qed

lemma malloced_cases:
  assumes "malloced owns h req ph"
  obtains p h' cs where "ph = (p, h')" and "heap_ok owns h' cs" and "p \<noteq> 0" and "live h' = insert (p, req) (live h)"
    and "p \<notin> fst ` live h" and "hmem h' = hmem h"
proof -
  obtain p h' where ph: "ph = (p, h')" by (cases ph)
  with assms obtain cs b xs a where c: "heap_ok owns h' cs" "(b, xs) \<in> set cs" "a \<in> set xs" "p = user_ptr a"
    and l: "live h' = insert (p, req) (live h)" "p \<notin> fst ` live h" "hmem h' = hmem h"
    unfolding malloced_def by auto
  have "(p, req) \<in> live h'" using l by simp
  then have "p \<noteq> 0" using live_placed(1) c(1) by (auto simp: heap_ok_def)
  then show thesis by (rule that [OF ph c(1) _ l])
qed

text \<open>What the memory of the blocks in use holds is unchanged.\<close>

definition kept :: "'w heap \<Rightarrow> 'w heap \<Rightarrow> (u32 \<times> u32) set \<Rightarrow> bool" where
  "kept h h' L \<longleftrightarrow> (\<forall>(q, s) \<in> L. \<forall>i < unat s. hmem h' (unat q + i) = hmem h (unat q + i))"

lemma kept_outside:
  assumes ok: "shape_ok h' cs" and l: "live h' = insert (p, r) (live h)" "p \<notin> fst ` live h"
    and out: "\<And>a. a < unat p \<or> unat p + unat r \<le> a \<Longrightarrow> mem a = hmem h a" and L: "L \<subseteq> live h"
    and k: "hmem k = mem"
  shows "kept h k L"
proof -
  have "hmem k (unat q + i) = hmem h (unat q + i)" if q: "(q, s) \<in> L" and i: "i < unat s" for q s i
  proof -
    have "(q, s) \<in> live h'" "(p, r) \<in> live h'" "(p, r) \<noteq> (q, s)" using q L l by force+
    then have "unat p + unat r \<le> unat q \<or> unat q + unat s \<le> unat p" by (intro live_apart [OF ok])
    then show ?thesis using out [of "unat q + i"] i unfolding k by linarith
  qed
  then show ?thesis by (auto simp: kept_def)
qed

context page_source
begin

lemma calloc_ok:
  assumes ok: "heap_ok owns h cs" and ready: "ready (pages_for (nobj * sz + 32)) (hook_state h)"
    and req: "unat (nobj * sz) + 80 < 2 ^ 32" and fuel: "2 * length cs + headers cs + 4 \<le> fuel"
  shows "\<exists>p h' cs'. calloc alloc_hook fuel nobj sz h = Inr (p, h') \<and> heap_ok owns h' cs'
      \<and> live h' = insert (p, nobj * sz) (live h) \<and> p \<notin> fst ` live h
      \<and> (\<forall>i < unat (nobj * sz). hmem h' (unat p + i) = 0) \<and> kept h h' (live h)"
proof -
  obtain ph where r: "malloc alloc_hook fuel (nobj * sz) h = Inr ph" "malloced owns h (nobj * sz) ph"
    using malloc_returns [OF ok ready req fuel] by (elim exE conjE)
  from r(2) obtain p h1 cs1 where m: "ph = (p, h1)" "heap_ok owns h1 cs1" "p \<noteq> 0" "live h1 = insert (p, nobj * sz) (live h)"
    "p \<notin> fst ` live h" "hmem h1 = hmem h" by (rule malloced_cases)
  let ?h = "h1\<lparr>hmem := liballoc_memset (unat p) 0 (unat (nobj * sz)) (hmem h1)\<rparr>"
  have "kept h ?h (live h)"
    by (rule kept_outside [of h1 cs1, OF _ m(4,5)]) (use m in \<open>auto simp: heap_ok_def liballoc_memset_at\<close>)
  moreover have "calloc alloc_hook fuel nobj sz h = Inr (p, ?h)" using r(1) m(1,3) by (simp add: calloc_def Let_def)
  ultimately show ?thesis using m by (intro exI [of _ p] exI [of _ ?h] exI [of _ cs1]) (simp add: liballoc_memset_at)
qed

lemma realloc_shrinks:
  assumes ok: "heap_ok owns h cs" and p: "(p, r) \<in> live h" and sz: "sz \<noteq> 0" "sz \<le> r"
  shows "\<exists>h' cs'. realloc alloc_hook free_hook fuel p sz h = Inr (p, h') \<and> heap_ok owns h' cs'
      \<and> live h' = insert (p, sz) (live h - {(p, r)}) \<and> hmem h' = hmem h"
proof -
  have sh: "shape_ok h cs" using ok by (simp add: heap_ok_def)
  obtain b xs x where x: "(b, xs) \<in> set cs" "x \<in> set xs" "p = user_ptr x" "r = mn_req_size (minor_of h x)"
    using live_member [OF sh p] by blast
  note u = used_header [OF sh x(1,2)]
  define h' where "h' = upd_minor x (\<lambda>m. m\<lparr>mn_req_size := sz\<rparr>) h"
  note k = resize_ok [OF sh x(1,2) sz(2) [unfolded x(4)] h'_def]
  have "realloc alloc_hook free_hook fuel p sz h = Inr (p, h')"
    using u sz x(3,4) by (simp add: realloc_def Let_def h'_def)
  moreover have "hook_state h' = hook_state h" "hmem h' = hmem h" by (simp_all add: h'_def upd_minor_def)
  ultimately show ?thesis using k ok x(3,4) by (intro exI [of _ h'] exI [of _ cs]) (simp add: heap_ok_def)
qed

lemma realloc_grows:
  assumes ok: "heap_ok owns h cs" and p: "(p, r) \<in> live h" and sz: "r < sz" and ready: "ready (pages_for (sz + 32)) (hook_state h)"
    and req: "unat sz + 80 < 2 ^ 32" and fuel: "2 * length cs + headers cs + 4 \<le> fuel"
  shows "\<exists>q h' cs'. realloc alloc_hook free_hook fuel p sz h = Inr (q, h') \<and> heap_ok owns h' cs'
      \<and> live h' = insert (q, sz) (live h - {(p, r)}) \<and> q \<notin> fst ` live h
      \<and> (\<forall>i < unat r. hmem h' (unat q + i) = hmem h (unat p + i)) \<and> kept h h' (live h - {(p, r)})"
proof -
  have sh: "shape_ok h cs" using ok by (simp add: heap_ok_def)
  obtain b xs x where x: "(b, xs) \<in> set cs" "x \<in> set xs" "p = user_ptr x" "r = mn_req_size (minor_of h x)"
    using live_member [OF sh p] by blast
  note u = used_header [OF sh x(1,2)]
  obtain ph where a: "malloc alloc_hook fuel sz h = Inr ph" "malloced owns h sz ph"
    using malloc_returns [OF ok ready req fuel] by (elim exE conjE)
  from a(2) obtain q h1 cs1 where m: "ph = (q, h1)" "heap_ok owns h1 cs1" "q \<noteq> 0" "live h1 = insert (q, sz) (live h)"
    "q \<notin> fst ` live h" "hmem h1 = hmem h" by (rule malloced_cases)
  have sh1: "shape_ok h1 cs1" using m(2) by (simp add: heap_ok_def)
  let ?mem = "liballoc_memcpy (unat q) (unat p) (unat r) (hmem h)"
  define h2 where "h2 = h1\<lparr>hmem := ?mem\<rparr>"
  have ne: "(p, r) \<noteq> (q, sz)" "(p, r) \<in> live h1" "(q, sz) \<in> live h1" using p m(4,5) by (force, simp, simp)
  have rs: "unat r \<le> unat sz" using sz by (simp add: word_less_nat_alt)
  have "unat q + unat r \<le> unat p \<or> unat p + unat r \<le> unat q" using live_apart [OF sh1 ne(2,3,1)] rs by linarith
  note cp = copied_bytes [OF this, where mem = "hmem h"]
  have ok2: "heap_ok owns h2 cs1" and l2: "live h2 = live h1" using m(2) by (simp_all add: h2_def)
  obtain h3 cs3 where f: "free free_hook p h2 = Inr h3" "heap_ok owns h3 cs3" "live h3 = live h2 - {(p, r)}" "hmem h3 = hmem h2"
    using free_ok [OF ok2, of p r] ne(2) unfolding l2 by blast
  have "sz \<noteq> 0" "\<not> r \<ge> sz" using sz by auto
  then have run: "realloc alloc_hook free_hook fuel p sz h = Inr (q, h3)"
    using u x(3,4) a(1) m(1,3,6) f(1) by (simp add: realloc_def Let_def h2_def)
  have "kept h h3 (live h - {(p, r)})"
    by (rule kept_outside [OF sh1 m(4,5)]) (use cp(2) rs f(4) in \<open>auto simp: h2_def\<close>)
  moreover have "live h3 = insert (q, sz) (live h - {(p, r)})" using f(3) l2 m(4) ne(1) by auto
  ultimately show ?thesis using run f(2,4) m(5) cp(1) by (intro exI [of _ q] exI [of _ h3] exI [of _ cs3]) (simp add: h2_def)
qed

end

section \<open>Requests near the end of the range\<close>

text \<open>The room added for the alignment wraps around, and the block that is handed out is too small.\<close>

lemma pages_for_small: "unat sz < 1000 \<Longrightarrow> pages_for sz = 1"
proof -
  assume sz: "unat sz < 1000"
  have u: "unat (sz + header_bytes + header_bytes) = unat sz + 48"
    using sz unat_plus [of sz header_bytes] unat_plus [of "sz + header_bytes" header_bytes] by (simp add: header_bytes_unat)
  define st where "st = sz + header_bytes + header_bytes"
  have 0: "st div l_pageSize = 0" "st mod l_pageSize \<noteq> 0"
    using u sz by (simp_all add: st_def [symmetric] l_pageSize_def word_eq_iff_unsigned unat_div unat_mod flip: unat_eq_0)
  show ?thesis unfolding pages_for_def st_def [symmetric] Let_def if_not_P [OF 0(2)] 0(1) by (simp add: l_pageCount_def)
qed

lemma malloc_first:
  assumes h: "l_memRoot h = 0" "l_bestBet h = 0" and req: "req + 32 \<noteq> 0" "unat (req + 32) < 1000"
    and hook: "alloc_hook 1 (hook_state h) = Inr (a, w)" "a \<noteq> 0"
  shows "\<exists>h'. malloc alloc_hook (Suc fuel) req h = Inr (user_ptr (a + header_bytes), h') \<and> (user_ptr (a + header_bytes), req) \<in> live h'
    \<and> mj_size (major_of h' a) = 4096 \<and> l_memRoot h' = a"
proof -
  let ?sz = "req + 32" and ?b = "a + header_bytes"
  have al: "allocate_new_page alloc_hook ?sz h = Inr (a, h\<lparr>hook_state := w,
      majors := (majors h)(a \<mapsto> \<lparr>mj_prev = 0, mj_next = 0, mj_pages = 1, mj_size = 4096, mj_usage = header_bytes, mj_first = 0\<rparr>),
      l_allocated := l_allocated h + 4096\<rparr>)"
    using hook by (simp add: allocate_new_page_def pages_for_small [OF req(2)] l_pageSize_def Let_def)
  have "unat (?sz + header_bytes) = unat ?sz + 24" using unat_plus [of ?sz header_bytes] req(2) by (simp add: header_bytes_unat)
  then have room: "\<not> 4072 < ?sz + header_bytes" using req(2) by (simp add: word_less_nat_alt)
  define h1 where "h1 = h\<lparr>hook_state := w,
      majors := (majors h)(a \<mapsto> \<lparr>mj_prev = 0, mj_next = 0, mj_pages = 1, mj_size = 4096, mj_usage = header_bytes, mj_first = 0\<rparr>),
      l_allocated := l_allocated h + 4096, l_memRoot := a, l_bestBet := a\<rparr>"
  have d: "(4096 :: u32) - header_bytes = 4072" "(0 :: u64) < ucast (4072 :: u32)" by (simp_all add: header_bytes_def)
  have run: "malloc alloc_hook (Suc fuel) req h = Inr (place_minor a 0 0 ?b ?sz req h1)"
    using al hook(2) room h req(1)
    by (simp add: malloc_def malloc_sized_def start_bet_def try_fit_def get_major_def ALIGNMENT_def ALIGN_INFO_def d Let_def h1_def)
  define h' where "h' = snd (place_minor a 0 0 ?b ?sz req h1)"
  have h'2: "h' = snd (place_minor a (last (0 # [])) (hd ([] @ [0])) ?b ?sz req h1)" by (simp add: h'_def)
  note f = place_minor_fields [where xs = "[]" and ys = "[]", OF _ _ h'2]
  have "fst (place_minor a 0 0 ?b ?sz req h1) = user_ptr ?b" using f(1) by simp
  then have pl: "place_minor a 0 0 ?b ?sz req h1 = (user_ptr ?b, h')" by (simp add: h'_def prod_eq_iff)
  have "majors h1 a = Some \<lparr>mj_prev = 0, mj_next = 0, mj_pages = 1, mj_size = 4096, mj_usage = header_bytes, mj_first = 0\<rparr>" by (simp add: h1_def)
  then have "mj_size (major_of h' a) = 4096" using f(2) by (simp add: major_of_def)
  moreover have "in_use h' ?b req" using f(3) [of ?b] by (simp add: in_use_def)
  then have "(user_ptr ?b, req) \<in> live h'" unfolding live_iff by blast
  moreover have "l_memRoot h' = a" using f(7) by (simp add: h1_def)
  ultimately show ?thesis using run pl by simp
qed

text \<open>The end of the request is far behind the end of the pages.\<close>

lemma malloc_wraps:
  assumes h: "l_memRoot h = 0" "l_bestBet h = 0" and req: "2 ^ 32 - 32 < unat req"
    and hook: "alloc_hook 1 (hook_state h) = Inr (a, w)" "a \<noteq> 0" "unat a + 4096 \<le> 2 ^ 32"
  shows "\<exists>p h'. malloc alloc_hook (Suc fuel) req h = Inr (p, h') \<and> p \<noteq> 0 \<and> (p, req) \<in> live h'
    \<and> chunk_end h' (l_memRoot h') < unat p + unat req"
proof -
  have lt: "unat req < 2 ^ 32" using unsigned_less [of req] by simp
  have "unat (req + 32) = (unat req + 32) mod 2 ^ 32" by (simp add: unat_word_ariths)
  also have "\<dots> = unat req + 32 - 2 ^ 32" using req lt by (subst le_mod_geq) simp_all
  finally have "unat (req + 32) < 1000" "unat (req + 32) \<noteq> 0" using req lt by simp_all
  then have r: "req + 32 \<noteq> 0" "unat (req + 32) < 1000" by (simp_all add: unat_eq_0)
  obtain h' where h': "malloc alloc_hook (Suc fuel) req h = Inr (user_ptr (a + header_bytes), h')"
    "(user_ptr (a + header_bytes), req) \<in> live h'" "mj_size (major_of h' a) = 4096" "l_memRoot h' = a"
    using malloc_first [OF h r, of alloc_hook, OF hook(1,2)] by blast
  have u: "unat (a + header_bytes) = unat a + 24" using unat_plus [of a header_bytes] hook(3) by (simp add: header_bytes_unat)
  then have b: "unat (a + header_bytes) + 56 \<le> 2 ^ 32" using hook(3) by simp
  have "chunk_end h' (l_memRoot h') < unat (user_ptr (a + header_bytes)) + unat req"
    using user_ptr_unat [OF b] u h'(3,4) req by (simp add: chunk_end_def)
  then show ?thesis using h'(1,2) user_ptr_nonzero [OF b] by blast
qed

end
