(* ===== verification/Kernel_Heap.thy ===== *)
theory Kernel_Heap
  imports Heap_Correct Address_Space
begin

unbundle bit_operations_syntax

text \<open>
  The kernel's heap on the kernel's pages (\<^verbatim>\<open>kernel/liballoc_hooks.cpp\<close>). The hooks get
  pages from the current directory and release them there. A set of pages is held if each is
  mapped on a frame of its own; the directory and the physical allocator keep this, so the hooks
  are a \<open>page_source\<close>, and what was shown of the heap holds for the kernel's
  \<^verbatim>\<open>malloc\<close>, \<^verbatim>\<open>free\<close> and \<^verbatim>\<open>realloc\<close>.
\<close>

section \<open>Pages that are held\<close>

text \<open>
  The flags of the pages the allocator maps, and a set of pages each mapped on a frame of its own
  that is in use and not a table. \<open>T\<close> are the addresses of the tables and \<open>F\<close> the entries.
\<close>

definition page_flags :: u32 where
  "page_flags = (PF_Present OR PF_Writable OR PF_Usermode)"

definition frame_ok :: "(nat \<Rightarrow> u32) \<Rightarrow> pmm \<Rightarrow> nat \<Rightarrow> bool" where
  "frame_ok T s k \<longleftrightarrow> k < length (physical_pages s) \<and> page_status (physical_pages s ! k) = status_code InUse
     \<and> page_address (physical_pages s ! k) \<noteq> 0 \<and> (\<forall>t < MM2_Table_Entries. T t \<noteq> page_address (physical_pages s ! k))"

definition pages_held :: "(nat \<Rightarrow> u32) \<Rightarrow> pmm \<Rightarrow> (nat \<Rightarrow> u32) \<Rightarrow> nat set \<Rightarrow> bool" where
  "pages_held T s F P \<longleftrightarrow> (\<exists>fr. inj_on fr P \<and> (\<forall>i \<in> P. frame_ok T s (fr i) \<and> F i = page_address (physical_pages s ! fr i) OR page_flags))"

definition addrs_ok :: "pmm \<Rightarrow> bool" where
  "addrs_ok s \<longleftrightarrow> pmm_ok s \<and> addrs_ascending (physical_pages s)
     \<and> (\<forall>q \<in> set (io_pages s). \<forall>k < length (physical_pages s). page_address q \<noteq> page_address (physical_pages s ! k))"

lemma page_flags_bits:
  "(page_address p OR page_flags) AND MM2_Address_Mask = page_address p" "(x OR page_flags) AND PF_Present \<noteq> 0"
proof -
  have "page_flags AND MM2_Address_Mask = 0"
    by (simp add: page_flags_def PF_Present_def PF_Writable_def PF_Usermode_def MM2_Address_Mask_def)
  then show "(page_address p OR page_flags) AND MM2_Address_Mask = page_address p" by (simp add: frame_of_entry)
  have "page_flags AND PF_Present \<noteq> 0" by (simp add: page_flags_def PF_Present_def PF_Writable_def PF_Usermode_def)
  then show "(x OR page_flags) AND PF_Present \<noteq> 0" by (simp add: bit.conj_disj_distrib2 or_eq_0_iff)
qed

lemma address_inj:
  assumes "addrs_ok s" and "i < length (physical_pages s)" and "j < length (physical_pages s)"
    and "page_address (physical_pages s ! i) = page_address (physical_pages s ! j)"
  shows "i = j"
  using ascending_nth [of "physical_pages s" i j] ascending_nth [of "physical_pages s" j i] assms
  by (cases i j rule: linorder_cases) (simp_all add: addrs_ok_def)

lemma held_cong: "(\<And>i. i \<in> P \<Longrightarrow> F' i = F i) \<Longrightarrow> pages_held T s F' P = pages_held T s F P"
  by (simp add: pages_held_def)

lemma held_mono: "pages_held T s F P \<Longrightarrow> Q \<subseteq> P \<Longrightarrow> pages_held T s F Q"
  unfolding pages_held_def by (meson inj_on_subset subsetD)

text \<open>Taking a frame, for a page or for a table, leaves the others.\<close>

lemma addrs_ok_status:
  assumes "addrs_ok s" and "physical_pages s' = (physical_pages s)[k := page_set_status st (physical_pages s ! k)]"
    and "io_pages s' = io_pages s" and "pmm_ok s'"
  shows "addrs_ok s'"
proof -
  have "page_address (physical_pages s' ! i) = page_address (physical_pages s ! i)" if "i < length (physical_pages s)" for i
    using that by (cases "i = k") (simp_all add: assms(2))
  then show ?thesis using assms ascending_update [of "physical_pages s"] by (simp add: addrs_ok_def)
qed

lemma alloc_status:
  assumes ok: "addrs_ok s" and a: "physical_alloc 0xFFFFFFFF s = Inr (k, s')"
  shows "addrs_ok s'" and "unat k < length (physical_pages s)" and "length (physical_pages s') = length (physical_pages s)"
    and "page_status (physical_pages s ! unat k) = status_code Free" and "page_status (physical_pages s' ! unat k) = status_code InUse"
    and "\<And>i. page_address (physical_pages s' ! i) = page_address (physical_pages s ! i)"
    and "\<And>i. i \<noteq> unat k \<Longrightarrow> physical_pages s' ! i = physical_pages s ! i"
proof -
  have pk: "pmm_ok s" using ok by (simp add: addrs_ok_def)
  note e = physical_alloc_effect [OF pk a]
  show "addrs_ok s'" by (rule addrs_ok_status [OF ok, where k = "unat k" and st = InUse]) (use e(3,4) in simp_all)
  show "unat k < length (physical_pages s)" by (rule e(1))
  show "length (physical_pages s') = length (physical_pages s)" using e(3) by simp
  show "page_status (physical_pages s ! unat k) = status_code Free" using e(2) by (simp add: usable_def)
  show "page_status (physical_pages s' ! unat k) = status_code InUse" using e(1,3) by simp
  show "page_address (physical_pages s' ! i) = page_address (physical_pages s ! i)" for i by (rule physical_alloc_addresses [OF pk a])
  show "physical_pages s' ! i = physical_pages s ! i" if "i \<noteq> unat k" for i using e(3) that by simp
qed

lemma held_frames:
  assumes "\<And>k. frame_ok T s k \<Longrightarrow> frame_ok T' s' k \<and> page_address (physical_pages s' ! k) = page_address (physical_pages s ! k)"
    and "pages_held T s F P"
  shows "pages_held T' s' F P"
proof -
  obtain fr where "inj_on fr P" and fr: "\<forall>i \<in> P. frame_ok T s (fr i) \<and> F i = page_address (physical_pages s ! fr i) OR page_flags"
    using assms(2) by (auto simp: pages_held_def)
  moreover have "frame_ok T' s' (fr i) \<and> F i = page_address (physical_pages s' ! fr i) OR page_flags" if "i \<in> P" for i
    using fr assms(1) that by simp
  ultimately show ?thesis unfolding pages_held_def by blast
qed

lemma held_alloc:
  assumes ok: "addrs_ok s" and a: "physical_alloc 0xFFFFFFFF s = Inr (k, s')" and h: "pages_held T s F P"
    and T': "T' = T \<or> T' = T(tn := page_address (physical_pages s' ! unat k))"
  shows "pages_held T' s' F P"
proof (rule held_frames [OF _ h])
  note st = alloc_status [OF ok a]
  fix i assume i: "frame_ok T s i"
  then have "i \<noteq> unat k" using st(4) by (auto simp: frame_ok_def)
  moreover have "i < length (physical_pages s)" using i by (simp add: frame_ok_def)
  ultimately have "page_address (physical_pages s ! i) \<noteq> page_address (physical_pages s ! unat k)"
    using address_inj [OF ok _ st(2), of i] by blast
  then show "frame_ok T' s' i \<and> page_address (physical_pages s' ! i) = page_address (physical_pages s ! i)"
    using i st(3,6) st(7) [OF \<open>i \<noteq> unat k\<close>] T' by (auto simp: frame_ok_def split: if_splits)
qed

lemma held_new:
  assumes ok: "addrs_ok s" and a: "physical_alloc 0xFFFFFFFF s = Inr (k, s')" and h: "pages_held T s F P"
    and pool: "page_address (physical_pages s' ! unat k) \<noteq> 0" "\<forall>t < MM2_Table_Entries. T t \<noteq> page_address (physical_pages s' ! unat k)"
    and n: "n \<notin> P"
  shows "pages_held T s' (F(n := page_address (physical_pages s' ! unat k) OR page_flags)) (insert n P)"
proof -
  note st = alloc_status [OF ok a]
  obtain fr where fr: "inj_on fr P" "\<forall>i \<in> P. frame_ok T s (fr i) \<and> F i = page_address (physical_pages s ! fr i) OR page_flags"
    using h by (auto simp: pages_held_def)
  have ne: "fr i \<noteq> unat k" if "i \<in> P" for i using fr(2) that st(4) by (auto simp: frame_ok_def)
  have im: "unat k \<notin> fr ` P" by (metis imageE ne)
  then have "inj_on (fr(n := unat k)) P" by (rule inj_on_fun_updI [OF fr(1)])
  moreover have "fr(n := unat k) ` P = fr ` P" using n by (auto simp: image_iff)
  ultimately have "inj_on (fr(n := unat k)) (insert n P)" using im n by simp
  moreover have "frame_ok T s' (unat k)" using st(2,3,5) pool by (simp add: frame_ok_def)
  moreover have "frame_ok T s' (fr i) \<and> F i = page_address (physical_pages s' ! fr i) OR page_flags" if "i \<in> P" for i
    using fr(2) that st(3) st(7) [OF ne [OF that]] by (auto simp: frame_ok_def)
  ultimately show ?thesis using n unfolding pages_held_def by (intro exI [of _ "fr(n := unat k)"]) auto
qed

text \<open>A space: its directory is in order, page 0 is never free, and frames are found by address.\<close>

definition owns_dir :: "pdir \<Rightarrow> mmstate \<Rightarrow> nat set \<Rightarrow> bool" where
  "owns_dir d m P \<longleftrightarrow> pd_ok d m \<and> \<not> page_free d m 0 \<and> addrs_ok (pm m) \<and> 0 \<notin> P \<and> (\<forall>i \<in> P. valid_page m i)
     \<and> pages_held (table_addr d) (pm m) (pte d m) P"

lemma step_held:
  assumes "tables_step d s tn d' s'" and "addrs_ok s" and "pages_held (table_addr d) s F P"
  shows "pages_held (table_addr d') s' F P" and "addrs_ok s'"
  using assms held_alloc [OF assms(2) _ assms(3)] alloc_status(1) [OF assms(2)]
  by (auto simp: tables_step_def split: if_splits)

section \<open>Mapping and freeing held pages\<close>

lemma store_held:
  assumes ok: "pd_ok d m" and ad: "addrs_ok (pm m)" and h: "pages_held (table_addr d) (pm m) F P" and guard: "\<not> page_free d m 0"
    and n: "n \<noteq> 0" "valid_page m n" and P: "0 \<notin> P" "\<forall>i \<in> P. valid_page m i" and sp: "table_addr d (n div MM2_Table_Entries) = 0 \<longrightarrow> spare_page (pm m)"
    and F: "\<forall>i \<in> P. F i = (if i = n then x else pte d m i)"
  obtains d' m' where "set_table_entry n x d m = Inr (d', m')" and "owns_dir d' m' P" and "window_page m' = window_page m"
    and "\<forall>j. valid_page m j \<longrightarrow> pte d' m' j = (if j = n then x else pte d m j)"
    and "free_count (pm m) \<le> Suc (free_count (pm m'))"
proof -
  have nr: "n < MM2_Table_Entries * MM2_Table_Entries" using n(2) by (simp add: valid_page_def)
  obtain d' m' where r: "set_table_entry n x d m = Inr (d', m')" "pd_ok d' m'"
      "\<forall>j. valid_page m j \<longrightarrow> pte d' m' j = (if j = n then x else pte d m j)" "window_page m' = window_page m"
      "tables_step d (pm m) (n div MM2_Table_Entries) d' (pm m')"
    by (rule set_table_entry_ok [OF ok nr sp, of x])
  have vp: "valid_page m' = valid_page m" using r(4) by (simp add: valid_page_def fun_eq_iff)
  have "pages_held (table_addr d') (pm m') F P" and ad': "addrs_ok (pm m')" by (rule step_held [OF r(5) ad h])+
  then have "pages_held (table_addr d') (pm m') (pte d' m') P"
    using held_cong [of P "pte d' m'" F] F P(2) r(3) by simp
  moreover have "\<not> page_free d' m' 0"
    using guard r(3,4) n(1) by (auto simp: page_free_def valid_page_def MM2_Table_Entries_def)
  ultimately have "owns_dir d' m' P" using r(2) ad' P by (simp add: owns_dir_def vp)
  moreover have "free_count (pm m) \<le> Suc (free_count (pm m'))"
    using r(5) free_count_alloc [of "pm m"] ad by (auto simp: tables_step_def addrs_ok_def split: if_splits)
  ultimately show thesis using r(1,3,4) that by blast
qed

lemma owns_dir_counters [simp]:
  "owns_dir (d\<lparr>upages := u\<rparr>) m P = owns_dir d m P" "owns_dir d (m\<lparr>kpages := k\<rparr>) P = owns_dir d m P"
proof -
  have "table_addr (d\<lparr>upages := u\<rparr>) = table_addr d" by (simp add: table_addr_def fun_eq_iff)
  then show "owns_dir (d\<lparr>upages := u\<rparr>) m P = owns_dir d m P" "owns_dir d (m\<lparr>kpages := k\<rparr>) P = owns_dir d m P"
    by (simp_all add: owns_dir_def page_free_def valid_page_def)
qed

lemma map_page_held:
  assumes ow: "owns_dir d m P" and fc: "3 \<le> free_count (pm m)" and n: "n = unat a div 4096" "valid_page m n" "n \<notin> P" "n \<noteq> 0"
  obtains d' m' where "map_page_at a page_flags d m = Inr (d', m')" and "owns_dir d' m' (insert n P)" and "window_page m' = window_page m"
    and "\<forall>j. valid_page m j \<longrightarrow> j \<noteq> n \<longrightarrow> pte d' m' j = pte d m j" and "free_count (pm m) \<le> Suc (Suc (free_count (pm m')))"
proof -
  have ok: "pd_ok d m" "addrs_ok (pm m)" "pages_held (table_addr d) (pm m) (pte d m) P" "\<not> page_free d m 0" "0 \<notin> P" "\<forall>i \<in> P. valid_page m i"
    using ow by (simp_all add: owns_dir_def)
  have p: "pool_ok d (pm m)" "pmm_ok (pm m)" using ok(1) by (simp_all add: pd_ok_def pool_ok_def)
  obtain k s' where al: "physical_alloc 0xFFFFFFFF (pm m) = Inr (k, s')"
    using physical_alloc_spare [OF p(1) spare_page_count] fc by auto
  let ?m = "m\<lparr>pm := s'\<rparr>" and ?x = "page_address (physical_pages s' ! unat k) OR page_flags"
  note fresh = pool_ok_fresh [OF p(1) al]
  have fc1: "free_count (pm m) = Suc (free_count s')" by (rule free_count_alloc [OF p(2) al])
  then have sp: "spare_page (pm ?m)" using fc by (intro spare_page_count) simp
  have h: "pages_held (table_addr d) (pm ?m) ((pte d m)(n := ?x)) (insert n P)"
    using held_new [OF ok(2) al ok(3) fresh(1,2) n(3)] by simp
  have same: "pte d ?m = pte d m" "valid_page ?m = valid_page m" by (simp_all add: pte_def valid_page_def fun_eq_iff)
  have ad: "addrs_ok (pm ?m)" using alloc_status(1) [OF ok(2) al] by simp
  obtain d1 m1 where st: "set_table_entry n ?x d ?m = Inr (d1, m1)" and ow1: "owns_dir d1 m1 (insert n P)" and wp: "window_page m1 = window_page ?m"
    and v: "\<forall>j. valid_page ?m j \<longrightarrow> pte d1 m1 j = (if j = n then ?x else pte d ?m j)" and fc2: "free_count (pm ?m) \<le> Suc (free_count (pm m1))"
    by (rule store_held [OF pd_ok_alloc [OF ok(1) al] ad h _ n(4)]) (use ok n sp in \<open>auto simp: page_free_def valid_page_def pte_def\<close>)
  let ?r = "(if (a AND MM2_Address_Mask) > MM2_Kernel_Boundary then (d1\<lparr>upages := upages d1 + 1\<rparr>, m1) else (d1, m1\<lparr>kpages := kpages m1 + 1\<rparr>))"
  obtain d' m' where r: "?r = (d', m')" by (metis prod.exhaust)
  have "map_page_at a page_flags d m = Inr (d', m')"
    using st r by (simp add: map_page_at_def al map_phys_at_def mask_page_div n(1) if_distrib [of Inr] split: if_splits)
  moreover have "owns_dir d' m' (insert n P)" "window_page m' = window_page m" "pm m' = pm m1" "pte d' m' = pte d1 m1"
    using r ow1 wp by (auto split: if_splits)
  ultimately show thesis using v [unfolded same] fc1 fc2 by (intro that [of d' m']) auto
qed

lemma map_run_held:
  assumes "owns_dir d m P" and "2 * n < free_count (pm m)" and "p + n \<le> MM2_Total_Pages" and "0 < p"
    and "\<forall>i. p \<le> i \<and> i < p + n \<longrightarrow> valid_page m i \<and> i \<notin> P"
  shows "\<exists>d' m'. map_run n (word_of_nat (p * 4096)) page_flags d m = Inr (d', m') \<and> owns_dir d' m' (P \<union> {p ..< p + n})"
  using assms
proof (induction n arbitrary: p d m P)
  case (Suc n)
  let ?a = "word_of_nat (p * 4096) :: u32"
  have pg: "p = unat ?a div 4096" using Suc.prems(3) by (simp only: unat_page_word MM2_Total_Pages_def nonzero_mult_div_cancel_right)
  obtain d1 m1 where run: "map_page_at ?a page_flags d m = Inr (d1, m1)" and ow: "owns_dir d1 m1 (insert p P)"
    and wp: "window_page m1 = window_page m" and fc: "free_count (pm m) \<le> Suc (Suc (free_count (pm m1)))"
    by (rule map_page_held [OF Suc.prems(1) _ pg]) (use Suc.prems in auto)
  have "?a + MM2_Page_Size = word_of_nat (Suc p * 4096)" by (simp add: MM2_Page_Size_def)
  then have step: "map_run (Suc n) ?a page_flags d m = map_run n (word_of_nat (Suc p * 4096)) page_flags d1 m1"
    by (simp only: map_run.simps run kbind_simps prod.case)
  have "\<exists>d' m'. map_run n (word_of_nat (Suc p * 4096)) page_flags d1 m1 = Inr (d', m') \<and> owns_dir d' m' (insert p P \<union> {Suc p ..< Suc p + n})"
    by (rule Suc.IH [OF ow]) (use Suc.prems fc wp in \<open>auto simp: valid_page_def\<close>)
  moreover have "insert p P \<union> {Suc p ..< Suc p + n} = P \<union> {p ..< p + Suc n}" by auto
  ultimately show ?case unfolding step by simp
qed simp

text \<open>Looking at entries changes nothing of this.\<close>

lemma owns_dir_view:
  assumes ow: "owns_dir d m P" and "pd_ok d' m'" "same_view d m d' m'" "window_page m' = window_page m" "pm m' = pm m" "table_addr d' = table_addr d"
  shows "owns_dir d' m' P"
proof -
  have vp: "valid_page m' = valid_page m" using assms(4) by (simp add: valid_page_def fun_eq_iff)
  have "pages_held (table_addr d) (pm m) (pte d' m') P = pages_held (table_addr d) (pm m) (pte d m) P"
    by (rule held_cong) (use ow assms(3) in \<open>simp add: owns_dir_def same_view_def\<close>)
  moreover have "page_free d' m' 0 = page_free d m 0" by (rule page_free_view [OF assms(3,4)]) (simp add: MM2_Table_Entries_def)
  ultimately show ?thesis using ow assms(2,5,6) by (simp add: owns_dir_def vp)
qed

lemma physical_free_held:
  assumes ad: "addrs_ok s" and k: "frame_ok T s k"
  shows "physical_free (page_address (physical_pages s ! k)) s
    = Inr (s\<lparr>physical_pages := (physical_pages s)[k := page_set_status Free (physical_pages s ! k)], free_pages := free_pages s + 1\<rparr>)"
proof -
  have kl: "k < length (physical_pages s)" and st: "page_status (physical_pages s ! k) = status_code InUse" using k by (simp_all add: frame_ok_def)
  have "find_page (page_address (physical_pages s ! k)) s = Inr (Some (RamPage k))"
    by (rule find_page_ascending [OF _ kl]) (use ad kl in \<open>auto simp: addrs_ok_def\<close>)
  then show ?thesis using kl st by (simp add: physical_free_def physical_free_page_def mark_page_def Let_def)
qed

lemma pool_ok_given_back:
  assumes p: "pool_ok d s" and ad: "addrs_ok s" and k: "frame_ok (table_addr d) s k"
    and s': "s' = s\<lparr>physical_pages := (physical_pages s)[k := page_set_status Free (physical_pages s ! k)], free_pages := free_pages s + 1\<rparr>"
  shows "pool_ok d s'" and "addrs_ok s'" and "frame_ok T s i \<Longrightarrow> i \<noteq> k \<Longrightarrow> frame_ok T s' i"
proof -
  have pk: "pmm_ok s'" using ad by (simp add: s' addrs_ok_def pmm_ok_def)
  show ad': "addrs_ok s'" by (rule addrs_ok_status [OF ad _ _ pk, where k = k and st = Free]) (simp_all add: s')
  have adr: "page_address (physical_pages s' ! i) = page_address (physical_pages s ! i)" for i
    using k by (cases "i = k") (simp_all add: s' frame_ok_def)
  have fi: "free_index s' i \<Longrightarrow> i = k \<or> free_index s i" "free_index s' i \<Longrightarrow> i < length (physical_pages s)" for i
    by (cases "i = k"; simp add: free_index_def s')+
  have inj: "i = j" if "free_index s' i" "free_index s' j" "page_address (physical_pages s' ! i) = page_address (physical_pages s' ! j)" for i j
    using address_inj [OF ad fi(2) fi(2)] that unfolding adr by blast
  have "page_address (physical_pages s' ! i) \<noteq> 0 \<and> (\<forall>t < MM2_Table_Entries. table_addr d t \<noteq> page_address (physical_pages s' ! i))"
    if "free_index s' i" for i
    using fi(1) [OF that] k p by (auto simp: adr frame_ok_def pool_ok_def)
  then show "pool_ok d s'" using pk inj unfolding pool_ok_def by blast
  show "frame_ok T s i \<Longrightarrow> i \<noteq> k \<Longrightarrow> frame_ok T s' i" by (simp add: frame_ok_def s')
qed

lemma owns_dir_low [simp]:
  "owns_dir (d\<lparr>klowfree := x\<rparr>) m P = owns_dir d m P" "owns_dir (d\<lparr>ulowfree := x\<rparr>) m P = owns_dir d m P"
proof -
  have t: "table_addr (d\<lparr>klowfree := x\<rparr>) = table_addr d" "table_addr (d\<lparr>ulowfree := x\<rparr>) = table_addr d"
    by (simp_all add: table_addr_def fun_eq_iff)
  have p: "pte (d\<lparr>klowfree := x\<rparr>) = pte d" "pte (d\<lparr>ulowfree := x\<rparr>) = pte d" by (simp_all add: fun_eq_iff pte_def t)
  have o: "pd_ok (d\<lparr>klowfree := x\<rparr>) m = pd_ok d m" "pd_ok (d\<lparr>ulowfree := x\<rparr>) m = pd_ok d m"
    by (simp_all add: pd_ok_def tables_ok_def cache_ok_def pool_ok_def frame_table_def t p)
  show "owns_dir (d\<lparr>klowfree := x\<rparr>) m P = owns_dir d m P" "owns_dir (d\<lparr>ulowfree := x\<rparr>) m P = owns_dir d m P"
    by (simp_all add: owns_dir_def page_free_def t p o)
qed

lemma look_held:
  assumes ow: "owns_dir d m P" and n: "valid_page m n" and g: "get_table_entry n d m = (e, d', m')"
  shows "owns_dir d' m' P" and "e = pte d m n" and "pm m' = pm m" and "table_addr d' = table_addr d" and "window_page m' = window_page m"
    and "pte d' m' n = pte d m n"
proof -
  have nr: "n < MM2_Table_Entries * MM2_Table_Entries" using n by (simp add: valid_page_def)
  have t: "tables_ok d m" "cache_ok d m" "pool_ok d (pm m)" using ow by (simp_all add: owns_dir_def pd_ok_def)
  note gt = get_table_entry_ok [OF t(1,2) nr g]
  show "e = pte d m n" by (rule gt(4) [OF n])
  show keep: "pm m' = pm m" "table_addr d' = table_addr d" "window_page m' = window_page m" using gt(6,7) by auto
  have "pd_ok d' m'" using gt(1,2) t(3) keep by (simp add: pd_ok_def pool_ok_def)
  then show "owns_dir d' m' P" by (rule owns_dir_view [OF ow _ gt(3) keep(3,1,2)])
  show "pte d' m' n = pte d m n" using gt(3) n by (simp add: same_view_def)
qed

lemma free_one_held:
  assumes ow: "owns_dir d m P" and n: "n = unat a div 4096" "n \<in> P"
  obtains d' m' where "free_one a d m = Inr (d', m')" and "owns_dir d' m' (P - {n})"
proof -
  define d1 where "d1 = (if n < MM2_Kernel_Pages \<and> n < klowfree d then d\<lparr>klowfree := n\<rparr>
                else if n \<ge> MM2_Kernel_Pages \<and> n < ulowfree d then d\<lparr>ulowfree := n\<rparr> else d)"
  have ow1: "owns_dir d1 m P" using ow by (simp add: d1_def)
  have vn: "valid_page m n" and n0: "n \<noteq> 0" using ow n(2) by (simp add: owns_dir_def, metis owns_dir_def)
  obtain e d2 m2 where g: "get_table_entry n d1 m = (e, d2, m2)" by (metis prod_cases3)
  note l = look_held [OF ow1 vn g]
  have ok: "pd_ok d2 m2" "addrs_ok (pm m2)" "pages_held (table_addr d2) (pm m2) (pte d2 m2) P" "\<not> page_free d2 m2 0" "0 \<notin> P" "\<forall>i \<in> P. valid_page m2 i"
    using l(1) by (simp_all add: owns_dir_def)
  let ?s = "pm m2"
  obtain fr where inj: "inj_on fr P" and fr: "\<forall>i \<in> P. frame_ok (table_addr d2) ?s (fr i) \<and> pte d2 m2 i = page_address (physical_pages ?s ! fr i) OR page_flags"
    using ok(3) unfolding pages_held_def by blast
  let ?k = "fr n"
  define s' where "s' = ?s\<lparr>physical_pages := (physical_pages ?s)[?k := page_set_status Free (physical_pages ?s ! ?k)], free_pages := free_pages ?s + 1\<rparr>"
  have k: "frame_ok (table_addr d2) ?s ?k" and en: "e = page_address (physical_pages ?s ! ?k) OR page_flags" using fr n(2) l(2,6) by auto
  have pf: "physical_free (e AND MM2_Address_Mask) ?s = Inr s'" "e AND PF_Present \<noteq> 0"
    using physical_free_held [OF ok(2) k] by (simp_all add: en page_flags_bits s'_def)
  have pool: "pool_ok d2 ?s" using ok(1) by (simp add: pd_ok_def)
  note gb = pool_ok_given_back [OF pool ok(2) k s'_def]
  let ?m = "m2\<lparr>pm := s'\<rparr>"
  have pd: "pd_ok d2 ?m" using ok(1) gb(1) by (simp add: pd_ok_def cache_ok_def)
  have same: "pte d2 ?m = pte d2 m2" "valid_page ?m = valid_page m2" by (simp_all add: pte_def valid_page_def fun_eq_iff)
  have "frame_ok (table_addr d2) s' (fr i) \<and> pte d2 m2 i = page_address (physical_pages s' ! fr i) OR page_flags" if "i \<in> P - {n}" for i
  proof -
    have "fr i \<noteq> ?k" using inj that n(2) by (auto dest: inj_onD)
    then show ?thesis using fr that gb(3) by (auto simp: s'_def)
  qed
  moreover have "inj_on fr (P - {n})" using inj by (rule inj_on_subset) blast
  ultimately have h: "pages_held (table_addr d2) (pm ?m) (pte d2 m2) (P - {n})" unfolding pages_held_def by auto
  have t0: "table_addr d2 (n div MM2_Table_Entries) \<noteq> 0"
  proof
    assume "table_addr d2 (n div MM2_Table_Entries) = 0"
    then have "pte d2 m2 n = 0" by (simp add: pte_def)
    then show False using l(2,6) pf(2) by simp
  qed
  have vn2: "valid_page ?m n" using ok(6) n(2) unfolding same by blast
  obtain d3 m3 where st: "set_table_entry n 0 d2 ?m = Inr (d3, m3)" and ow3: "owns_dir d3 m3 (P - {n})"
    by (rule store_held [OF pd _ h _ n0 vn2]) (use gb(2) ok t0 in \<open>auto simp: page_free_def same\<close>)
  have "free_one a d m = Inr (if a > MM2_Kernel_Boundary then (d3\<lparr>upages := upages d3 - 1\<rparr>, m3) else (d3, m3\<lparr>kpages := kpages m3 - 1\<rparr>))"
    unfolding free_one_def n(1) [symmetric] Let_def d1_def [symmetric] using g pf st by simp
  then show thesis using ow3 by (cases "a > MM2_Kernel_Boundary") (auto intro: that)
qed

lemma free_run_held:
  assumes "owns_dir d m P" and "{p ..< p + n} \<subseteq> P" and "p + n \<le> 1048576"
  shows "\<exists>d' m'. free_run n (word_of_nat (p * 4096)) d m = Inr (d', m') \<and> owns_dir d' m' (P - {p ..< p + n})"
  using assms
proof (induction n arbitrary: p d m P)
  case (Suc n)
  let ?a = "word_of_nat (p * 4096) :: u32"
  have pg: "p = unat ?a div 4096" using Suc.prems(3) by (simp only: unat_page_word nonzero_mult_div_cancel_right)
  have "p \<in> P" using Suc.prems(2) by auto
  then obtain d1 m1 where run: "free_one ?a d m = Inr (d1, m1)" and ow: "owns_dir d1 m1 (P - {p})" by (rule free_one_held [OF Suc.prems(1) pg])
  have "?a + MM2_Page_Size = word_of_nat (Suc p * 4096)" by (simp add: MM2_Page_Size_def)
  then have step: "free_run (Suc n) ?a d m = free_run n (word_of_nat (Suc p * 4096)) d1 m1"
    by (simp only: free_run.simps run kbind_simps prod.case)
  have "\<exists>d' m'. free_run n (word_of_nat (Suc p * 4096)) d1 m1 = Inr (d', m') \<and> owns_dir d' m' (P - {p} - {Suc p ..< Suc p + n})"
    by (rule Suc.IH [OF ow]) (use Suc.prems in auto)
  moreover have "P - {p} - {Suc p ..< Suc p + n} = P - {p ..< p + Suc n}" by auto
  ultimately show ?case unfolding step by simp
qed simp

section \<open>The hooks\<close>

text \<open>What the heap calls for pages, and what it calls to give them back.\<close>

definition liballoc_alloc :: "u32 \<Rightarrow> vsys \<Rightarrow> (u32 \<times> vsys) kres" where
  "liballoc_alloc pages s = mm2_virtual_alloc (unat pages) Mode_Kernel s"

definition liballoc_free :: "u32 \<Rightarrow> u32 \<Rightarrow> vsys \<Rightarrow> vsys kres" where
  "liballoc_free ptr pages s = mm2_virtual_free ptr (unat pages) s"

text \<open>The pages held in the current directory, and that a number of pages can be had.\<close>

definition vm_owns :: "vsys \<Rightarrow> nat set \<Rightarrow> bool" where
  "vm_owns s P \<longleftrightarrow> owns_dir (dirs s (active_dir s)) (mm s) P"

definition vm_ready :: "u32 \<Rightarrow> vsys \<Rightarrow> bool" where
  "vm_ready n s \<longleftrightarrow> 2 * unat n < free_count (pm (mm s))
     \<and> (\<exists>q \<le> MM2_Total_Pages. klowfree (dirs s (active_dir s)) \<le> q \<and> free_run_at (page_free (dirs s (active_dir s)) (mm s)) (unat n) q)"

lemma vm_owns_put [simp]: "vm_owns (put_dir (active_dir s) (d, m) s) P = owns_dir d m P"
  by (simp add: vm_owns_def put_dir_def)

lemma liballoc_alloc_ok:
  assumes ow: "vm_owns s P" and ready: "vm_ready n s" and n: "n \<noteq> 0"
  shows "\<exists>a s'. liballoc_alloc n s = Inr (a, s') \<and> a \<noteq> 0 \<and> unat a mod 4096 = 0 \<and> unat a + 4096 * unat n \<le> 2 ^ 32
    \<and> page_run a n \<inter> P = {} \<and> vm_owns s' (P \<union> page_run a n)"
proof -
  let ?d = "dirs s (active_dir s)" and ?m = "mm s" and ?n = "unat n"
  have ow': "owns_dir ?d ?m P" using ow by (simp add: vm_owns_def)
  obtain q where q: "klowfree ?d \<le> q" "free_run_at (page_free ?d ?m) ?n q" and fc: "2 * ?n < free_count (pm ?m)"
    using ready by (auto simp: vm_ready_def)
  have n0: "0 < ?n" using n by (simp add: unat_gt_0)
  have lo: "klowfree ?d = (if Mode_Kernel = Mode_Userlow then ulowfree ?d else klowfree ?d)" by (simp add: Mode_Kernel_def Mode_Userlow_def)
  obtain p d1 m1 where run: "pd_alloc ?n Mode_Kernel ?d ?m = kbind (map_run ?n (word_of_nat (p * 4096)) page_flags d1 m1)
       (\<lambda>(d2, m2). Inr (word_of_nat (p * 4096), d2, m2))"
    and r: "pd_ok d1 m1" "same_view ?d ?m d1 m1" "window_page m1 = window_page ?m" "pm m1 = pm ?m" "table_addr d1 = table_addr ?d"
      "klowfree ?d \<le> p" "p \<le> q" "free_run_at (page_free ?d ?m) ?n p" "0 < p"
    by (rule pd_alloc_search [of ?d ?m ?n Mode_Kernel, OF _ _ n0 _ lo q, folded page_flags_def]) (use ow' in \<open>auto simp: owns_dir_def\<close>)
  have pn: "p + ?n \<le> MM2_Total_Pages" using r(8) by (simp add: free_run_at_def)
  have free: "page_free ?d ?m i" if "p \<le> i" "i < p + ?n" for i using r(8) that by (simp add: free_run_at_def)
  have ow1: "owns_dir d1 m1 P" by (rule owns_dir_view [OF ow' r(1-5)])
  have apart: "valid_page m1 i \<and> i \<notin> P" if "p \<le> i" "i < p + ?n" for i
  proof -
    have "pte ?d ?m i AND PF_Present = 0" "i \<noteq> window_page m1" using free [OF that] r(3) by (simp_all add: page_free_def)
    moreover have "pte ?d ?m i AND PF_Present \<noteq> 0" if "i \<in> P" for i
      using ow' that by (auto simp: owns_dir_def pages_held_def page_flags_bits)
    ultimately show ?thesis using that(2) pn by (auto simp: valid_page_def MM2_Total_Pages_def MM2_Table_Entries_def)
  qed
  obtain d2 m2 where mr: "map_run ?n (word_of_nat (p * 4096)) page_flags d1 m1 = Inr (d2, m2)" "owns_dir d2 m2 (P \<union> {p ..< p + ?n})"
    using map_run_held [OF ow1 _ pn r(9)] fc r(4) apart by auto
  define a :: u32 where "a = word_of_nat (p * 4096)"
  have a: "unat a = p * 4096" unfolding a_def by (rule unat_page_word) (use pn n0 in \<open>simp add: MM2_Total_Pages_def\<close>)
  have pr: "page_run a n = {p ..< p + ?n}" by (simp only: page_run_def a nonzero_mult_div_cancel_right)
  have "liballoc_alloc n s = Inr (a, put_dir (active_dir s) (d2, m2) s)"
    using run mr(1) by (simp add: liballoc_alloc_def mm2_virtual_alloc_def a_def)
  moreover have "a \<noteq> 0" using a r(9) by (metis mult_eq_0_iff not_gr0 unat_0 zero_neq_numeral)
  moreover have "unat a mod 4096 = 0" "unat a + 4096 * ?n \<le> 2 ^ 32" unfolding a using pn by (simp_all add: MM2_Total_Pages_def)
  moreover have "page_run a n \<inter> P = {}" unfolding pr using apart by auto
  ultimately show ?thesis using mr(2) unfolding pr [symmetric] by (intro exI [of _ a] exI conjI) (assumption | simp)+
qed

lemma liballoc_free_ok:
  assumes ow: "vm_owns s P" and a: "unat a mod 4096 = 0" and sub: "page_run a n \<subseteq> P"
  shows "\<exists>s'. liballoc_free a n s = Inr s' \<and> vm_owns s' (P - page_run a n)"
proof -
  let ?d = "dirs s (active_dir s)" and ?m = "mm s" and ?n = "unat n" and ?p = "unat a div 4096"
  have ow': "owns_dir ?d ?m P" using ow by (simp add: vm_owns_def)
  have pr: "page_run a n = {?p ..< ?p + ?n}" by (simp add: page_run_def)
  have aw: "word_of_nat (?p * 4096) = a" using a by (simp add: mult.commute minus_mod_eq_mult_div [symmetric])
  have "?p + ?n \<le> 1048576"
  proof (cases "?n = 0")
    case True
    then show ?thesis using page_range [of a] by (simp add: MM2_Table_Entries_def)
  next
    case False
    then have "?p + ?n - 1 \<in> P" using sub unfolding pr by auto
    then have "valid_page ?m (?p + ?n - 1)" using ow' by (simp add: owns_dir_def)
    then have "?p + ?n - 1 < 1048576" by (simp add: valid_page_def MM2_Table_Entries_def)
    then show ?thesis by linarith
  qed
  then obtain d' m' where "free_run ?n a ?d ?m = Inr (d', m')" "owns_dir d' m' (P - {?p ..< ?p + ?n})"
    using free_run_held [OF ow', of ?p ?n] sub unfolding pr aw by blast
  then show ?thesis unfolding pr by (simp add: liballoc_free_def mm2_virtual_free_def on_dir_def pd_free_pages_def)
qed

interpretation kh: page_source liballoc_alloc liballoc_free vm_owns vm_ready
  by unfold_locales (rule liballoc_alloc_ok liballoc_free_ok; assumption)+

section \<open>Properties\<close>

text \<open>
  (C2) \<^verbatim>\<open>malloc\<close> of the kernel returns. From a well-formed heap whose pages are held in the
  current directory, with frames and page numbers left, every request short of the last 80 bytes of
  the range gives a pointer that is not null, aligned to 16, with all its bytes on pages of the heap, and
  sharing no byte with any block in use. The heap stays well-formed, exactly this block is added to the blocks
  in use, and no memory of the other blocks changes. The search over the linked lists ends: rounds for twice the chunks
  and once the blocks are enough.
\<close>

theorem kernel_malloc_correct:
  assumes "heap_ok vm_owns h cs" and "vm_ready (pages_for (req + 32)) (hook_state h)"
    and "unat req + 80 < 2 ^ 32" and "2 * length cs + headers cs + 4 \<le> fuel"
  shows "\<exists>p h' cs'. malloc liballoc_alloc fuel req h = Inr (p, h') \<and> heap_ok vm_owns h' cs'
     \<and> p \<noteq> 0 \<and> unat p mod 16 = 0 \<and> (\<forall>i < unat req. (unat p + i) div 4096 \<in> heap_pages h' cs')
     \<and> (\<forall>(q, s) \<in> live h. unat p + unat req \<le> unat q \<or> unat q + unat s \<le> unat p)
     \<and> live h' = insert (p, req) (live h) \<and> p \<notin> fst ` live h \<and> hmem h' = hmem h"
proof -
  obtain ph where r: "malloc liballoc_alloc fuel req h = Inr ph" "malloced vm_owns h req ph"
    using kh.malloc_returns [OF assms] by blast
  from r(2) obtain p h' cs' where m: "ph = (p, h')" "heap_ok vm_owns h' cs'" "p \<noteq> 0" "live h' = insert (p, req) (live h)"
    "p \<notin> fst ` live h" "hmem h' = hmem h" by (rule malloced_cases)
  have sh: "shape_ok h' cs'" and p: "(p, req) \<in> live h'" using m(2,4) by (simp_all add: heap_ok_def)
  have "unat p + unat req \<le> unat q \<or> unat q + unat s \<le> unat p" if "(q, s) \<in> live h" for q s
    by (rule live_apart [OF sh p]) (use that m(4,5) in force)+
  then show ?thesis using r(1) m live_placed [OF sh p] by (intro exI [of _ p] exI [of _ h'] exI [of _ cs']) auto
qed


text \<open>
  (C12) \<^verbatim>\<open>realloc\<close> of the kernel keeps the content. It returns a block of the new size in place
  of the old one; the bytes up to the smaller of the sizes are the old ones, and every other block
  in use keeps its memory.
\<close>

theorem kernel_realloc_keeps:
  assumes "heap_ok vm_owns h cs" and "(p, r) \<in> live h" and "sz \<noteq> 0" and "vm_ready (pages_for (sz + 32)) (hook_state h)"
    and "unat sz + 80 < 2 ^ 32" and "2 * length cs + headers cs + 4 \<le> fuel"
  shows "\<exists>q h' cs'. realloc liballoc_alloc liballoc_free fuel p sz h = Inr (q, h') \<and> heap_ok vm_owns h' cs'
     \<and> live h' = insert (q, sz) (live h - {(p, r)}) \<and> (sz \<le> r \<longrightarrow> q = p)
     \<and> (\<forall>i < min (unat r) (unat sz). hmem h' (unat q + i) = hmem h (unat p + i)) \<and> kept h h' (live h - {(p, r)})"
proof (cases "sz \<le> r")
  case True
  then show ?thesis using kh.realloc_shrinks [OF assms(1,2,3) True, of fuel] by (auto simp: kept_def)
next
  case False
  then have lt: "r < sz" by simp
  then have "min (unat r) (unat sz) = unat r" by (simp add: word_less_nat_alt)
  then show ?thesis using kh.realloc_grows [OF assms(1,2) lt assms(4-6)] False by auto
qed

text \<open>
  (C32) A request of the last 31 sizes wraps around when the room for the alignment is added. On an empty heap with
  a page to be had, \<^verbatim>\<open>malloc\<close> then returns a pointer that is not null, for a block that reaches far
  behind the end of the chunk it lies in.
\<close>

theorem kernel_malloc_overflows:
  assumes "heap_ok vm_owns h []" and "vm_ready 1 (hook_state h)" and "2 ^ 32 - 32 < unat req"
  shows "\<exists>p h'. malloc liballoc_alloc (Suc fuel) req h = Inr (p, h') \<and> p \<noteq> 0 \<and> (p, req) \<in> live h'
     \<and> chunk_end h' (l_memRoot h') < unat p + unat req"
proof -
  have h: "l_memRoot h = 0" "l_bestBet h = 0" "vm_owns (hook_state h) (heap_pages h [])"
    using assms(1) by (simp_all add: heap_ok_def shape_ok_def)
  obtain a s where a: "liballoc_alloc 1 (hook_state h) = Inr (a, s)" "a \<noteq> 0" "unat a + 4096 * unat (1 :: u32) \<le> 2 ^ 32"
    using liballoc_alloc_ok [OF h(3) assms(2)] by (auto simp del: unsigned_1)
  show ?thesis by (rule malloc_wraps [where alloc_hook = liballoc_alloc, OF h(1,2) assms(3) a(1,2)]) (use a(3) in simp)
qed

section \<open>A small kernel heap\<close>

text \<open>One chunk on page 6, which lies on the first frame, with one block of 100 bytes in it.\<close>

definition used_mm :: mmstate where
  "used_mm = \<lparr>frames = (\<lambda>_. (replicate 1024 0)[0 := PF_Guard_Page, 6 := 0x100007, 7 := 0x5003]),
     pm = \<lparr>physical_pages = [0x100001, 0x101000, 0x102000, 0x103000], io_pages = [], end_of_kernel = 0x6000,
           free_pages = 3, lastidx = 0\<rparr>, kpages = 2, window_page = 5\<rparr>"

definition used_vm :: vsys where
  "used_vm = small_vm\<lparr>mm := used_mm\<rparr>"

definition used_heap :: "vsys heap" where
  "used_heap = \<lparr>majors = [0x6000 \<mapsto> \<lparr>mj_prev = 0, mj_next = 0, mj_pages = 1, mj_size = 4096, mj_usage = 180, mj_first = 0x6018\<rparr>],
     minors = [0x6018 \<mapsto> \<lparr>mn_prev = 0, mn_next = 0, mn_block = 0x6000, mn_magic = LIBALLOC_MAGIC, mn_size = 132, mn_req_size = 100\<rparr>],
     align_info = [0x6030 \<mapsto> 16], hmem = (\<lambda>_. 0), l_memRoot = 0x6000, l_bestBet = 0x6000, l_allocated = 4096, l_inuse = 132,
     l_warningCount = 0, l_errorCount = 0, l_possibleOverruns = 0, hook_state = used_vm\<rparr>"

definition empty_heap :: "vsys heap" where
  "empty_heap = \<lparr>majors = Map.empty, minors = Map.empty, align_info = Map.empty, hmem = (\<lambda>_. 0), l_memRoot = 0, l_bestBet = 0,
     l_allocated = 0, l_inuse = 0, l_warningCount = 0, l_errorCount = 0, l_possibleOverruns = 0, hook_state = small_vm\<rparr>"

lemma small_vm_fields: "active_dir small_vm = 0" "dirs small_vm = (\<lambda>_. small_dir)" "mm small_vm = small_mm"
  by (simp_all add: small_vm_def proc_init_def psys.defs vsys.defs)

lemma used_vm_fields: "active_dir used_vm = 0" "dirs used_vm = (\<lambda>_. small_dir)" "mm used_vm = used_mm"
  by (simp_all add: used_vm_def small_vm_fields)

lemma used_addresses:
  "i < 4 \<Longrightarrow> page_address (physical_pages (pm used_mm) ! i) = [0x100000, 0x101000, 0x102000, 0x103000] ! i
     \<and> page_status (physical_pages (pm used_mm) ! i) = (if i = 0 then status_code InUse else status_code Free)"
  by (drule less_4E, elim disjE)
     (simp_all add: used_mm_def page_address_def page_status_def MM2_Address_Mask_def)

lemma used_length: "length (physical_pages (pm used_mm)) = 4" "length (physical_pages (pm small_mm)) = 4"
  by (simp_all add: used_mm_def small_mm_def)

lemma small_addrs: "addrs_ok (pm small_mm)" "addrs_ok (pm used_mm)"
  by (simp_all add: addrs_ok_def pmm_ok_def addrs_ascending_def small_mm_def used_mm_def page_address_def MM2_Address_Mask_def)

lemma used_pte: "pte small_dir used_mm 0 = PF_Guard_Page" "pte small_dir used_mm 6 = 0x100007" "pte small_dir used_mm 7 = 0x5003"
  "i \<noteq> 0 \<Longrightarrow> i \<noteq> 6 \<Longrightarrow> i \<noteq> 7 \<Longrightarrow> i < 1024 \<Longrightarrow> pte small_dir used_mm i = 0"
  by (simp_all add: pte_def MM2_Table_Entries_def small_table) (simp_all add: used_mm_def)

lemma used_tables_ok: "tables_ok small_dir used_mm"
  using small_tables_ok by (simp add: tables_ok_def frame_table_def) (simp add: small_mm_def used_mm_def MM2_Table_Entries_def)

lemma used_pd_ok: "pd_ok small_dir used_mm"
proof -
  have "cache_ok small_dir used_mm"
    using used_pte(3) by (simp add: cache_ok_def) (simp add: small_dir_def used_mm_def)
  moreover have "page_address (physical_pages (pm used_mm) ! i) \<noteq> 0
        \<and> (\<forall>t < 1024. table_addr small_dir t \<noteq> page_address (physical_pages (pm used_mm) ! i))" if "i < 4" for i
    using used_addresses [OF that] less_4E [OF that] by (auto simp: small_table)
  then have "pool_ok small_dir (pm used_mm)"
    using address_inj [OF small_addrs(2)] small_addrs(2)
    by (simp add: pool_ok_def free_index_def used_length MM2_Table_Entries_def addrs_ok_def)
  ultimately show ?thesis using used_tables_ok by (simp add: pd_ok_def)
qed

lemma used_owns: "vm_owns used_vm {6}"
proof -
  have "frame_ok (table_addr small_dir) (pm used_mm) 0"
    using used_addresses [of 0] by (simp add: frame_ok_def used_length MM2_Table_Entries_def small_table)
  moreover have "pte small_dir used_mm 6 = page_address (physical_pages (pm used_mm) ! 0) OR page_flags"
    using used_addresses [of 0] used_pte(2) by (simp add: page_flags_def PF_Present_def PF_Writable_def PF_Usermode_def)
  ultimately have "pages_held (table_addr small_dir) (pm used_mm) (pte small_dir used_mm) {6}"
    unfolding pages_held_def by (intro exI [of _ "\<lambda>_. 0"]) simp
  moreover have "\<not> page_free small_dir used_mm 0" by (simp add: page_free_def used_pte(1) PF_Guard_Page_def PF_Do_Not_Use_def)
  moreover have "valid_page used_mm 6" by (simp add: valid_page_def used_mm_def MM2_Table_Entries_def)
  ultimately show ?thesis using used_pd_ok small_addrs(2) by (simp add: vm_owns_def owns_dir_def used_vm_fields)
qed

lemma small_owns: "vm_owns small_vm {}"
  using small_pd_ok small_addrs(1) by (simp add: vm_owns_def owns_dir_def small_vm_fields pages_held_def page_free_def small_pte(1)
      PF_Guard_Page_def PF_Do_Not_Use_def)

lemma one_free_page: "page_free d m 1 \<Longrightarrow> free_run_at (page_free d m) (unat (1 :: u32)) 1"
  by (auto simp: free_run_at_def MM2_Total_Pages_def less_Suc_eq)

lemma small_ready: "vm_ready 1 small_vm" "vm_ready 1 used_vm"
proof -
  have "page_free small_dir small_mm 1" using small_pte(3) [of 1] by (simp add: page_free_def) (simp add: small_mm_def)
  then show "vm_ready 1 small_vm"
    using one_free_page small_free_count by (auto simp: vm_ready_def small_vm_fields small_dir_def MM2_Total_Pages_def intro!: exI [of _ 1])
  have u: "usable 0xFFFFFFFF (pm used_mm) i = (i \<noteq> 0)" if "i < 4" for i
    using used_addresses [OF that] less_4E [OF that] by (auto simp: usable_def)
  have "{i. i < 4 \<and> usable 0xFFFFFFFF (pm used_mm) i} = {1, 2, 3}" using u by (auto dest: less_4E)
  then have "free_count (pm used_mm) = 3" by (simp add: free_count_def used_length)
  moreover have "page_free small_dir used_mm 1" using used_pte(4) [of 1] by (simp add: page_free_def) (simp add: used_mm_def)
  ultimately show "vm_ready 1 used_vm"
    using one_free_page by (auto simp: vm_ready_def used_vm_fields small_dir_def MM2_Total_Pages_def intro!: exI [of _ 1])
qed

lemma used_ptr: "user_ptr 0x6018 = 0x6040" "moved 0x6018 = 16"
  by (simp_all add: user_ptr_def moved_def header_bytes_def ALIGN_INFO_def ALIGNMENT_def)

lemma used_heap_ok: "heap_ok vm_owns used_heap [(0x6000, [0x6018])]"
proof -
  have "chunk_end used_heap 0x6000 = 0x7000" by (simp add: chunk_end_def major_of_def used_heap_def)
  moreover have "chunk_ok used_heap 0x6000 [0x6018]"
    by (simp add: chunk_ok_def major_ok_def minor_ok_def major_of_def minor_of_def mn_bytes_def chunk_end_def used_ptr ALIGN_INFO_def)
       (simp add: used_heap_def)
  moreover have "{6 ..< 7} = {6 :: nat}" by auto
  ultimately show ?thesis using used_owns
    by (simp add: heap_ok_def shape_ok_def heap_pages_def) (simp add: used_heap_def major_of_def)
qed

lemma used_live: "live used_heap = {(0x6040, 100)}"
  using used_ptr by (auto simp: live_def used_heap_def)

lemma empty_heap_ok: "heap_ok vm_owns empty_heap []"
  using small_owns by (simp add: heap_ok_def shape_ok_def heap_pages_def empty_heap_def)

theorem kernel_malloc_correct_witness:
  "\<exists>p h'. malloc liballoc_alloc 7 200 used_heap = Inr (p, h') \<and> unat p mod 16 = 0 \<and> live h' = {(p, 200), (0x6040, 100)}
     \<and> (unat p + 200 \<le> 0x6040 \<or> 0x6040 + 100 \<le> unat p)"
proof -
  have "vm_ready (pages_for (200 + 32)) (hook_state used_heap)" using small_ready(2) by (simp add: pages_for_small used_heap_def)
  from kernel_malloc_correct [OF used_heap_ok this, of 7] show ?thesis by (auto simp: used_live)
qed


theorem kernel_realloc_keeps_witness:
  "\<exists>q h'. realloc liballoc_alloc liballoc_free 7 0x6040 200 used_heap = Inr (q, h') \<and> live h' = {(q, 200)}
     \<and> hmem h' (unat q + 99) = 0"
proof -
  have "vm_ready (pages_for (200 + 32)) (hook_state used_heap)" using small_ready(2) by (simp add: pages_for_small used_heap_def)
  from kernel_realloc_keeps [OF used_heap_ok _ _ this, of "0x6040" 100 7] show ?thesis
    by (auto simp: used_live) (auto simp: used_heap_def)
qed

theorem kernel_malloc_overflows_witness:
  "\<exists>p h'. malloc liballoc_alloc 1 0xFFFFFFF0 empty_heap = Inr (p, h') \<and> p \<noteq> 0 \<and> chunk_end h' (l_memRoot h') < unat p + 0xFFFFFFF0"
  using kernel_malloc_overflows [OF empty_heap_ok, of "0xFFFFFFF0" 0] small_ready(1) by (auto simp: empty_heap_def)

end
