(* ===== verification/Spec2Isabelle.thy ===== *)
theory Spec2Isabelle
  imports Prelude Ministl Memcpy Cstring Circular_Buffer Locks Registries Physical Page_Directory
    Process Messaging Scheduler Filesystems Kernel_Fs Address_Space Heap Heap_Correct Kernel_Heap
begin

text \<open>
  Verification of the BT/OS kernel, a 32-bit multitasking kernel for i686 machines. The paths below
  are relative to \<^verbatim>\<open>src/src\<close>; the kernel itself is \<^verbatim>\<open>kernel\<close>.

  \<^bold>\<open>The program and its parts.\<close> A boot loader starts the kernel with a memory map and a tar
  archive. The kernel takes charge of physical pages (\<^verbatim>\<open>mm2/physical.cpp\<close>), builds page
  directories over them (\<^verbatim>\<open>mm2/pagedirectory.cpp\<close>, \<^verbatim>\<open>mm2/virtual.cpp\<close>), mounts the archive
  (\<^verbatim>\<open>filesystems.cpp\<close>, \<^verbatim>\<open>initfs.cpp\<close>), runs threads (\<^verbatim>\<open>scheduler.cpp\<close>) that belong to
  processes (\<^verbatim>\<open>process.cpp\<close>), and lets these use it through system calls
  (\<^verbatim>\<open>user_api.cpp\<close>) and talk to each other by messages (\<^verbatim>\<open>messaging.cpp\<close>) and shared memory
  (\<^verbatim>\<open>mm2/shm.cpp\<close>). Everything shared is guarded by locks (\<^verbatim>\<open>locks.cpp\<close>) and kept in
  the containers of \<^verbatim>\<open>include/util/ministl.hpp\<close>.

  \<^bold>\<open>How code becomes definitions.\<close> A routine is a function from the state of its component to a
  result and the new state, under the name it has in the code. It returns an \<open>'a kres\<close>
  (\<open>Prelude\<close>): \<open>Inr\<close> the result, or \<open>Inl\<close> the way it fails, which is a panic, an access
  outside an object, waiting for another thread, undefined behaviour, or a loop that never ends.
  Machine integers are words of their width, so all arithmetic wraps where the code's does. A
  structure is a record, an enumeration a datatype or its numbers, a \<^verbatim>\<open>vector\<close> a list and a
  \<^verbatim>\<open>map\<close> an association list in iteration order, with the operations \<open>Ministl\<close> proves the
  buffers to implement. Objects behind pointers are named by an address or an id where aliasing or
  deletion matters. An operation that the code runs under one lock is one atomic step.

  \<^bold>\<open>The theories, and what their lemmas show.\<close>

  \<^item> \<open>Prelude\<close>: word types, failures and their sequencing, facts on lists and words.

  \<^item> \<open>Ministl\<close>: \<^verbatim>\<open>vector\<close> and \<^verbatim>\<open>map\<close> on their buffers. No store leaves a buffer except
    after copying an empty vector; the map is a dictionary. The contract is the locale
    \<open>keyed_map\<close>, interpreted for the buffer and for the association list.

  \<^item> \<open>Memcpy\<close>: the word-assembling \<^verbatim>\<open>memcpy\<close> of \<^verbatim>\<open>memcpy.c\<close> and \<^verbatim>\<open>memmove\<close> of
    \<^verbatim>\<open>util.cpp\<close> are block copies, for every alignment and overlap.

  \<^item> \<open>Cstring\<close>: \<^verbatim>\<open>itoa\<close>, \<^verbatim>\<open>strcmp\<close>, \<^verbatim>\<open>strncpy\<close> on byte arrays, the class
    \<^verbatim>\<open>string\<close> and \<^verbatim>\<open>strutil.cpp\<close>: a round trip, exactness and bounds.

  \<^item> \<open>Circular_Buffer\<close>: the ring buffer and the request queue of the drivers implement the locale
    \<open>bounded_queue\<close>.

  \<^item> \<open>Locks\<close>: every lock operation with abort levels and parking, as steps of interleaved threads
    (\<open>lk_reach\<close>). Mutual exclusion, abort levels and progress hold in every reachable state; a
    race in \<^verbatim>\<open>try_take\<close> is exhibited.

  \<^item> \<open>Registries\<close>: atoms, handles, kernel variables, extensions and devices. Atoms behave as one
    register; registered things get fresh names and are found again.

  \<^item> \<open>Physical\<close>: page descriptors, the set-up from the memory map, allocation, the search by
    address, freeing. Allocation is right while another free page is left; the two situations in
    which it is not, and the pages the set-up loses, are exhibited.

  \<^item> \<open>Page_Directory\<close>: page tables behind a one-page window and an entry cache implement one array
    of entries; allocation is first fit; a mapping translates to its frame; the cache goes stale
    across directories.

  \<^item> \<open>Process\<close>: the process table with environments, handles and threads, as steps (\<open>preach\<close>)
    that keep it well formed; private variables do not leak to user mode; read-only ones can be
    overridden.

  \<^item> \<open>Messaging\<close>: headers, queues, replies, events and filters, as steps (\<open>mreach\<close>). Each header
    is in exactly one place; queues are first in, first out; a message is answered at most once; the
    content of foreign messages can be read.

  \<^item> \<open>Scheduler\<close>: threads, the choice of the next one, the chain the prescheduler builds, the switch,
    blocking and aborting. A cycle of the prescheduler ends; the switch may run a thread that is not
    runnable; an abort waits for the wrong condition.

  \<^item> \<open>Filesystems\<close>: paths, mounts, files and directories over drivers, which are records of
    functions. Paths are cut as meant; mounts of at most eight characters are reachable.

  \<^item> \<open>Kernel_Fs\<close>: the boot archive, the information files and the devices as such drivers, and the
    start of the file systems. The locale \<open>stream_reader\<close> is what a file promises its reader; it is
    interpreted for the two drivers that hold files and for the layer above. From a tar image in
    memory to the bytes a reader gets, nothing is lost.

  \<^item> \<open>Address_Space\<close>: the directories of all processes, the switch between them, page faults,
    shared memory, and the checks on pointers from user mode. Two mappings of one shared space reach
    the same frames, writable even where the space is read-only; the pointer check is right for
    page-aligned buffers and accepts others that are not mapped.

  \<^item> \<open>Heap\<close>: the heap of \<^verbatim>\<open>liballoc.c\<close>, a list of chunks of pages with a list of block headers in
    each, reached by address. The lemmas relate the linked structure to lists of addresses
    (\<open>shape_ok\<close>): a new header is put into a gap, and the lists stay linked, in order and apart.

  \<^item> \<open>Heap_Correct\<close>: the locale \<open>page_source\<close> is what the heap expects of whoever gives it pages;
    over it, allocation, release, \<^verbatim>\<open>calloc\<close> and \<^verbatim>\<open>realloc\<close> are right for the blocks in use
    (\<open>live\<close>). Requests at the end of the range wrap around.

  \<^item> \<open>Kernel_Heap\<close>: the hooks of \<^verbatim>\<open>liballoc_hooks.cpp\<close> on the current page directory. Pages
    that are held each have a frame of their own, which mapping and freeing pages keep, so the
    hooks interpret \<open>page_source\<close>. From the heap's lists down to the descriptors of frames, the
    kernel's \<^verbatim>\<open>malloc\<close> hands out memory that nothing else uses, and \<^verbatim>\<open>free\<close> gives it back.

  \<^bold>\<open>Bounds and fuel.\<close> A loop whose end is not evident takes a bound on its rounds and ends in
  \<open>Diverges\<close> when it is used up. \<^verbatim>\<open>itoa\<close> needs at most 33 rounds in any base from 2.
  The allocator's scan gets one round more than there are pages, after which it would repeat itself.
  The walk over a memory region gets \<open>2^21\<close> rounds, more than a 32-bit address space has pages.
  A prescheduler cycle is proved to end within one round more than there are threads, the search
  for a handle or an extension id while one is left, the walk over an archive within a hundred
  rounds more than it has files (a name has at most 99 characters), the listing of its root within
  as many, the pointer check within one round more than the buffer has pages, and the search of
  \<^verbatim>\<open>malloc\<close> within four rounds more than twice the chunks and once the blocks. Nothing is claimed
  of the bounds of \<^verbatim>\<open>msg_clear\<close> (one round more than there are messages),
  \<^verbatim>\<open>is_safe_string\<close> and the allocation of the kernel's page tables. Counters of
  nested locks and abort levels are unbounded integers.

  \<^bold>\<open>Not modelled.\<close> The contents of user pages, and with them memory-mapped files
  (\<^verbatim>\<open>mm2/mm2_mmap.cpp\<close>, whose page-fault handler is a parameter of \<open>Address_Space\<close>) and the
  program loader (\<^verbatim>\<open>load_elf.cpp\<close>); for the same reason \<^verbatim>\<open>fs_close\<close>,
  \<^verbatim>\<open>fs_flush\<close>, \<^verbatim>\<open>proc_spawn\<close> and \<^verbatim>\<open>proc_end\<close>, which call them. The other components do not
  allocate from the heap: their objects are values, and allocation does not fail. The heap's own headers are kept apart
  from the bytes it hands out, so a store outside of a block does not damage them. Formatted output
  (\<^verbatim>\<open>printf.c\<close> and the texts of the information files). Descriptor tables, interrupt stubs,
  port I/O, the FPU and debug registers, the TLB and all assembly code, which act on the machine. The
  system calls besides those on pages, which check their arguments and forward to the components.
  The loadable modules, which the kernel sees as tables of functions, and everything that runs in
  user mode, including the ported C library.
\<close>

end
